(* ===== verification/HFT_Prelude.thy ===== *)
theory HFT_Prelude
  imports Main "HOL-Library.Word" "HOL-Library.Monad_Syntax"
begin

text \<open>
  Shared vocabulary of the development: the machine integers of the C++ sources, pointers into
  pre-allocated arrays, the calls the code makes to its logger, the option monad in which
  \<open>None\<close> stands for an execution without a defined result (a loop that never returns, an access
  outside an array, a null dereference), and generic lemmas on lists, options and cyclic indices.
\<close>

section \<open>Machine integers, pointers and log calls\<close>

type_synonym u8 = "8 word"
type_synonym u16 = "16 word"
type_synonym u32 = "32 word"
type_synonym u64 = "64 word"

text \<open>A pointer to an element of an array that never moves: \<open>None\<close> is the null pointer.\<close>

type_synonym ptr = "nat option"

text \<open>
  The levels and the arguments of the calls \<open>AsyncLogger::log(level, format, ...)\<close>: unsigned and
  signed integers, C strings and plain memory passed as a \<open>char*\<close>.
  Operations that log return the calls they make, in order, next to their result.
\<close>

datatype LogLevel = INFO | WARN | ERROR | FATAL

datatype log_arg = ArgU nat | ArgI int | ArgS string | ArgB "u8 list"

record log_call =
  lc_level :: LogLevel
  lc_format :: string
  lc_args :: "log_arg list"

definition log_msg :: "LogLevel \<Rightarrow> string \<Rightarrow> log_arg list \<Rightarrow> log_call" where
  "log_msg lvl fmt args = \<lparr>lc_level = lvl, lc_format = fmt, lc_args = args\<rparr>"

named_theorems lob_simps \<open>evaluation rules of the order book\<close>
named_theorems wire_simps \<open>offsets, sizes and field accessors of the wire formats\<close>
named_theorems frame \<open>what an operation leaves unchanged\<close>

section \<open>Arrays\<close>

text \<open>An array read or write outside the array has no defined result.\<close>

definition aread :: "'a list \<Rightarrow> nat \<Rightarrow> 'a option" where
  "aread xs i = (if i < length xs then Some (xs ! i) else None)"

definition awrite :: "'a list \<Rightarrow> nat \<Rightarrow> 'a \<Rightarrow> 'a list option" where
  "awrite xs i v = (if i < length xs then Some (xs[i := v]) else None)"

lemma aread_Some [simp]: "i < length xs \<Longrightarrow> aread xs i = Some (xs ! i)"
  by (simp add: aread_def)

lemma awrite_Some [simp]: "i < length xs \<Longrightarrow> awrite xs i v = Some (xs[i := v])"
  by (simp add: awrite_def)

section \<open>Cyclic indices\<close>

text \<open>
  \<open>cdist n i j\<close> is the number of steps from index \<open>i\<close> to index \<open>j\<close> in a table of \<open>n\<close> slots
  that is walked by \<open>index = (index + 1) % n\<close>.
\<close>

definition cdist :: "nat \<Rightarrow> nat \<Rightarrow> nat \<Rightarrow> nat" where
  "cdist n i j = (if i \<le> j then j - i else n - i + j)"

lemma cdist_self [simp]: "cdist n i i = 0"
  by (simp add: cdist_def)

lemma cdist_less: "i < n \<Longrightarrow> j < n \<Longrightarrow> cdist n i j < n"
  by (auto simp: cdist_def)

lemma cdist_0_iff: "i < n \<Longrightarrow> j < n \<Longrightarrow> cdist n i j = 0 \<longleftrightarrow> i = j"
  by (auto simp: cdist_def)

lemma Suc_mod_less: "i < n \<Longrightarrow> Suc i mod n < n"
  by simp

lemma Suc_mod_cases: "i < n \<Longrightarrow> Suc i mod n = (if Suc i = n then 0 else Suc i)"
  by auto

lemma cdist_Suc_mod:
  assumes "i < n" "j < n" "i \<noteq> j"
  shows "cdist n i j = Suc (cdist n (Suc i mod n) j)"
  using assms by (auto simp: cdist_def Suc_mod_cases)

lemma cdist_inj: "i < n \<Longrightarrow> j < n \<Longrightarrow> k < n \<Longrightarrow> cdist n i j = cdist n i k \<longleftrightarrow> j = k"
  by (auto simp: cdist_def split: if_splits)

section \<open>Lists and counting\<close>

lemma length_filter_list_update:
  assumes "j < length xs"
  shows "length (filter P (xs[j := v])) + (if P (xs ! j) then 1 else 0)
       = length (filter P xs) + (if P v then 1 else 0)"
proof -
  have xs: "xs = take j xs @ xs ! j # drop (Suc j) xs"
    using assms by (rule id_take_nth_drop)
  have "xs[j := v] = take j xs @ v # drop (Suc j) xs"
    using assms by (rule upd_conv_take_nth_drop)
  moreover have "length (filter P xs)
      = length (filter P (take j xs)) + (if P (xs ! j) then 1 else 0)
        + length (filter P (drop (Suc j) xs))"
    by (subst xs) simp
  ultimately show ?thesis by simp
qed

lemma filter_pos_iff: "0 < length (filter P xs) \<longleftrightarrow> (\<exists>j < length xs. P (xs ! j))"
  by (auto simp: filter_empty_conv in_set_conv_nth Bex_def)

lemma sum_list_remove1_word:
  fixes f :: "'a \<Rightarrow> 'b::ab_group_add"
  shows "x \<in> set xs \<Longrightarrow> sum_list (map f (remove1 x xs)) = sum_list (map f xs) - f x"
  by (induction xs) (auto simp: algebra_simps)

lemma remove1_append_notin: "x \<notin> set xs \<Longrightarrow> remove1 x (xs @ x # ys) = xs @ ys"
  by (simp add: remove1_append)

lemma sum_list_map_update_other:
  "i \<notin> set js \<Longrightarrow> sum_list (map (\<lambda>j. f (xs[i := v] ! j)) js) = sum_list (map (\<lambda>j. f (xs ! j)) js)"
  by (induction js) auto

end
