(* ===== verification/Probe_Table.thy ===== *)
theory Probe_Table
  imports HFT_Prelude
begin

text \<open>
  Open addressing with linear probing, the scheme of both hash tables of the program
  (\<open>LimitOrderBook::order_map_\<close> and \<open>ExecutionManagementSystem::order_map_\<close>). The locale
  \<open>probe_loop\<close> is the contract of one \<open>while (true)\<close> probing loop; it is interpreted on every
  such loop of the two components. The definitions below state the chain invariant of a table
  over an arbitrary slot type.
\<close>

section \<open>First stopping slot in probe order\<close>

definition first_stop :: "('s \<Rightarrow> bool) \<Rightarrow> 's list \<Rightarrow> nat \<Rightarrow> nat \<Rightarrow> bool" where
  "first_stop stop t i j \<longleftrightarrow> j < length t \<and> stop (t ! j) \<and>
     (\<forall>m < length t. cdist (length t) i m < cdist (length t) i j \<longrightarrow> \<not> stop (t ! m))"

lemma first_stopI:
  assumes "j < length t" "stop (t ! j)"
    and "\<And>m. m < length t \<Longrightarrow> cdist (length t) i m < cdist (length t) i j \<Longrightarrow> \<not> stop (t ! m)"
  shows "first_stop stop t i j"
  using assms by (simp add: first_stop_def)

lemma first_stop_exists:
  assumes "i < length t" "j < length t" "stop (t ! j)"
  shows "\<exists>k. first_stop stop t i k"
proof -
  let ?S = "{m. m < length t \<and> stop (t ! m)}"
  let ?k = "arg_min (cdist (length t) i) (\<lambda>m. m < length t \<and> stop (t ! m))"
  have "?k < length t \<and> stop (t ! ?k)"
    using assms(2,3) arg_min_natI [of "\<lambda>m. m < length t \<and> stop (t ! m)" j "cdist (length t) i"]
    by simp
  moreover have "cdist (length t) i ?k \<le> cdist (length t) i m"
    if "m < length t" "stop (t ! m)" for m
    using that arg_min_nat_le [of "\<lambda>m. m < length t \<and> stop (t ! m)" m "cdist (length t) i"]
    by simp
  ultimately have "first_stop stop t i ?k"
    by (auto simp: first_stop_def dest: leD)
  then show ?thesis ..
qed

lemma first_stop_step:
  assumes "first_stop stop t i j" "i < length t" "i \<noteq> j"
  shows "\<not> stop (t ! i) \<and> first_stop stop t (Suc i mod length t) j"
proof
  let ?n = "length t"
  from assms have j: "j < ?n" by (simp add: first_stop_def)
  have "cdist ?n i i < cdist ?n i j"
    using assms(2,3) j by (simp add: cdist_Suc_mod)
  then show "\<not> stop (t ! i)"
    using assms(1,2) by (simp add: first_stop_def)
  show "first_stop stop t (Suc i mod ?n) j"
  proof (rule first_stopI)
    fix m assume m: "m < ?n" "cdist ?n (Suc i mod ?n) m < cdist ?n (Suc i mod ?n) j"
    have "cdist ?n i m < cdist ?n i j"
    proof (cases "m = i")
      case True
      then show ?thesis using assms(2,3) j by (simp add: cdist_Suc_mod)
    next
      case False
      then show ?thesis using m assms(2,3) j by (simp add: cdist_Suc_mod)
    qed
    then show "\<not> stop (t ! m)" using assms(1) m(1) by (simp add: first_stop_def)
  qed (use assms(1) in \<open>auto simp: first_stop_def\<close>)
qed

lemma first_stop_self: "first_stop stop t i j \<Longrightarrow> i < length t \<Longrightarrow> stop (t ! i) \<Longrightarrow> j = i"
  using first_stop_step by fastforce

section \<open>The contract of a probing loop\<close>

text \<open>
  \<open>loop t i\<close> inspects slot \<open>i\<close>: it returns \<open>result t i\<close> when the slot satisfies the loop's
  stopping condition and otherwise goes on with the next slot, cyclically. The second law says
  that a loop with no stopping slot has no result.
\<close>

locale probe_loop =
  fixes stop :: "'s \<Rightarrow> bool"
    and result :: "'s list \<Rightarrow> nat \<Rightarrow> 'r"
    and loop :: "'s list \<Rightarrow> nat \<Rightarrow> 'r option"
  assumes unfold: "i < length t \<Longrightarrow> loop t i =
      (if stop (t ! i) then Some (result t i) else loop t (Suc i mod length t))"
    and stuck: "i < length t \<Longrightarrow> \<forall>j < length t. \<not> stop (t ! j) \<Longrightarrow> loop t i = None"
begin

lemma loop_first:
  assumes "first_stop stop t i j" "i < length t"
  shows "loop t i = Some (result t j)"
  using assms
proof (induction "cdist (length t) i j" arbitrary: i)
  case 0
  then have "i = j" by (metis cdist_0_iff first_stop_def)
  with 0 show ?case by (simp add: unfold first_stop_def)
next
  case (Suc d)
  then have j: "j < length t" and ne: "i \<noteq> j" by (auto simp: first_stop_def)
  from first_stop_step [OF Suc.prems ne]
  have ns: "\<not> stop (t ! i)" and fs: "first_stop stop t (Suc i mod length t) j" by auto
  have "d = cdist (length t) (Suc i mod length t) j"
    using Suc.hyps(2) cdist_Suc_mod [OF Suc.prems(2) j ne] by simp
  moreover have "Suc i mod length t < length t" using Suc.prems(2) by (rule Suc_mod_less)
  ultimately have "loop t (Suc i mod length t) = Some (result t j)"
    using Suc.hyps(1) fs by blast
  with ns Suc.prems(2) show ?case by (simp add: unfold)
qed

lemma loop_returns_iff:
  assumes "i < length t"
  shows "loop t i \<noteq> None \<longleftrightarrow> (\<exists>j < length t. stop (t ! j))"
proof
  assume "loop t i \<noteq> None"
  then show "\<exists>j < length t. stop (t ! j)" using stuck [OF assms] by meson
next
  assume "\<exists>j < length t. stop (t ! j)"
  then obtain k where "first_stop stop t i k" using first_stop_exists [OF assms] by blast
  from loop_first [OF this assms] show "loop t i \<noteq> None" by simp
qed

lemma loop_SomeE:
  assumes "loop t i = Some r" "i < length t"
  obtains j where "first_stop stop t i j" "r = result t j"
proof -
  from assms have "\<exists>j < length t. stop (t ! j)" using loop_returns_iff by force
  then obtain j where j: "first_stop stop t i j" using first_stop_exists [OF assms(2)] by blast
  with assms loop_first [OF j assms(2)] that show thesis by simp
qed

end

section \<open>The chain invariant of a table\<close>

text \<open>
  \<open>chains nul live h t\<close>: from the home slot \<open>h e\<close> of every live entry \<open>e\<close> up to the slot that
  holds it no slot is empty, so that a probe for its key cannot stop early.
\<close>

definition chains :: "('s \<Rightarrow> bool) \<Rightarrow> ('s \<Rightarrow> bool) \<Rightarrow> ('s \<Rightarrow> nat) \<Rightarrow> 's list \<Rightarrow> bool" where
  "chains nul live h t \<longleftrightarrow> (\<forall>j < length t. live (t ! j) \<longrightarrow>
     (\<forall>m < length t. cdist (length t) (h (t ! j)) m < cdist (length t) (h (t ! j)) j \<longrightarrow>
        \<not> nul (t ! m)))"

lemma chainsD:
  "chains nul live h t \<Longrightarrow> j < length t \<Longrightarrow> live (t ! j) \<Longrightarrow> m < length t \<Longrightarrow>
   cdist (length t) (h (t ! j)) m < cdist (length t) (h (t ! j)) j \<Longrightarrow> \<not> nul (t ! m)"
  by (simp add: chains_def)

text \<open>A live entry is the first slot, in probe order, that is empty or carries its key.\<close>

lemma chains_first_stop:
  assumes "chains nul live h t" "j < length t" "live (t ! j)" "stop (t ! j)"
    and "\<And>m. m < length t \<Longrightarrow> stop (t ! m) \<Longrightarrow> nul (t ! m) \<or> m = j"
  shows "first_stop stop t (h (t ! j)) j"
proof (rule first_stopI)
  fix m assume m: "m < length t" "cdist (length t) (h (t ! j)) m < cdist (length t) (h (t ! j)) j"
  then have "\<not> nul (t ! m)" "m \<noteq> j" using assms(1-3) by (auto dest: chainsD)
  then show "\<not> stop (t ! m)" using assms(5) m(1) by blast
qed (use assms in auto)

text \<open>Overwriting a slot by a non-empty entry keeps the chains of all other entries.\<close>

lemma chains_update_nonempty:
  assumes "chains nul live h t" "k < length t" "\<not> nul e"
    and "live e \<Longrightarrow> (\<forall>m < length t. cdist (length t) (h e) m < cdist (length t) (h e) k \<longrightarrow>
           \<not> nul (t ! m))"
  shows "chains nul live h (t[k := e])"
  using assms unfolding chains_def by (auto simp: nth_list_update)

section \<open>Tables: home slot, invariant, abstraction\<close>

definition home :: "('s \<Rightarrow> u64) \<Rightarrow> 's list \<Rightarrow> 's \<Rightarrow> nat" where
  "home key t e = unat (key e) mod length t"

definition unique_keys :: "('s \<Rightarrow> bool) \<Rightarrow> ('s \<Rightarrow> u64) \<Rightarrow> 's list \<Rightarrow> bool" where
  "unique_keys live key t \<longleftrightarrow> (\<forall>i < length t. \<forall>j < length t.
     live (t ! i) \<longrightarrow> live (t ! j) \<longrightarrow> key (t ! i) = key (t ! j) \<longrightarrow> i = j)"

definition table_inv :: "('s \<Rightarrow> bool) \<Rightarrow> ('s \<Rightarrow> bool) \<Rightarrow> ('s \<Rightarrow> u64) \<Rightarrow> 's list \<Rightarrow> bool" where
  "table_inv nul live key t \<longleftrightarrow> t \<noteq> [] \<and> chains nul live (home key t) t \<and> unique_keys live key t"

definition table_abs :: "('s \<Rightarrow> bool) \<Rightarrow> ('s \<Rightarrow> u64) \<Rightarrow> 's list \<Rightarrow> u64 \<Rightarrow> 's option" where
  "table_abs live key t k = find (\<lambda>e. live e \<and> key e = k) t"

definition room :: "('s \<Rightarrow> bool) \<Rightarrow> 's list \<Rightarrow> nat" where
  "room nul t = length (filter nul t)"

lemma home_update [simp]: "home key (t[j := e]) = home key t"
  by (simp add: home_def fun_eq_iff)

lemma home_less: "t \<noteq> [] \<Longrightarrow> home key t e < length t"
  by (simp add: home_def)

lemma room_pos_iff: "0 < room nul t \<longleftrightarrow> (\<exists>j < length t. nul (t ! j))"
  unfolding room_def by (rule filter_pos_iff)

lemma table_abs_None_iff:
  "table_abs live key t k = None \<longleftrightarrow> (\<forall>j < length t. live (t ! j) \<longrightarrow> key (t ! j) \<noteq> k)"
  by (auto simp: table_abs_def find_None_iff in_set_conv_nth)

lemma table_abs_SomeD:
  "table_abs live key t k = Some e \<Longrightarrow> \<exists>j < length t. t ! j = e \<and> live e \<and> key e = k"
  by (auto simp: table_abs_def find_Some_iff)

lemma table_abs_SomeI:
  assumes "unique_keys live key t" "j < length t" "live (t ! j)" "key (t ! j) = k"
  shows "table_abs live key t k = Some (t ! j)"
proof -
  have "table_abs live key t k \<noteq> None" using assms by (auto simp: table_abs_None_iff)
  then obtain e where e: "table_abs live key t k = Some e" by auto
  from table_abs_SomeD [OF this] obtain i where "i < length t" "t ! i = e" "live e" "key e = k"
    by auto
  with assms have "i = j" by (auto simp: unique_keys_def)
  with \<open>t ! i = e\<close> e show ?thesis by simp
qed

text \<open>
  The laws of such a table, for an arbitrary slot type: \<open>nul\<close> recognises the slots a probe for a
  missing key may stop at, \<open>live\<close> the slots that hold an entry. A slot that is neither is a
  deleted one.
\<close>

locale probe_table =
  fixes nul live :: "'s \<Rightarrow> bool" and key :: "'s \<Rightarrow> u64"
  assumes live_not_nul: "live e \<Longrightarrow> \<not> nul e"
begin

lemma find_present:
  assumes "table_inv nul live key t" "table_abs live key t k = Some e"
  shows "\<exists>j. first_stop (\<lambda>e. nul e \<or> live e \<and> key e = k) t (unat k mod length t) j \<and>
             t ! j = e \<and> live e \<and> key e = k"
proof -
  from table_abs_SomeD [OF assms(2)]
  obtain j where j: "j < length t" "t ! j = e" "live e" "key e = k" by auto
  have "first_stop (\<lambda>e. nul e \<or> live e \<and> key e = k) t (home key t (t ! j)) j"
    by (rule chains_first_stop [of nul live])
       (use assms(1) j in \<open>auto simp: table_inv_def unique_keys_def\<close>)
  with j show ?thesis by (auto simp: home_def)
qed

lemma find_absent:
  assumes "table_abs live key t k = None"
    and "first_stop (\<lambda>e. nul e \<or> live e \<and> key e = k) t i j"
  shows "nul (t ! j)"
  using assms by (auto simp: first_stop_def table_abs_None_iff)

lemma unique_update:
  assumes "unique_keys live key t" "j < length t"
    and "live e \<Longrightarrow> \<forall>i < length t. i \<noteq> j \<longrightarrow> live (t ! i) \<longrightarrow> key (t ! i) \<noteq> key e"
  shows "unique_keys live key (t[j := e])"
  unfolding unique_keys_def
proof (intro allI impI)
  fix a b
  assume ab: "a < length (t[j := e])" "b < length (t[j := e])" "live (t[j := e] ! a)"
    "live (t[j := e] ! b)" "key (t[j := e] ! a) = key (t[j := e] ! b)"
  show "a = b"
  proof (cases "a = j \<or> b = j")
    case True
    with ab assms(2,3) show ?thesis by (cases "a = j"; cases "b = j") (auto dest: sym)
  next
    case False
    with ab assms(1) show ?thesis by (auto simp: unique_keys_def)
  qed
qed

lemma abs_update_live:
  assumes "unique_keys live key t" "j < length t" "live e"
    and "\<forall>i < length t. i \<noteq> j \<longrightarrow> live (t ! i) \<longrightarrow> key (t ! i) \<noteq> key e"
    and "live (t ! j) \<Longrightarrow> key (t ! j) = key e"
  shows "table_abs live key (t[j := e]) = (table_abs live key t)(key e \<mapsto> e)"
proof
  fix k
  have u: "unique_keys live key (t[j := e])" using assms by (intro unique_update) auto
  show "table_abs live key (t[j := e]) k = ((table_abs live key t)(key e \<mapsto> e)) k"
  proof (cases "k = key e")
    case True
    then show ?thesis using table_abs_SomeI [OF u, of j k] assms(2,3) by simp
  next
    case False
    show ?thesis
    proof (cases "table_abs live key t k")
      case None
      then have "table_abs live key (t[j := e]) k = None"
        using False assms(2) by (auto simp: table_abs_None_iff nth_list_update)
      with None False show ?thesis by simp
    next
      case (Some x)
      from table_abs_SomeD [OF Some] obtain i
        where i: "i < length t" "t ! i = x" "live x" "key x = k" by auto
      with False assms(5) have "i \<noteq> j" by auto
      then have "table_abs live key (t[j := e]) k = Some x"
        using table_abs_SomeI [OF u, of i k] i by simp
      with Some False show ?thesis by simp
    qed
  qed
qed

lemma insert_absent:
  assumes inv: "table_inv nul live key t" and abs: "table_abs live key t (key e) = None"
    and fs: "first_stop (\<lambda>x. \<not> live x \<or> key x = key e) t (unat (key e) mod length t) j"
    and e: "live e"
  shows "table_inv nul live key (t[j := e])"
    and "table_abs live key (t[j := e]) = (table_abs live key t)(key e \<mapsto> e)"
    and "room nul t \<le> Suc (room nul (t[j := e]))"
    and "\<not> live (t ! j)"
proof -
  from fs have j: "j < length t" and stopj: "\<not> live (t ! j) \<or> key (t ! j) = key e"
    by (auto simp: first_stop_def)
  from abs have no: "\<forall>i < length t. live (t ! i) \<longrightarrow> key (t ! i) \<noteq> key e"
    by (simp add: table_abs_None_iff)
  with j stopj show nl: "\<not> live (t ! j)" by auto
  from inv have ch: "chains nul live (home key t) t" and u: "unique_keys live key t" and ne: "t \<noteq> []"
    by (auto simp: table_inv_def)
  have "chains nul live (home key t) (t[j := e])"
  proof (rule chains_update_nonempty [OF ch j])
    show "\<not> nul e" using e by (rule live_not_nul)
    show "\<forall>m < length t. cdist (length t) (home key t e) m < cdist (length t) (home key t e) j \<longrightarrow>
            \<not> nul (t ! m)"
      using fs by (auto simp: first_stop_def home_def dest: live_not_nul)
  qed
  moreover have "unique_keys live key (t[j := e])"
    using u j no by (intro unique_update) auto
  ultimately show "table_inv nul live key (t[j := e])"
    using ne by (simp add: table_inv_def)
  show "table_abs live key (t[j := e]) = (table_abs live key t)(key e \<mapsto> e)"
    using u j e no nl by (intro abs_update_live) auto
  show "room nul t \<le> Suc (room nul (t[j := e]))"
    using length_filter_list_update [OF j, of nul e] by (simp add: room_def split: if_splits)
qed

lemma overwrite_present:
  assumes inv: "table_inv nul live key t" and j: "j < length t" "live (t ! j)"
    and e: "live e" "key e = key (t ! j)"
  shows "table_inv nul live key (t[j := e])"
    and "table_abs live key (t[j := e]) = (table_abs live key t)(key e \<mapsto> e)"
    and "room nul (t[j := e]) = room nul t"
proof -
  from inv have ch: "chains nul live (home key t) t" and u: "unique_keys live key t" and ne: "t \<noteq> []"
    by (auto simp: table_inv_def)
  have no: "\<forall>i < length t. i \<noteq> j \<longrightarrow> live (t ! i) \<longrightarrow> key (t ! i) \<noteq> key e"
    using u j e(2) unfolding unique_keys_def by metis
  have "chains nul live (home key t) (t[j := e])"
  proof (rule chains_update_nonempty [OF ch j(1)])
    show "\<not> nul e" using e(1) by (rule live_not_nul)
    have "home key t e = home key t (t ! j)" using e(2) by (simp add: home_def)
    then show "\<forall>m < length t. cdist (length t) (home key t e) m < cdist (length t) (home key t e) j \<longrightarrow>
            \<not> nul (t ! m)"
      using chainsD [OF ch j] by simp
  qed
  then show "table_inv nul live key (t[j := e])"
    using ne u j no by (simp add: table_inv_def unique_update)
  show "table_abs live key (t[j := e]) = (table_abs live key t)(key e \<mapsto> e)"
    using u j e no by (intro abs_update_live) auto
  show "room nul (t[j := e]) = room nul t"
    using length_filter_list_update [OF j(1), of nul e] live_not_nul [OF e(1)] live_not_nul [OF j(2)]
    by (simp add: room_def)
qed

lemma delete_present:
  assumes inv: "table_inv nul live key t" and j: "j < length t" "live (t ! j)"
    and e: "\<not> live e" "\<not> nul e"
  shows "table_inv nul live key (t[j := e])"
    and "table_abs live key (t[j := e]) = (table_abs live key t)(key (t ! j) := None)"
    and "room nul (t[j := e]) = room nul t"
proof -
  from inv have ch: "chains nul live (home key t) t" and u: "unique_keys live key t" and ne: "t \<noteq> []"
    by (auto simp: table_inv_def)
  have u': "unique_keys live key (t[j := e])" using u j e by (intro unique_update) auto
  show "table_inv nul live key (t[j := e])"
    using ne u' chains_update_nonempty [OF ch j(1) e(2)] e(1) by (simp add: table_inv_def)
  show "table_abs live key (t[j := e]) = (table_abs live key t)(key (t ! j) := None)"
  proof
    fix k
    show "table_abs live key (t[j := e]) k = ((table_abs live key t)(key (t ! j) := None)) k"
    proof (cases "k = key (t ! j)")
      case True
      have "\<forall>i < length t. i \<noteq> j \<longrightarrow> live (t ! i) \<longrightarrow> key (t ! i) \<noteq> k"
        using u j True unfolding unique_keys_def by metis
      then have "table_abs live key (t[j := e]) k = None"
        using e(1) j(1) by (auto simp: table_abs_None_iff nth_list_update)
      with True show ?thesis by simp
    next
      case False
      show ?thesis
      proof (cases "table_abs live key t k")
        case None
        then have "table_abs live key (t[j := e]) k = None"
          using e(1) j(1) by (auto simp: table_abs_None_iff nth_list_update)
        with None False show ?thesis by simp
      next
        case (Some x)
        from table_abs_SomeD [OF Some] obtain i
          where i: "i < length t" "t ! i = x" "live x" "key x = k" by auto
        with False have "i \<noteq> j" by auto
        then have "table_abs live key (t[j := e]) k = Some x"
          using table_abs_SomeI [OF u', of i k] i by simp
        with Some False show ?thesis by simp
      qed
    qed
  qed
  show "room nul (t[j := e]) = room nul t"
    using length_filter_list_update [OF j(1), of nul e] e(2) live_not_nul [OF j(2)]
    by (simp add: room_def)
qed

end

section \<open>The contract of a keyed store\<close>

text \<open>
  What the clients of a table rely on: \<open>find\<close> returns the stored value, or reports a missing key
  when an empty slot is left; \<open>insert\<close> of a new key returns while there is room and uses up at
  most one empty slot. \<open>None\<close> at the outer level is a probe that never returns.
\<close>

locale keyed_store =
  fixes find_key :: "'m \<Rightarrow> u64 \<Rightarrow> 'v option option"
    and insert_key :: "'m \<Rightarrow> u64 \<Rightarrow> 'v \<Rightarrow> 'm option"
    and abs :: "'m \<Rightarrow> u64 \<Rightarrow> 'v option"
    and inv :: "'m \<Rightarrow> bool"
    and space :: "'m \<Rightarrow> nat"
    and ok :: "u64 \<Rightarrow> 'v \<Rightarrow> bool"
  assumes find_law: "inv m \<Longrightarrow> abs m k \<noteq> None \<or> 0 < space m \<Longrightarrow> find_key m k = Some (abs m k)"
    and find_stuck: "inv m \<Longrightarrow> abs m k = None \<Longrightarrow> space m = 0 \<Longrightarrow> find_key m k = None"
    and insert_law: "inv m \<Longrightarrow> abs m k = None \<Longrightarrow> 0 < space m \<Longrightarrow> ok k v \<Longrightarrow>
      \<exists>m'. insert_key m k v = Some m' \<and> inv m' \<and> abs m' = (abs m)(k \<mapsto> v) \<and> space m \<le> Suc (space m')"
begin

lemma find_returns_iff:
  assumes "inv m"
  shows "find_key m k \<noteq> None \<longleftrightarrow> abs m k \<noteq> None \<or> 0 < space m"
  using find_law [OF assms] find_stuck [OF assms] by (cases "abs m k"; cases "space m") auto

lemma find_after_insert:
  assumes "inv m" "abs m k = None" "0 < space m" "ok k v" "insert_key m k v = Some m'"
  shows "find_key m' k = Some (Some v)"
    and "l \<noteq> k \<Longrightarrow> abs m l \<noteq> None \<or> 1 < space m \<Longrightarrow> find_key m' l = find_key m l"
proof -
  from insert_law [OF assms(1-4)] assms(5)
  have m': "inv m'" "abs m' = (abs m)(k \<mapsto> v)" "space m \<le> Suc (space m')" by auto
  show "find_key m' k = Some (Some v)" using find_law [OF m'(1), of k] m'(2) by simp
  assume l: "l \<noteq> k" "abs m l \<noteq> None \<or> 1 < space m"
  then have "abs m l \<noteq> None \<or> 0 < space m" "abs m' l \<noteq> None \<or> 0 < space m'" using m' by auto
  then show "find_key m' l = find_key m l"
    using find_law [OF m'(1), of l] find_law [OF assms(1), of l] m'(2) l(1) by simp
qed

end

text \<open>A store whose entries can also be deleted; deletion never gives an empty slot back.\<close>

locale erasable_store = keyed_store +
  fixes erase_key :: "'m \<Rightarrow> u64 \<Rightarrow> 'm option"
  assumes erase_law: "inv m \<Longrightarrow> abs m k \<noteq> None \<Longrightarrow>
      \<exists>m'. erase_key m k = Some m' \<and> inv m' \<and> abs m' = (abs m)(k := None) \<and> space m' = space m"
begin

lemma insert_then_erase:
  assumes "inv m" "abs m k = None" "0 < space m" "ok k v"
  shows "\<exists>m1 m2. insert_key m k v = Some m1 \<and> erase_key m1 k = Some m2 \<and> inv m2 \<and>
           abs m2 = abs m \<and> space m \<le> Suc (space m2)"
proof -
  from insert_law [OF assms] obtain m1 where m1: "insert_key m k v = Some m1" "inv m1"
    "abs m1 = (abs m)(k \<mapsto> v)" "space m \<le> Suc (space m1)" by auto
  then have "abs m1 k \<noteq> None" by simp
  from erase_law [OF m1(2) this] obtain m2 where m2: "erase_key m1 k = Some m2" "inv m2"
    "abs m2 = (abs m1)(k := None)" "space m2 = space m1" by auto
  have "abs m2 = abs m" using m1(3) m2(3) assms(2) by (auto simp: fun_eq_iff)
  with m1 m2 show ?thesis by auto
qed

end

end
