(* ===== verification/Order_Map.thy ===== *)
theory Order_Map
  imports Probe_Table
begin

text \<open>
  The flat hash map of \<open>LimitOrderBook\<close> (\<open>include/OrderBook.hpp\<close>, \<open>src/OrderBook.cpp\<close>): open
  addressing with linear probing and tombstones, from order ids to orders of the pool. The array
  \<open>order_map_\<close> of \<open>map_capacity_\<close> entries is a list of that length; an order pointer is the
  index of the order in the pool. Each \<open>while (true)\<close> loop is a partial function whose value
  \<open>None\<close> is "never returns".
\<close>

section \<open>Data and operations\<close>

datatype slot_ptr = NULLPTR | TOMBSTONE | Addr nat

record HashEntry =
  hm_key :: u64
  hm_value :: slot_ptr

partial_function (option) map_insert_loop ::
    "HashEntry list \<Rightarrow> u64 \<Rightarrow> nat \<Rightarrow> nat \<Rightarrow> HashEntry list option" where
  "map_insert_loop t oid order index =
     (if hm_value (t ! index) = NULLPTR \<or> hm_value (t ! index) = TOMBSTONE
      then Some (t[index := \<lparr>hm_key = oid, hm_value = Addr order\<rparr>])
      else if hm_key (t ! index) = oid
      then Some (t[index := (t ! index)\<lparr>hm_value := Addr order\<rparr>])
      else map_insert_loop t oid order ((index + 1) mod length t))"

text \<open>The first statement of each operation, \<open>id % map_capacity_\<close>, is undefined for capacity 0.\<close>

definition map_insert :: "HashEntry list \<Rightarrow> u64 \<Rightarrow> nat \<Rightarrow> HashEntry list option" where
  "map_insert t oid order =
     (if length t = 0 then None else map_insert_loop t oid order (unat oid mod length t))"

partial_function (option) map_find_loop :: "HashEntry list \<Rightarrow> u64 \<Rightarrow> nat \<Rightarrow> ptr option" where
  "map_find_loop t oid index =
     (case hm_value (t ! index) of
        NULLPTR \<Rightarrow> Some None
      | TOMBSTONE \<Rightarrow> map_find_loop t oid ((index + 1) mod length t)
      | Addr order \<Rightarrow>
          if hm_key (t ! index) = oid then Some (Some order)
          else map_find_loop t oid ((index + 1) mod length t))"

definition map_find :: "HashEntry list \<Rightarrow> u64 \<Rightarrow> ptr option" where
  "map_find t oid = (if length t = 0 then None else map_find_loop t oid (unat oid mod length t))"

partial_function (option) map_erase_loop ::
    "HashEntry list \<Rightarrow> u64 \<Rightarrow> nat \<Rightarrow> HashEntry list option" where
  "map_erase_loop t oid index =
     (case hm_value (t ! index) of
        NULLPTR \<Rightarrow> Some t
      | TOMBSTONE \<Rightarrow> map_erase_loop t oid ((index + 1) mod length t)
      | Addr order \<Rightarrow>
          if hm_key (t ! index) = oid
          then Some (t[index := (t ! index)\<lparr>hm_value := TOMBSTONE\<rparr>])
          else map_erase_loop t oid ((index + 1) mod length t))"

definition map_erase :: "HashEntry list \<Rightarrow> u64 \<Rightarrow> HashEntry list option" where
  "map_erase t oid = (if length t = 0 then None else map_erase_loop t oid (unat oid mod length t))"

section \<open>Invariant and abstraction\<close>

definition hm_nul :: "HashEntry \<Rightarrow> bool" where
  "hm_nul e \<longleftrightarrow> hm_value e = NULLPTR"

definition hm_live :: "HashEntry \<Rightarrow> bool" where
  "hm_live e \<longleftrightarrow> hm_value e \<noteq> NULLPTR \<and> hm_value e \<noteq> TOMBSTONE"

definition slot_addr :: "slot_ptr \<Rightarrow> ptr" where
  "slot_addr v = (case v of Addr i \<Rightarrow> Some i | _ \<Rightarrow> None)"

definition om_inv :: "HashEntry list \<Rightarrow> bool" where
  "om_inv t \<longleftrightarrow> table_inv hm_nul hm_live hm_key t"

definition om_abs :: "HashEntry list \<Rightarrow> u64 \<Rightarrow> ptr" where
  "om_abs t oid = Option.bind (table_abs hm_live hm_key t oid) (\<lambda>e. slot_addr (hm_value e))"

definition om_room :: "HashEntry list \<Rightarrow> nat" where
  "om_room t = room hm_nul t"

lemma hm_live_Addr: "hm_live e \<longleftrightarrow> (\<exists>i. hm_value e = Addr i)"
  by (cases "hm_value e") (auto simp: hm_live_def)

lemma slot_addr_simps [simp]:
  "slot_addr (Addr i) = Some i" "slot_addr NULLPTR = None" "slot_addr TOMBSTONE = None"
  by (simp_all add: slot_addr_def)

interpretation om: probe_table hm_nul hm_live hm_key
  by unfold_locales (auto simp: hm_nul_def hm_live_def)

lemma om_abs_None_iff: "om_abs t oid = None \<longleftrightarrow> table_abs hm_live hm_key t oid = None"
proof (cases "table_abs hm_live hm_key t oid")
  case (Some e)
  with table_abs_SomeD [OF Some] show ?thesis by (auto simp: om_abs_def hm_live_Addr)
qed (simp add: om_abs_def)

section \<open>The three loops satisfy the contract of a probing loop\<close>

definition find_stop :: "u64 \<Rightarrow> HashEntry \<Rightarrow> bool" where
  "find_stop oid e \<longleftrightarrow> hm_nul e \<or> hm_live e \<and> hm_key e = oid"

definition insert_stop :: "u64 \<Rightarrow> HashEntry \<Rightarrow> bool" where
  "insert_stop oid e \<longleftrightarrow> \<not> hm_live e \<or> hm_key e = oid"

lemmas stop_defs = find_stop_def insert_stop_def hm_nul_def hm_live_def

definition find_result :: "HashEntry list \<Rightarrow> nat \<Rightarrow> ptr" where
  "find_result t j = slot_addr (hm_value (t ! j))"

definition erase_result :: "HashEntry list \<Rightarrow> nat \<Rightarrow> HashEntry list" where
  "erase_result t j =
     (if hm_nul (t ! j) then t else t[j := (t ! j)\<lparr>hm_value := TOMBSTONE\<rparr>])"

definition insert_result :: "u64 \<Rightarrow> nat \<Rightarrow> HashEntry list \<Rightarrow> nat \<Rightarrow> HashEntry list" where
  "insert_result oid order t j =
     (if hm_live (t ! j) then t[j := (t ! j)\<lparr>hm_value := Addr order\<rparr>]
      else t[j := \<lparr>hm_key = oid, hm_value = Addr order\<rparr>])"

lemma map_find_loop_stops:
  assumes "map_find_loop t oid i = Some r"
  shows "i < length t \<longrightarrow> (\<exists>j < length t. find_stop oid (t ! j))"
proof (rule map_find_loop.raw_induct
    [where P = "\<lambda>t oid i r. i < length t \<longrightarrow> (\<exists>j < length t. find_stop oid (t ! j))", OF _ assms],
    goal_cases)
  case (1 f t oid i r)
  show ?case
  proof (cases "find_stop oid (t ! i)")
    case False
    with 1(2) have "f t oid ((i + 1) mod length t) = Some r"
      by (cases "hm_value (t ! i)") (auto simp: stop_defs split: if_splits)
    from 1(1) [OF this] show ?thesis using Suc_mod_less [of i "length t"] by simp
  qed auto
qed

lemma map_erase_loop_stops:
  assumes "map_erase_loop t oid i = Some r"
  shows "i < length t \<longrightarrow> (\<exists>j < length t. find_stop oid (t ! j))"
proof (rule map_erase_loop.raw_induct
    [where P = "\<lambda>t oid i r. i < length t \<longrightarrow> (\<exists>j < length t. find_stop oid (t ! j))", OF _ assms],
    goal_cases)
  case (1 f t oid i r)
  show ?case
  proof (cases "find_stop oid (t ! i)")
    case False
    with 1(2) have "f t oid ((i + 1) mod length t) = Some r"
      by (cases "hm_value (t ! i)") (auto simp: stop_defs split: if_splits)
    from 1(1) [OF this] show ?thesis using Suc_mod_less [of i "length t"] by simp
  qed auto
qed

lemma map_insert_loop_stops:
  assumes "map_insert_loop t oid order i = Some r"
  shows "i < length t \<longrightarrow> (\<exists>j < length t. insert_stop oid (t ! j))"
proof (rule map_insert_loop.raw_induct
    [where P = "\<lambda>t oid order i r. i < length t \<longrightarrow> (\<exists>j < length t. insert_stop oid (t ! j))",
      OF _ assms], goal_cases)
  case (1 f t oid order i r)
  show ?case
  proof (cases "insert_stop oid (t ! i)")
    case False
    with 1(2) have "f t oid order ((i + 1) mod length t) = Some r"
      by (auto simp: stop_defs split: if_splits)
    from 1(1) [OF this] show ?thesis using Suc_mod_less [of i "length t"] by simp
  qed auto
qed

interpretation find_loop: probe_loop "find_stop oid" find_result "\<lambda>t. map_find_loop t oid" for oid
proof (unfold_locales, goal_cases)
  case (1 i t)
  then show ?case
    by (subst map_find_loop.simps) (cases "hm_value (t ! i)", auto simp: stop_defs find_result_def)
next
  case (2 i t)
  then show ?case using map_find_loop_stops [of t oid i] by (cases "map_find_loop t oid i") auto
qed

interpretation erase_loop: probe_loop "find_stop oid" erase_result "\<lambda>t. map_erase_loop t oid" for oid
proof (unfold_locales, goal_cases)
  case (1 i t)
  then show ?case
    by (subst map_erase_loop.simps) (cases "hm_value (t ! i)", auto simp: stop_defs erase_result_def)
next
  case (2 i t)
  then show ?case using map_erase_loop_stops [of t oid i] by (cases "map_erase_loop t oid i") auto
qed

interpretation insert_loop: probe_loop "insert_stop oid" "insert_result oid order"
    "\<lambda>t. map_insert_loop t oid order" for oid order
proof (unfold_locales, goal_cases)
  case (1 i t)
  then show ?case
    by (subst map_insert_loop.simps) (auto simp: stop_defs insert_result_def)
next
  case (2 i t)
  then show ?case
    using map_insert_loop_stops [of t oid order i] by (cases "map_insert_loop t oid order i") auto
qed

section \<open>The map operations as a keyed store\<close>

lemma om_inv_nonempty: "om_inv t \<Longrightarrow> t \<noteq> []"
  by (simp add: om_inv_def table_inv_def)

lemma om_home: "om_inv t \<Longrightarrow> unat (oid :: u64) mod length t < length t"
  by (simp add: om_inv_nonempty)

lemma map_find_eq:
  assumes "om_inv t" "om_abs t oid \<noteq> None \<or> 0 < om_room t"
  shows "map_find t oid = Some (om_abs t oid)"
proof -
  note h = om_home [OF assms(1), of oid]
  show ?thesis
  proof (cases "table_abs hm_live hm_key t oid")
    case (Some e)
    from om.find_present [OF assms(1) [unfolded om_inv_def] Some]
    obtain j where "first_stop (find_stop oid) t (unat oid mod length t) j" "t ! j = e"
      by (auto simp: find_stop_def [abs_def])
    with find_loop.loop_first [OF this(1) h] Some om_inv_nonempty [OF assms(1)] show ?thesis
      by (simp add: map_find_def find_result_def om_abs_def)
  next
    case None
    with assms(2) have "0 < room hm_nul t" by (auto simp: om_abs_None_iff om_room_def)
    then obtain i where "i < length t" "find_stop oid (t ! i)"
      by (auto simp: room_pos_iff find_stop_def)
    from first_stop_exists [where stop = "find_stop oid", OF h this]
    obtain j where j: "first_stop (find_stop oid) t (unat oid mod length t) j" by auto
    with om.find_absent [OF None] have "hm_nul (t ! j)" by (auto simp: find_stop_def [abs_def])
    with find_loop.loop_first [OF j h] None om_inv_nonempty [OF assms(1)] show ?thesis
      by (simp add: map_find_def find_result_def om_abs_def hm_nul_def)
  qed
qed

lemma map_find_stuck:
  assumes "om_inv t" "om_abs t oid = None" "om_room t = 0"
  shows "map_find t oid = None"
proof -
  have "\<forall>j < length t. \<not> find_stop oid (t ! j)"
    using assms(2,3) room_pos_iff [of hm_nul t]
    by (auto simp: om_abs_None_iff table_abs_None_iff find_stop_def om_room_def)
  with find_loop.stuck [OF om_home [OF assms(1)]] show ?thesis
    by (simp add: map_find_def)
qed

lemma map_insert_law:
  assumes "om_inv t" "om_abs t oid = None" "0 < om_room t"
  shows "\<exists>t'. map_insert t oid order = Some t' \<and> om_inv t' \<and> om_abs t' = (om_abs t)(oid \<mapsto> order) \<and>
            om_room t \<le> Suc (om_room t') \<and> length t' = length t"
proof -
  note h = om_home [OF assms(1), of oid]
  from assms(3) obtain i where "i < length t" "insert_stop oid (t ! i)"
    by (auto simp: room_pos_iff om_room_def stop_defs)
  from first_stop_exists [where stop = "insert_stop oid", OF h this]
  obtain j where j: "first_stop (insert_stop oid) t (unat oid mod length t) j" by auto
  let ?e = "\<lparr>hm_key = oid, hm_value = Addr order\<rparr>"
  have e: "hm_live ?e" by (simp add: hm_live_def)
  have fs: "first_stop (\<lambda>x. \<not> hm_live x \<or> hm_key x = hm_key ?e) t (unat (hm_key ?e) mod length t) j"
    using j by (simp add: insert_stop_def [abs_def])
  note ins = om.insert_absent [OF assms(1) [unfolded om_inv_def] _ fs e]
  have abs: "table_abs hm_live hm_key t (hm_key ?e) = None"
    using assms(2) by (simp add: om_abs_None_iff)
  have "map_insert t oid order = Some (t[j := ?e])"
    using insert_loop.loop_first [OF j h] ins(4) [OF abs] om_inv_nonempty [OF assms(1)]
    by (simp add: map_insert_def insert_result_def)
  moreover have "om_abs (t[j := ?e]) = (om_abs t)(oid \<mapsto> order)"
    using ins(2) [OF abs] by (auto simp: om_abs_def fun_eq_iff)
  ultimately show ?thesis
    using ins(1,3) [OF abs] by (simp add: om_inv_def om_room_def)
qed

lemma map_erase_law:
  assumes "om_inv t" "om_abs t oid \<noteq> None"
  shows "\<exists>t'. map_erase t oid = Some t' \<and> om_inv t' \<and> om_abs t' = (om_abs t)(oid := None) \<and>
            om_room t' = om_room t \<and> length t' = length t"
proof -
  note h = om_home [OF assms(1), of oid]
  from assms(2) obtain e where Some: "table_abs hm_live hm_key t oid = Some e"
    by (auto simp: om_abs_None_iff)
  from om.find_present [OF assms(1) [unfolded om_inv_def] Some]
  obtain j where j: "first_stop (find_stop oid) t (unat oid mod length t) j"
    "t ! j = e" "hm_live e" "hm_key e = oid"
    by (auto simp: find_stop_def [abs_def])
  let ?e = "e\<lparr>hm_value := TOMBSTONE\<rparr>"
  have jl: "j < length t" "hm_live (t ! j)" using j by (auto simp: first_stop_def)
  have e: "\<not> hm_live ?e" "\<not> hm_nul ?e" by (auto simp: hm_live_def hm_nul_def)
  note del = om.delete_present [OF assms(1) [unfolded om_inv_def] jl e]
  have "map_erase t oid = Some (t[j := ?e])"
    using erase_loop.loop_first [OF j(1) h] j om_inv_nonempty [OF assms(1)]
    by (auto simp: map_erase_def erase_result_def hm_live_def hm_nul_def)
  moreover have "om_abs (t[j := ?e]) = (om_abs t)(oid := None)"
    using del(2) j by (auto simp: om_abs_def fun_eq_iff)
  ultimately show ?thesis
    using del(1,3) by (simp add: om_inv_def om_room_def)
qed

interpretation om: erasable_store map_find map_insert om_abs om_inv om_room "\<lambda>_ _. True" map_erase
proof (unfold_locales, goal_cases)
  case (1 m k)
  then show ?case by (rule map_find_eq)
next
  case (2 m k)
  then show ?case by (rule map_find_stuck)
next
  case (3 m k v)
  then show ?case using map_insert_law [of m k v] by auto
next
  case (4 m k)
  then show ?case using map_erase_law [of m k] by auto
qed

section \<open>The empty map\<close>

definition empty_map :: "nat \<Rightarrow> HashEntry list" where
  "empty_map n = replicate n \<lparr>hm_key = 0, hm_value = NULLPTR\<rparr>"

lemma empty_map_inv: "0 < n \<Longrightarrow> om_inv (empty_map n)"
  by (auto simp: om_inv_def table_inv_def chains_def unique_keys_def empty_map_def hm_live_def)

lemma empty_map_abs: "om_abs (empty_map n) = Map.empty"
  by (auto simp: fun_eq_iff om_abs_None_iff table_abs_None_iff empty_map_def hm_live_def)

lemma empty_map_room: "om_room (empty_map n) = n"
  by (simp add: om_room_def room_def empty_map_def hm_nul_def)

end
