(* ===== verification/Order_Book.thy ===== *)
theory Order_Book
  imports Order_Map
begin

text \<open>
  The limit order book of \<open>include/OrderBook.hpp\<close> and \<open>src/OrderBook.cpp\<close>: the pool of orders
  with its intrusive free list, the two price-indexed arrays of levels with their intrusive
  doubly-linked queues, and the operations \<open>add\<close>, \<open>cancel\<close>, \<open>modify\<close>. The pool is the heap of
  the model: an order pointer is an index into it, so the aliasing between a queue, the free list
  and the hash map is the aliasing of the code. \<open>None\<close> is an execution without a defined result.
  This theory holds the definitions; the theory after it proves them correct.
\<close>

section \<open>Data\<close>

datatype Side = BUY | SELL

record Order =
  ord_id :: u64
  ord_price :: u64
  ord_quantity :: u64
  ord_side :: Side
  ord_prev :: ptr
  ord_next :: ptr

record PriceLevel =
  lv_head :: ptr
  lv_tail :: ptr
  total_volume :: u64

record LimitOrderBook =
  max_orders :: nat
  max_price :: nat
  bids :: "PriceLevel list"
  asks :: "PriceLevel list"
  order_pool :: "Order list"
  free_list_head :: ptr
  order_map :: "HashEntry list"

text \<open>The array a pointer \<open>level = &bids_[...]\<close> or \<open>&asks_[...]\<close> points into.\<close>

definition levels :: "LimitOrderBook \<Rightarrow> Side \<Rightarrow> PriceLevel list" where
  "levels l s = (case s of BUY \<Rightarrow> bids l | SELL \<Rightarrow> asks l)"

definition set_levels :: "LimitOrderBook \<Rightarrow> Side \<Rightarrow> PriceLevel list \<Rightarrow> LimitOrderBook" where
  "set_levels l s xs = (case s of BUY \<Rightarrow> l\<lparr>bids := xs\<rparr> | SELL \<Rightarrow> l\<lparr>asks := xs\<rparr>)"

definition write_level :: "LimitOrderBook \<Rightarrow> Side \<Rightarrow> nat \<Rightarrow> PriceLevel \<Rightarrow> LimitOrderBook option" where
  "write_level l s p lv = do { xs \<leftarrow> awrite (levels l s) p lv; Some (set_levels l s xs) }"

section \<open>Construction\<close>

datatype lob_error = MmapFailed | LayoutOverflow

text \<open>
  \<open>init_memory_pool\<close> computes the sizes in 64-bit arithmetic (\<open>sizeof (PriceLevel) = 24\<close>,
  \<open>sizeof (Order) = 64\<close>, \<open>sizeof (HashEntry) = 16\<close>) and carves the four arrays out of one zeroed
  mapping, in this order. The kernel's answer is the parameter \<open>mmap_ok\<close>. When a size wraps
  around, the arrays would lie outside the mapping; the model reports it.
\<close>

record lob_layout =
  ll_bids :: u64
  ll_asks :: u64
  ll_pool :: u64
  ll_map :: u64
  ll_total :: u64

definition pool_layout :: "u64 \<Rightarrow> u64 \<Rightarrow> lob_layout" where
  "pool_layout mo mp =
     (let map_capacity = mo * 2;
          bids_size = 24 * mp; asks_size = 24 * mp;
          pool_size = 64 * mo; map_size = 16 * map_capacity
      in \<lparr>ll_bids = 0, ll_asks = bids_size, ll_pool = bids_size + asks_size,
          ll_map = bids_size + asks_size + pool_size,
          ll_total = bids_size + asks_size + pool_size + map_size\<rparr>)"

definition layout_fits :: "u64 \<Rightarrow> u64 \<Rightarrow> bool" where
  "layout_fits mo mp \<longleftrightarrow> 48 * unat mp + 96 * unat mo < 2 ^ 64"

definition zero_level :: PriceLevel where
  "zero_level = \<lparr>lv_head = None, lv_tail = None, total_volume = 0\<rparr>"

definition zero_order :: Order where
  "zero_order = \<lparr>ord_id = 0, ord_price = 0, ord_quantity = 0, ord_side = BUY,
                 ord_prev = None, ord_next = None\<rparr>"

text \<open>The loop that threads the free list through the pool: \<open>for (i = 0; i < max_orders_; ++i)\<close>.\<close>

function init_free_list :: "nat \<Rightarrow> Order list \<Rightarrow> ptr \<Rightarrow> nat \<Rightarrow> Order list \<times> ptr" where
  "init_free_list n pool free i =
     (if i < n then init_free_list n (pool[i := (pool ! i)\<lparr>ord_next := free\<rparr>]) (Some i) (i + 1)
      else (pool, free))"
  by pat_completeness auto
termination
  by (relation "measure (\<lambda>(n, pool, free, i). n - i)") auto

declare init_free_list.simps [simp del]

definition init_memory_pool ::
    "(u64 \<Rightarrow> bool) \<Rightarrow> u64 \<Rightarrow> u64 \<Rightarrow> lob_error + LimitOrderBook" where
  "init_memory_pool mmap_ok mo mp =
     (if \<not> mmap_ok (ll_total (pool_layout mo mp)) then Inl MmapFailed
      else if \<not> layout_fits mo mp then Inl LayoutOverflow
      else let n = unat mo; m = unat mp;
               (pool, free) = init_free_list n (replicate n zero_order) None 0
           in Inr \<lparr>max_orders = n, max_price = m,
                   bids = replicate m zero_level, asks = replicate m zero_level,
                   order_pool = pool, free_list_head = free,
                   order_map = empty_map (n * 2)\<rparr>)"

section \<open>Pool allocator\<close>

definition allocate_order :: "LimitOrderBook \<Rightarrow> (ptr \<times> LimitOrderBook) option" where
  "allocate_order l =
     (case free_list_head l of
        None \<Rightarrow> Some (None, l)
      | Some i \<Rightarrow> do {
          ord \<leftarrow> aread (order_pool l) i;
          Some (Some i, l\<lparr>free_list_head := ord_next ord\<rparr>) })"

definition deallocate_order :: "LimitOrderBook \<Rightarrow> nat \<Rightarrow> LimitOrderBook option" where
  "deallocate_order l i = do {
     ord \<leftarrow> aread (order_pool l) i;
     pool \<leftarrow> awrite (order_pool l) i (ord\<lparr>ord_next := free_list_head l\<rparr>);
     Some (l\<lparr>order_pool := pool, free_list_head := Some i\<rparr>) }"

section \<open>Intrusive queues\<close>

definition insert_order :: "LimitOrderBook \<Rightarrow> nat \<Rightarrow> LimitOrderBook option" where
  "insert_order l i = do {
     ord \<leftarrow> aread (order_pool l) i;
     level \<leftarrow> aread (levels l (ord_side ord)) (unat (ord_price ord));
     pool \<leftarrow> awrite (order_pool l) i (ord\<lparr>ord_prev := lv_tail level, ord_next := None\<rparr>);
     (pool, level) \<leftarrow> (case lv_tail level of
         Some t \<Rightarrow> do {
           tl_ord \<leftarrow> aread pool t;
           pool \<leftarrow> awrite pool t (tl_ord\<lparr>ord_next := Some i\<rparr>);
           Some (pool, level) }
       | None \<Rightarrow> Some (pool, level\<lparr>lv_head := Some i\<rparr>));
     write_level (l\<lparr>order_pool := pool\<rparr>) (ord_side ord) (unat (ord_price ord))
       (level\<lparr>lv_tail := Some i, total_volume := total_volume level + ord_quantity ord\<rparr>) }"

definition remove_order :: "LimitOrderBook \<Rightarrow> nat \<Rightarrow> LimitOrderBook option" where
  "remove_order l i = do {
     ord \<leftarrow> aread (order_pool l) i;
     level \<leftarrow> aread (levels l (ord_side ord)) (unat (ord_price ord));
     (pool, level) \<leftarrow> (case ord_prev ord of
         Some p \<Rightarrow> do {
           pv \<leftarrow> aread (order_pool l) p;
           pool \<leftarrow> awrite (order_pool l) p (pv\<lparr>ord_next := ord_next ord\<rparr>);
           Some (pool, level) }
       | None \<Rightarrow> Some (order_pool l, level\<lparr>lv_head := ord_next ord\<rparr>));
     ord \<leftarrow> aread pool i;
     (pool, level) \<leftarrow> (case ord_next ord of
         Some n \<Rightarrow> do {
           nx \<leftarrow> aread pool n;
           pool \<leftarrow> awrite pool n (nx\<lparr>ord_prev := ord_prev ord\<rparr>);
           Some (pool, level) }
       | None \<Rightarrow> Some (pool, level\<lparr>lv_tail := ord_prev ord\<rparr>));
     write_level (l\<lparr>order_pool := pool\<rparr>) (ord_side ord) (unat (ord_price ord))
       (level\<lparr>total_volume := total_volume level - ord_quantity ord\<rparr>) }"

section \<open>The public operations\<close>

definition set_order_fields :: "LimitOrderBook \<Rightarrow> nat \<Rightarrow> u64 \<Rightarrow> Side \<Rightarrow> u64 \<Rightarrow> u64 \<Rightarrow> LimitOrderBook option" where
  "set_order_fields l i oid side price quantity = do {
     ord \<leftarrow> aread (order_pool l) i;
     pool \<leftarrow> awrite (order_pool l) i
       (ord\<lparr>ord_id := oid, ord_side := side, ord_price := price, ord_quantity := quantity\<rparr>);
     Some (l\<lparr>order_pool := pool\<rparr>) }"

definition add :: "LimitOrderBook \<Rightarrow> u64 \<Rightarrow> Side \<Rightarrow> u64 \<Rightarrow> u64 \<Rightarrow>
    (bool \<times> LimitOrderBook \<times> log_call list) option" where
  "add l oid side price quantity =
     (if max_price l \<le> unat price then Some (False, l, [])
      else do {
        found \<leftarrow> map_find (order_map l) oid;
        if found \<noteq> None then Some (False, l, [])
        else do {
          (order, l) \<leftarrow> allocate_order l;
          case order of
            None \<Rightarrow> Some (False, l,
              [log_msg ERROR ''OrderBook: Failed to allocate order %lu'' [ArgU (unat oid)]])
          | Some i \<Rightarrow> do {
              l \<leftarrow> set_order_fields l i oid side price quantity;
              l \<leftarrow> insert_order l i;
              m \<leftarrow> map_insert (order_map l) oid i;
              Some (True, l\<lparr>order_map := m\<rparr>,
                [log_msg INFO ''OrderBook: Added order %lu'' [ArgU (unat oid)]]) }}})"

definition cancel :: "LimitOrderBook \<Rightarrow> u64 \<Rightarrow>
    (bool \<times> LimitOrderBook \<times> log_call list) option" where
  "cancel l oid = do {
     found \<leftarrow> map_find (order_map l) oid;
     case found of
       None \<Rightarrow> Some (False, l,
         [log_msg WARN ''OrderBook: Cancel failed, order %lu not found'' [ArgU (unat oid)]])
     | Some i \<Rightarrow> do {
         l \<leftarrow> remove_order l i;
         m \<leftarrow> map_erase (order_map l) oid;
         l \<leftarrow> deallocate_order (l\<lparr>order_map := m\<rparr>) i;
         Some (True, l, [log_msg INFO ''OrderBook: Canceled order %lu'' [ArgU (unat oid)]]) }}"

definition set_order_quantity :: "LimitOrderBook \<Rightarrow> nat \<Rightarrow> u64 \<Rightarrow> LimitOrderBook option" where
  "set_order_quantity l i q = do {
     ord \<leftarrow> aread (order_pool l) i;
     pool \<leftarrow> awrite (order_pool l) i (ord\<lparr>ord_quantity := q\<rparr>);
     Some (l\<lparr>order_pool := pool\<rparr>) }"

definition modify :: "LimitOrderBook \<Rightarrow> u64 \<Rightarrow> u64 \<Rightarrow>
    (bool \<times> LimitOrderBook \<times> log_call list) option" where
  "modify l oid new_quantity = do {
     found \<leftarrow> map_find (order_map l) oid;
     case found of
       None \<Rightarrow> Some (False, l, [])
     | Some i \<Rightarrow>
         if new_quantity = 0 then cancel l oid
         else do {
           ord \<leftarrow> aread (order_pool l) i;
           level \<leftarrow> aread (levels l (ord_side ord)) (unat (ord_price ord));
           if ord_quantity ord < new_quantity
           then do {
             l \<leftarrow> remove_order l i;
             l \<leftarrow> set_order_quantity l i new_quantity;
             l \<leftarrow> insert_order l i;
             Some (True, l, []) }
           else do {
             l \<leftarrow> write_level l (ord_side ord) (unat (ord_price ord))
               (level\<lparr>total_volume := total_volume level - (ord_quantity ord - new_quantity)\<rparr>);
             l \<leftarrow> set_order_quantity l i new_quantity;
             Some (True, l, []) }}}"

definition get_volume_at_price :: "LimitOrderBook \<Rightarrow> Side \<Rightarrow> u64 \<Rightarrow> u64 option" where
  "get_volume_at_price l side price =
     (if max_price l \<le> unat price then Some 0
      else do { level \<leftarrow> aread (levels l side) (unat price); Some (total_volume level) })"

definition get_order :: "LimitOrderBook \<Rightarrow> u64 \<Rightarrow> ptr option" where
  "get_order l oid = map_find (order_map l) oid"

section \<open>Reading a level's queue\<close>

text \<open>
  The orders of a level in the order of their \<open>next\<close> pointers, at most \<open>fuel\<close> of them, and what
  a queue shows to the outside: ids with quantities, oldest first. The fuel is the size of the
  pool, which no queue without repetitions exceeds.
\<close>

fun walk :: "Order list \<Rightarrow> nat \<Rightarrow> ptr \<Rightarrow> nat list" where
  "walk pool 0 p = []"
| "walk pool (Suc fuel) None = []"
| "walk pool (Suc fuel) (Some i) = i # walk pool fuel (ord_next (pool ! i))"

definition queue_at :: "LimitOrderBook \<Rightarrow> Side \<Rightarrow> u64 \<Rightarrow> (u64 \<times> u64) list" where
  "queue_at l s p =
     (if max_price l \<le> unat p then []
      else map (\<lambda>i. (ord_id (order_pool l ! i), ord_quantity (order_pool l ! i)))
             (walk (order_pool l) (max_orders l) (lv_head (levels l s ! unat p))))"

end
