(* ===== verification/Order_Queues.thy ===== *)
theory Order_Queues
  imports Order_Book
begin

text \<open>
  Correctness of the pool allocator and of the intrusive queues of the order book. The links of
  the pool are related to ghost lists: \<open>Q s p\<close> is the queue of side \<open>s\<close> at price \<open>p\<close> (as pool
  indices, oldest first), \<open>F\<close> the free list and \<open>D\<close> the orders that are detached in the middle of
  an operation. \<open>pool_rep\<close> says that the three partition the pool and that every link and every
  \<open>total_volume\<close> agrees with them.
\<close>

section \<open>Doubly-linked segments\<close>

primrec dseg :: "Order list \<Rightarrow> ptr \<Rightarrow> ptr \<Rightarrow> nat list \<Rightarrow> ptr \<Rightarrow> ptr \<Rightarrow> bool" where
  "dseg pool pv x [] lst y \<longleftrightarrow> pv = lst \<and> x = y"
| "dseg pool pv x (i # xs) lst y \<longleftrightarrow>
     x = Some i \<and> ord_prev (pool ! i) = pv \<and> dseg pool (Some i) (ord_next (pool ! i)) xs lst y"

lemma dseg_append:
  "dseg pool pv x (xs @ ys) lst y \<longleftrightarrow>
     (\<exists>l m. dseg pool pv x xs l m \<and> dseg pool l m ys lst y)"
  by (induction xs arbitrary: pv x) auto

lemma dseg_cong:
  assumes "\<And>i. i \<in> set xs \<Longrightarrow>
      ord_prev (q ! i) = ord_prev (pool ! i) \<and> ord_next (q ! i) = ord_next (pool ! i)"
  shows "dseg q pv x xs lst y = dseg pool pv x xs lst y"
  using assms by (induction xs arbitrary: pv x) auto

lemma dseg_update_other [simp]:
  "k \<notin> set xs \<Longrightarrow> dseg (pool[k := v]) pv x xs lst y = dseg pool pv x xs lst y"
  by (rule dseg_cong) (metis nth_list_update_neq)

lemma dseg_last: "dseg pool pv x xs lst y \<Longrightarrow> lst = (if xs = [] then pv else Some (last xs))"
  by (induction xs arbitrary: pv x) auto

lemma dseg_first: "dseg pool pv x xs lst y \<Longrightarrow> x = (if xs = [] then y else Some (hd xs))"
  by (cases xs) auto

definition set_next :: "Order list \<Rightarrow> nat \<Rightarrow> ptr \<Rightarrow> Order list" where
  "set_next pool k y = pool[k := (pool ! k)\<lparr>ord_next := y\<rparr>]"

definition set_prev :: "Order list \<Rightarrow> nat \<Rightarrow> ptr \<Rightarrow> Order list" where
  "set_prev pool k y = pool[k := (pool ! k)\<lparr>ord_prev := y\<rparr>]"

lemma length_set_link [simp]:
  "length (set_next pool k y) = length pool" "length (set_prev pool k y) = length pool"
  by (simp_all add: set_next_def set_prev_def)

lemma set_next_nth: "k < length pool \<Longrightarrow>
    set_next pool k y ! j = (if j = k then (pool ! k)\<lparr>ord_next := y\<rparr> else pool ! j)"
  by (simp add: set_next_def nth_list_update)

lemma set_prev_nth: "k < length pool \<Longrightarrow>
    set_prev pool k y ! j = (if j = k then (pool ! k)\<lparr>ord_prev := y\<rparr> else pool ! j)"
  by (simp add: set_prev_def nth_list_update)

lemma dseg_set_next:
  assumes "dseg pool pv x (ys @ [k]) lst y" "k \<notin> set ys" "k < length pool"
  shows "dseg (set_next pool k y') pv x (ys @ [k]) (Some k) y'"
  using assms by (auto simp: dseg_append set_next_def)

lemma dseg_set_prev:
  assumes "dseg pool pv x (k # zs) lst y" "k \<notin> set zs" "k < length pool"
  shows "dseg (set_prev pool k pv') pv' x (k # zs) lst y"
  using assms by (auto simp: set_prev_def)

lemma dseg_link_other [simp]:
  "k \<notin> set xs \<Longrightarrow> dseg (set_next pool k v) pv x xs lst y = dseg pool pv x xs lst y"
  "k \<notin> set xs \<Longrightarrow> dseg (set_prev pool k v) pv x xs lst y = dseg pool pv x xs lst y"
  by (simp_all add: set_next_def set_prev_def)

section \<open>Appending to and removing from a queue\<close>

definition link_pool :: "Order list \<Rightarrow> nat \<Rightarrow> ptr \<Rightarrow> Order list" where
  "link_pool pool i t =
     (let pool1 = pool[i := (pool ! i)\<lparr>ord_prev := t, ord_next := None\<rparr>]
      in case t of None \<Rightarrow> pool1 | Some k \<Rightarrow> set_next pool1 k (Some i))"

lemma dseg_link:
  assumes "dseg pool None h xs t None" "i \<notin> set xs" "distinct xs"
    and "i < length pool" "\<forall>k \<in> set xs. k < length pool"
  shows "dseg (link_pool pool i t) None (case t of None \<Rightarrow> Some i | Some _ \<Rightarrow> h)
           (xs @ [i]) (Some i) None"
proof (cases xs rule: rev_cases)
  case Nil
  with assms show ?thesis by (simp add: link_pool_def)
next
  case (snoc ys k)
  let ?pool1 = "pool[i := (pool ! i)\<lparr>ord_prev := t, ord_next := None\<rparr>]"
  from snoc assms have t: "t = Some k" and k: "k < length pool" "k \<noteq> i" "k \<notin> set ys"
    by (auto dest: dseg_last)
  have "dseg ?pool1 None h (ys @ [k]) t None" using assms snoc by simp
  from dseg_set_next [OF this k(3)] k(1)
  have "dseg (set_next ?pool1 k (Some i)) None h (ys @ [k]) (Some k) (Some i)" by simp
  moreover have "dseg (set_next ?pool1 k (Some i)) (Some k) (Some i) [i] (Some i) None"
    using k assms(4) t by (simp add: set_next_nth)
  ultimately have "dseg (set_next ?pool1 k (Some i)) None h ((ys @ [k]) @ [i]) (Some i) None"
    unfolding dseg_append [of _ _ _ "ys @ [k]"] by blast
  then show ?thesis using snoc t by (simp add: link_pool_def)
qed

definition unlink_pool :: "Order list \<Rightarrow> nat \<Rightarrow> Order list" where
  "unlink_pool pool i =
     (let pv = ord_prev (pool ! i); nx = ord_next (pool ! i);
          pool1 = (case pv of None \<Rightarrow> pool | Some k \<Rightarrow> set_next pool k nx)
      in case nx of None \<Rightarrow> pool1 | Some k \<Rightarrow> set_prev pool1 k pv)"

lemma dseg_unlink:
  assumes d: "dseg pool None h (ys @ i # zs) t None" and dist: "distinct (ys @ i # zs)"
    and b: "\<forall>k \<in> set (ys @ i # zs). k < length pool"
  shows "dseg (unlink_pool pool i) None
      (if ord_prev (pool ! i) = None then ord_next (pool ! i) else h) (ys @ zs)
      (if ord_next (pool ! i) = None then ord_prev (pool ! i) else t) None"
proof -
  let ?pv = "ord_prev (pool ! i)" and ?nx = "ord_next (pool ! i)"
  let ?pool1 = "case ?pv of None \<Rightarrow> pool | Some k \<Rightarrow> set_next pool k ?nx"
  from d have ys: "dseg pool None h ys ?pv (Some i)" and zs: "dseg pool (Some i) ?nx zs t None"
    by (auto simp: dseg_append)
  have pv: "?pv = (if ys = [] then None else Some (last ys))" using dseg_last [OF ys] .
  have nx: "?nx = (if zs = [] then None else Some (hd zs))" using dseg_first [OF zs] .
  have t: "t = (if zs = [] then Some i else Some (last zs))" using dseg_last [OF zs] .
  have ys1: "dseg ?pool1 None (if ?pv = None then ?nx else h) ys ?pv ?nx"
  proof (cases ys rule: rev_cases)
    case Nil
    with ys pv show ?thesis by simp
  next
    case (snoc ys' k)
    with ys dist b dseg_set_next [of pool None h ys' k ?pv "Some i" ?nx] pv show ?thesis by simp
  qed
  have "ys \<noteq> [] \<Longrightarrow> last ys \<notin> set zs" using dist last_in_set [of ys] by (auto simp: disjoint_iff)
  then have zs1: "dseg ?pool1 (Some i) ?nx zs t None"
    using zs pv by (auto split: option.split if_splits)
  show ?thesis
  proof (cases zs)
    case Nil
    with nx t have "?nx = None" "t = Some i" by simp_all
    with ys1 Nil show ?thesis by (auto simp: unlink_pool_def Let_def split: option.splits)
  next
    case (Cons k zs')
    have kl: "k < length ?pool1" using b Cons by (auto split: option.split)
    have "dseg (set_prev ?pool1 k ?pv) ?pv ?nx zs t None"
      using dseg_set_prev [of ?pool1 "Some i" ?nx k zs' t None ?pv] zs1 dist kl Cons by simp
    moreover have "dseg (set_prev ?pool1 k ?pv) None (if ?pv = None then ?nx else h) ys ?pv ?nx"
      using ys1 dist Cons by simp
    ultimately have "dseg (set_prev ?pool1 k ?pv) None (if ?pv = None then ?nx else h) (ys @ zs) t None"
      unfolding dseg_append by blast
    moreover have "?nx = Some k" using nx Cons by simp
    ultimately show ?thesis by (auto simp: unlink_pool_def Let_def split: option.splits)
  qed
qed

text \<open>Both operations write links only, and only of the order itself and of its neighbours.\<close>

lemma link_pool_other:
  assumes "i < length pool" "\<forall>k. t = Some k \<longrightarrow> k < length pool"
  shows "length (link_pool pool i t) = length pool"
    and "j \<noteq> i \<Longrightarrow> t \<noteq> Some j \<Longrightarrow> link_pool pool i t ! j = pool ! j"
    and "ord_quantity (link_pool pool i t ! j) = ord_quantity (pool ! j)"
    and "ord_side (link_pool pool i t ! j) = ord_side (pool ! j)"
    and "ord_price (link_pool pool i t ! j) = ord_price (pool ! j)"
    and "ord_id (link_pool pool i t ! j) = ord_id (pool ! j)"
  using assms
  by (auto simp: link_pool_def Let_def set_next_nth nth_list_update split: option.split)

lemma unlink_pool_other:
  assumes "\<forall>k. ord_prev (pool ! i) = Some k \<longrightarrow> k < length pool"
    and "\<forall>k. ord_next (pool ! i) = Some k \<longrightarrow> k < length pool"
  shows "length (unlink_pool pool i) = length pool"
    and "ord_prev (pool ! i) \<noteq> Some j \<Longrightarrow> ord_next (pool ! i) \<noteq> Some j \<Longrightarrow>
      unlink_pool pool i ! j = pool ! j"
    and "ord_quantity (unlink_pool pool i ! j) = ord_quantity (pool ! j)"
    and "ord_side (unlink_pool pool i ! j) = ord_side (pool ! j)"
    and "ord_price (unlink_pool pool i ! j) = ord_price (pool ! j)"
    and "ord_id (unlink_pool pool i ! j) = ord_id (pool ! j)"
  using assms
  by (auto simp: unlink_pool_def Let_def set_next_nth set_prev_nth split: option.split)

section \<open>The free list\<close>

primrec free_chain :: "Order list \<Rightarrow> ptr \<Rightarrow> nat list \<Rightarrow> bool" where
  "free_chain pool p [] \<longleftrightarrow> p = None"
| "free_chain pool p (i # xs) \<longleftrightarrow> p = Some i \<and> free_chain pool (ord_next (pool ! i)) xs"

lemma free_chain_cong:
  "(\<And>i. i \<in> set xs \<Longrightarrow> ord_next (q ! i) = ord_next (pool ! i)) \<Longrightarrow>
   free_chain q p xs = free_chain pool p xs"
  by (induction xs arbitrary: p) auto

lemma init_free_list_chain:
  assumes "init_free_list n pool free i = (pool', free')" "i \<le> n" "length pool = n"
    and "free_chain pool free (rev [0..<i])"
  shows "length pool' = n \<and> free_chain pool' free' (rev [0..<n])"
  using assms
proof (induction n pool free i rule: init_free_list.induct)
  case (1 n pool free i)
  show ?case
  proof (cases "i < n")
    case True
    let ?pool = "pool[i := (pool ! i)\<lparr>ord_next := free\<rparr>]"
    have "free_chain ?pool free (rev [0..<i]) = free_chain pool free (rev [0..<i])"
      by (rule free_chain_cong) auto
    with True "1.prems" have "free_chain ?pool (Some i) (rev [0..<i + 1])" by simp
    moreover have "init_free_list n ?pool (Some i) (i + 1) = (pool', free')"
      using "1.prems"(1) True by (subst (asm) init_free_list.simps) simp
    ultimately show ?thesis using "1.IH" [OF True] True "1.prems"(3) by simp
  next
    case False
    with "1.prems" show ?thesis by (subst (asm) init_free_list.simps) simp
  qed
qed

lemma init_free_list_ready:
  assumes "init_free_list n (replicate n zero_order) None 0 = (pool, free)"
  shows "length pool = n" "free_chain pool free (rev [0..<n])"
  using init_free_list_chain [OF assms] by simp_all

section \<open>The representation of the pool\<close>

definition live :: "(Side \<Rightarrow> u64 \<Rightarrow> nat list) \<Rightarrow> nat set" where
  "live Q = (\<Union>s p. set (Q s p))"

definition level_rep :: "Order list \<Rightarrow> PriceLevel \<Rightarrow> nat list \<Rightarrow> bool" where
  "level_rep pool lv xs \<longleftrightarrow> dseg pool None (lv_head lv) xs (lv_tail lv) None \<and>
     total_volume lv = sum_list (map (\<lambda>i. ord_quantity (pool ! i)) xs)"

definition pool_partition :: "nat \<Rightarrow> (Side \<Rightarrow> u64 \<Rightarrow> nat list) \<Rightarrow> nat list \<Rightarrow> nat set \<Rightarrow> bool" where
  "pool_partition n Q F D \<longleftrightarrow> live Q \<union> set F \<union> D = {..<n} \<and> distinct F \<and> (\<forall>s p. distinct (Q s p)) \<and>
     live Q \<inter> set F = {} \<and> live Q \<inter> D = {} \<and> set F \<inter> D = {}"

definition sizes_ok :: "LimitOrderBook \<Rightarrow> bool" where
  "sizes_ok l \<longleftrightarrow> (\<forall>s. length (levels l s) = max_price l) \<and> length (order_pool l) = max_orders l"

definition pool_rep ::
    "LimitOrderBook \<Rightarrow> (Side \<Rightarrow> u64 \<Rightarrow> nat list) \<Rightarrow> nat list \<Rightarrow> nat set \<Rightarrow> bool" where
  "pool_rep l Q F D \<longleftrightarrow> sizes_ok l \<and> pool_partition (max_orders l) Q F D \<and>
     free_chain (order_pool l) (free_list_head l) F \<and>
     (\<forall>s p. unat p < max_price l \<longrightarrow> level_rep (order_pool l) (levels l s ! unat p) (Q s p)) \<and>
     (\<forall>s p. max_price l \<le> unat p \<longrightarrow> Q s p = []) \<and>
     (\<forall>s p. \<forall>i \<in> set (Q s p). ord_side (order_pool l ! i) = s \<and> ord_price (order_pool l ! i) = p)"

abbreviation upd_queue ::
    "(Side \<Rightarrow> u64 \<Rightarrow> nat list) \<Rightarrow> Side \<Rightarrow> u64 \<Rightarrow> nat list \<Rightarrow> Side \<Rightarrow> u64 \<Rightarrow> nat list" where
  "upd_queue Q s p xs \<equiv> Q(s := (Q s)(p := xs))"

lemma levels_set_levels [simp]:
  "levels (set_levels l s xs) s' = (if s' = s then xs else levels l s')"
  by (cases s; cases s') (simp_all add: levels_def set_levels_def)

lemma set_levels_frame [simp]:
  "order_pool (set_levels l s xs) = order_pool l" "max_price (set_levels l s xs) = max_price l"
  "max_orders (set_levels l s xs) = max_orders l" "order_map (set_levels l s xs) = order_map l"
  "free_list_head (set_levels l s xs) = free_list_head l"
  by (cases s; simp add: set_levels_def)+

lemma levels_frame [simp]:
  "levels (l\<lparr>order_pool := x\<rparr>) s = levels l s" "levels (l\<lparr>free_list_head := y\<rparr>) s = levels l s"
  "levels (l\<lparr>order_map := z\<rparr>) s = levels l s"
  by (cases s; simp add: levels_def)+

lemma level_rep_cong:
  assumes "level_rep pool lv xs" "\<And>i. i \<in> set xs \<Longrightarrow> pool' ! i = pool ! i"
  shows "level_rep pool' lv xs"
proof -
  have "map (\<lambda>i. ord_quantity (pool' ! i)) xs = map (\<lambda>i. ord_quantity (pool ! i)) xs"
    using assms(2) by simp
  moreover have "dseg pool' None (lv_head lv) xs (lv_tail lv) None
      = dseg pool None (lv_head lv) xs (lv_tail lv) None"
    by (rule dseg_cong) (simp add: assms(2))
  ultimately show ?thesis using assms(1) by (simp only: level_rep_def)
qed

lemma live_upd_queue:
  assumes "\<And>s' p'. (s', p') \<noteq> (s, p) \<Longrightarrow> set (Q s' p') \<inter> set (Q s p) = {}"
  shows "live (upd_queue Q s p xs) = (live Q - set (Q s p)) \<union> set xs"
proof -
  have "j \<in> live (upd_queue Q s p xs) \<longleftrightarrow> j \<in> (live Q - set (Q s p)) \<union> set xs" for j
    using assms unfolding live_def by (fastforce split: if_splits)
  then show ?thesis by blast
qed

lemma live_upd_queue_add: "live (upd_queue Q s p (Q s p @ [i])) = insert i (live Q)"
  by (fastforce simp: live_def split: if_splits)

lemma mem_liveI [intro]: "i \<in> set (Q s p) \<Longrightarrow> i \<in> live Q"
  by (auto simp: live_def)

text \<open>
  Reassembling the representation after an operation that changed one level and the pool entries
  of a set \<open>C\<close> of orders none of which is queued at any other level.
\<close>

lemma pool_rep_step:
  assumes R: "pool_rep l Q F D"
    and sizes: "max_price l' = max_price l" "max_orders l' = max_orders l"
      "length (order_pool l') = length (order_pool l)"
    and p: "unat p < max_price l"
    and lev: "\<And>s'. levels l' s' = (if s' = s then (levels l s)[unat p := lv] else levels l s')"
    and same: "\<And>j. j \<notin> C \<Longrightarrow> order_pool l' ! j = order_pool l ! j"
    and C: "\<And>s' p'. (s', p') \<noteq> (s, p) \<Longrightarrow> C \<inter> set (Q s' p') = {}"
    and new: "level_rep (order_pool l') lv xs"
      "\<forall>i \<in> set xs. ord_side (order_pool l' ! i) = s \<and> ord_price (order_pool l' ! i) = p"
    and free: "free_chain (order_pool l') (free_list_head l') F'"
    and part: "pool_partition (max_orders l) (upd_queue Q s p xs) F' D'"
  shows "pool_rep l' (upd_queue Q s p xs) F' D'"
  unfolding pool_rep_def
proof (intro conjI allI impI ballI)
  from R have R': "sizes_ok l" "\<forall>s p. unat p < max_price l \<longrightarrow>
      level_rep (order_pool l) (levels l s ! unat p) (Q s p)"
    "\<forall>s p. max_price l \<le> unat p \<longrightarrow> Q s p = []"
    "\<forall>s p. \<forall>i \<in> set (Q s p). ord_side (order_pool l ! i) = s \<and> ord_price (order_pool l ! i) = p"
    by (auto simp: pool_rep_def)
  have keep: "order_pool l' ! i = order_pool l ! i" if "i \<in> set (Q s' p')" "(s', p') \<noteq> (s, p)" for i s' p'
    using C [OF that(2)] that(1) same by blast
  show "sizes_ok l'" using R'(1) sizes lev by (auto simp: sizes_ok_def)
  show "pool_partition (max_orders l') (upd_queue Q s p xs) F' D'" using part sizes by simp
  show "free_chain (order_pool l') (free_list_head l') F'" by (rule free)
  show "level_rep (order_pool l') (levels l' s' ! unat p') (upd_queue Q s p xs s' p')"
    if "unat p' < max_price l'" for s' p'
  proof (cases "(s', p') = (s, p)")
    case True
    with new(1) lev p R'(1) show ?thesis by (simp add: sizes_ok_def)
  next
    case False
    have "level_rep (order_pool l') (levels l s' ! unat p') (Q s' p')"
      using level_rep_cong R'(2) that sizes(1) keep [OF _ False] by metis
    moreover have "levels l' s' ! unat p' = levels l s' ! unat p'"
      using False lev [of s'] by (cases "s' = s") (auto simp: word_unat_eq_iff)
    ultimately show ?thesis using False by auto
  qed
  show "upd_queue Q s p xs s' p' = []" if "max_price l' \<le> unat p'" for s' p'
    using that R'(3) sizes(1) p by auto
  fix s' p' i
  assume i: "i \<in> set (upd_queue Q s p xs s' p')"
  have "ord_side (order_pool l' ! i) = s' \<and> ord_price (order_pool l' ! i) = p'"
  proof (cases "(s', p') = (s, p)")
    case True
    with i new(2) show ?thesis by simp
  next
    case False
    then have iq: "i \<in> set (Q s' p')" using i by (auto split: if_splits)
    then show ?thesis using keep [OF iq False] R'(4) by simp
  qed
  then show "ord_side (order_pool l' ! i) = s'" "ord_price (order_pool l' ! i) = p'" by simp_all
qed

lemma pool_rep_order_map [simp]: "pool_rep (l\<lparr>order_map := m\<rparr>) Q F D = pool_rep l Q F D"
  by (simp add: pool_rep_def sizes_ok_def)

lemma pool_rep_disjoint:
  assumes "pool_rep l Q F D" "(s', p') \<noteq> (s, p)"
  shows "set (Q s' p') \<inter> set (Q s p) = {}"
proof -
  have "\<forall>s p. \<forall>i \<in> set (Q s p). ord_side (order_pool l ! i) = s \<and> ord_price (order_pool l ! i) = p"
    using assms(1) by (simp add: pool_rep_def)
  with assms(2) show ?thesis by (metis disjoint_iff)
qed

lemma pool_rep_bounds:
  assumes "pool_rep l Q F D"
  shows "i \<in> live Q \<Longrightarrow> i < length (order_pool l)" "i \<in> set F \<Longrightarrow> i < length (order_pool l)"
    "i \<in> D \<Longrightarrow> i < length (order_pool l)"
  using assms by (auto simp: pool_rep_def pool_partition_def sizes_ok_def)

lemma pool_rep_levelD:
  assumes "pool_rep l Q F D" "i \<in> set (Q s p)"
  shows "unat p < max_price l" "unat p < length (levels l s)"
    "ord_side (order_pool l ! i) = s" "ord_price (order_pool l ! i) = p"
    "level_rep (order_pool l) (levels l s ! unat p) (Q s p)" "distinct (Q s p)"
    "i < length (order_pool l)"
proof -
  show p: "unat p < max_price l" using assms by (fastforce simp: pool_rep_def not_le [symmetric])
  with assms show "unat p < length (levels l s)" by (simp add: pool_rep_def sizes_ok_def)
  show "level_rep (order_pool l) (levels l s ! unat p) (Q s p)" "distinct (Q s p)"
    using assms(1) p by (auto simp: pool_rep_def pool_partition_def)
  show "i < length (order_pool l)" using pool_rep_bounds(1) [OF assms(1)] assms(2) by blast
qed (use assms in \<open>auto simp: pool_rep_def\<close>)

end
