(* ===== verification/Order_Book_Rep.thy ===== *)
theory Order_Book_Rep
  imports Order_Queues
begin

text \<open>
  What each internal operation of the order book does to the representation of
  \<open>Order_Queues\<close>: the pool allocator moves an order between the free list and the detached
  orders, \<open>insert_order\<close> and \<open>remove_order\<close> move it between the detached orders and the tail or
  the middle of its queue. Every lemma also says that the operation has a defined result.
\<close>

section \<open>Allocator\<close>

lemma allocate_order_none: "pool_rep l Q [] D \<Longrightarrow> allocate_order l = Some (None, l)"
  by (simp add: pool_rep_def allocate_order_def)

lemma allocate_order_some:
  assumes "pool_rep l Q (i # F) D"
  shows "allocate_order l = Some (Some i, l\<lparr>free_list_head := ord_next (order_pool l ! i)\<rparr>)"
    and "pool_rep (l\<lparr>free_list_head := ord_next (order_pool l ! i)\<rparr>) Q F (insert i D)"
proof -
  have "i < length (order_pool l)" using pool_rep_bounds(2) [OF assms] by simp
  moreover have "free_list_head l = Some i" using assms by (simp add: pool_rep_def)
  ultimately show "allocate_order l = Some (Some i, l\<lparr>free_list_head := ord_next (order_pool l ! i)\<rparr>)"
    by (simp add: allocate_order_def)
  show "pool_rep (l\<lparr>free_list_head := ord_next (order_pool l ! i)\<rparr>) Q F (insert i D)"
    using assms by (auto simp: pool_rep_def pool_partition_def sizes_ok_def)
qed

lemma pool_rep_detached:
  assumes "pool_rep l Q F D" "i \<in> D"
  shows "pool_rep (l\<lparr>order_pool := (order_pool l)[i := v]\<rparr>) Q F D"
proof -
  from assms have ni: "i \<notin> live Q" "i \<notin> set F" by (auto simp: pool_rep_def pool_partition_def)
  then have nq: "i \<notin> set (Q s p)" for s p by auto
  let ?pool = "(order_pool l)[i := v]"
  have keep: "j \<in> set (Q s p) \<Longrightarrow> ?pool ! j = order_pool l ! j" for j s p
    using nq by (metis nth_list_update_neq)
  have "free_chain ?pool (free_list_head l) F = free_chain (order_pool l) (free_list_head l) F"
    using ni(2) by (intro free_chain_cong) (metis nth_list_update_neq)
  moreover have "level_rep ?pool (levels l s ! unat p) (Q s p)"
    if "level_rep (order_pool l) (levels l s ! unat p) (Q s p)" for s p
    using level_rep_cong [OF that] keep by blast
  ultimately show ?thesis using assms(1) keep by (simp add: pool_rep_def sizes_ok_def)
qed

lemma set_order_fields_detached:
  assumes "pool_rep l Q F D" "i \<in> D"
  shows "set_order_fields l i oid s p q = Some (l\<lparr>order_pool := (order_pool l)[i := (order_pool l ! i)
      \<lparr>ord_id := oid, ord_side := s, ord_price := p, ord_quantity := q\<rparr>]\<rparr>)"
  using pool_rep_bounds(3) [OF assms] by (simp add: set_order_fields_def)

lemma set_order_quantity_detached:
  assumes "pool_rep l Q F D" "i \<in> D"
  shows "set_order_quantity l i q = Some (l\<lparr>order_pool := (order_pool l)[i := (order_pool l ! i)
      \<lparr>ord_quantity := q\<rparr>]\<rparr>)"
  using pool_rep_bounds(3) [OF assms] by (simp add: set_order_quantity_def)

lemma deallocate_order_rep:
  assumes "pool_rep l Q F D" "i \<in> D"
    and l': "l' = l\<lparr>order_pool := (order_pool l)[i := (order_pool l ! i)
      \<lparr>ord_next := free_list_head l\<rparr>], free_list_head := Some i\<rparr>"
  shows "deallocate_order l i = Some l'"
    and "pool_rep l' Q (i # F) (D - {i})"
proof -
  have i: "i < length (order_pool l)" using pool_rep_bounds(3) [OF assms(1,2)] .
  then show "deallocate_order l i = Some l'" by (simp add: deallocate_order_def l')
  let ?v = "(order_pool l ! i)\<lparr>ord_next := free_list_head l\<rparr>"
  have "pool_rep (l\<lparr>order_pool := (order_pool l)[i := ?v]\<rparr>) Q F D"
    using assms(1,2) by (rule pool_rep_detached)
  then show "pool_rep l' Q (i # F) (D - {i})"
    using assms(2) i l' by (auto simp: pool_rep_def pool_partition_def sizes_ok_def)
qed

section \<open>Queues\<close>

text \<open>The parts of the book that moving orders between queues leaves alone.\<close>

definition same_orders :: "LimitOrderBook \<Rightarrow> LimitOrderBook \<Rightarrow> bool" where
  "same_orders l l' \<longleftrightarrow> max_price l' = max_price l \<and> max_orders l' = max_orders l \<and>
     order_map l' = order_map l \<and> length (order_pool l') = length (order_pool l) \<and>
     (\<forall>j. ord_id (order_pool l' ! j) = ord_id (order_pool l ! j) \<and>
          ord_quantity (order_pool l' ! j) = ord_quantity (order_pool l ! j) \<and>
          ord_side (order_pool l' ! j) = ord_side (order_pool l ! j) \<and>
          ord_price (order_pool l' ! j) = ord_price (order_pool l ! j))"

lemma free_chain_keep:
  assumes "pool_rep l Q F D" "\<And>j. j \<notin> live Q \<Longrightarrow> j \<notin> D \<Longrightarrow> pool ! j = order_pool l ! j"
  shows "free_chain pool (free_list_head l) F"
proof -
  have "ord_next (pool ! j) = ord_next (order_pool l ! j)" if "j \<in> set F" for j
  proof -
    have "j \<notin> live Q" "j \<notin> D" using assms(1) that by (auto simp: pool_rep_def pool_partition_def)
    then show ?thesis by (simp add: assms(2))
  qed
  then have "free_chain pool (free_list_head l) F = free_chain (order_pool l) (free_list_head l) F"
    by (rule free_chain_cong)
  with assms(1) show ?thesis by (simp add: pool_rep_def)
qed

lemma insert_order_rep:
  assumes R: "pool_rep l Q F D" and i: "i \<in> D"
    and s: "ord_side (order_pool l ! i) = s" and p: "ord_price (order_pool l ! i) = p"
    and pm: "unat p < max_price l"
  obtains l' where "insert_order l i = Some l'"
    and "pool_rep l' (upd_queue Q s p (Q s p @ [i])) F (D - {i})" and "same_orders l l'"
proof -
  define lv where "lv = levels l s ! unat p"
  define pool where "pool = link_pool (order_pool l) i (lv_tail lv)"
  define lv' where "lv' = lv\<lparr>lv_head := (case lv_tail lv of None \<Rightarrow> Some i | Some _ \<Rightarrow> lv_head lv),
      lv_tail := Some i, total_volume := total_volume lv + ord_quantity (order_pool l ! i)\<rparr>"
  define l' where "l' = set_levels (l\<lparr>order_pool := pool\<rparr>) s ((levels l s)[unat p := lv'])"
  from R pm have lr: "level_rep (order_pool l) lv (Q s p)" and dq: "distinct (Q s p)"
    and len: "unat p < length (levels l s)"
    by (auto simp: pool_rep_def sizes_ok_def pool_partition_def lv_def)
  from R i have iD: "i \<notin> live Q" "i \<notin> set F" by (auto simp: pool_rep_def pool_partition_def)
  then have iQ: "i \<notin> set (Q s' p')" for s' p' by auto
  have il: "i < length (order_pool l)" using pool_rep_bounds(3) [OF R i] .
  have t: "lv_tail lv = (if Q s p = [] then None else Some (last (Q s p)))"
    using lr unfolding level_rep_def by (blast dest: dseg_last)
  have ql: "\<forall>k \<in> set (Q s p). k < length (order_pool l)" using pool_rep_bounds(1) [OF R] by blast
  then have tl: "\<forall>k. lv_tail lv = Some k \<longrightarrow> k < length (order_pool l)" using t by auto
  note other = link_pool_other [OF il tl, folded pool_def]
  have keep: "pool ! j = order_pool l ! j" if "j \<notin> insert i (set (Q s p))" for j
  proof (rule other(2))
    show "lv_tail lv \<noteq> Some j" using that t last_in_set [of "Q s p"] by (auto split: if_splits)
  qed (use that in auto)
  have "insert_order l i = Some l'"
    using il len tl s p
    by (auto simp: insert_order_def write_level_def pool_def link_pool_def Let_def lv'_def l'_def
        set_next_def lv_def [symmetric] split: option.split)
  moreover have "pool_rep l' (upd_queue Q s p (Q s p @ [i])) F (D - {i})"
  proof (rule pool_rep_step [OF R, where C = "insert i (set (Q s p))" and lv = lv'])
    show "unat p < max_price l" by (rule pm)
    show "insert i (set (Q s p)) \<inter> set (Q s' p') = {}" if "(s', p') \<noteq> (s, p)" for s' p'
      using iQ [of s' p'] pool_rep_disjoint [OF R that] by blast
    show "level_rep (order_pool l') lv' (Q s p @ [i])"
      using dseg_link [of "order_pool l" "lv_head lv" "Q s p" "lv_tail lv" i] lr iQ dq il ql other(3)
      by (simp add: level_rep_def lv'_def l'_def pool_def [symmetric])
    show "free_chain (order_pool l') (free_list_head l') F"
      unfolding l'_def by simp (rule free_chain_keep [OF R], rule keep, use i in auto)
    show "pool_partition (max_orders l) (upd_queue Q s p (Q s p @ [i])) F (D - {i})"
      using R i iD iQ by (auto simp: pool_rep_def pool_partition_def live_upd_queue_add)
    show "\<forall>j \<in> set (Q s p @ [i]). ord_side (order_pool l' ! j) = s \<and> ord_price (order_pool l' ! j) = p"
      using other(4,5) R s p by (auto simp: pool_rep_def l'_def)
  qed (use other(1) keep in \<open>simp_all add: l'_def\<close>)
  moreover have "same_orders l l'" using other by (simp add: same_orders_def l'_def)
  ultimately show thesis by (rule that)
qed

lemma remove_order_rep:
  assumes R: "pool_rep l Q F D" and i: "i \<in> set (Q s p)"
  obtains l' where "remove_order l i = Some l'"
    and "pool_rep l' (upd_queue Q s p (remove1 i (Q s p))) F (insert i D)" and "same_orders l l'"
proof -
  define lv where "lv = levels l s ! unat p"
  define pool where "pool = unlink_pool (order_pool l) i"
  let ?pv = "ord_prev (order_pool l ! i)" and ?nx = "ord_next (order_pool l ! i)"
  define lv' where "lv' = lv\<lparr>lv_head := (if ?pv = None then ?nx else lv_head lv),
      lv_tail := (if ?nx = None then ?pv else lv_tail lv),
      total_volume := total_volume lv - ord_quantity (order_pool l ! i)\<rparr>"
  define l' where "l' = set_levels (l\<lparr>order_pool := pool\<rparr>) s ((levels l s)[unat p := lv'])"
  note L = pool_rep_levelD [OF R i]
  from L(5) have lr: "level_rep (order_pool l) lv (Q s p)" by (simp add: lv_def)
  obtain ys zs where q: "Q s p = ys @ i # zs" using i by (auto simp: in_set_conv_decomp)
  with L(6) have dist: "distinct (ys @ i # zs)" by simp
  then have rm: "remove1 i (Q s p) = ys @ zs" using q by (simp add: remove1_append)
  have ql: "\<forall>k \<in> set (ys @ i # zs). k < length (order_pool l)"
    using pool_rep_bounds(1) [OF R] q by (metis mem_liveI)
  have d: "dseg (order_pool l) None (lv_head lv) (ys @ i # zs) (lv_tail lv) None"
    using lr q by (simp add: level_rep_def)
  then have pv: "?pv = (if ys = [] then None else Some (last ys))"
    and nx: "?nx = (if zs = [] then None else Some (hd zs))"
    by (auto simp: dseg_append dest: dseg_last dseg_first)
  have pvl: "\<forall>k. ?pv = Some k \<longrightarrow> k < length (order_pool l)" and nxl: "\<forall>k. ?nx = Some k \<longrightarrow> k < length (order_pool l)"
    using pv nx ql by (auto split: if_splits)
  have pvi: "?pv \<noteq> Some i" and nxi: "?nx \<noteq> Some i"
    using pv nx dist by (auto split: if_splits)
  note other = unlink_pool_other [OF pvl nxl, folded pool_def]
  have keep: "pool ! j = order_pool l ! j" if "j \<notin> set (Q s p)" for j
  proof (rule other(2))
    show "?pv \<noteq> Some j" using that q pv last_in_set [of ys] by (auto split: if_splits)
    show "?nx \<noteq> Some j" using that q nx hd_in_set [of zs] by (auto split: if_splits)
  qed
  have "remove_order l i = Some l'"
    using L pvl nxl pvi nxi
    by (auto simp: remove_order_def write_level_def pool_def unlink_pool_def Let_def lv'_def l'_def
        set_next_def set_prev_def lv_def [symmetric] split: option.split)
  moreover have "pool_rep l' (upd_queue Q s p (remove1 i (Q s p))) F (insert i D)"
  proof (rule pool_rep_step [OF R, where C = "set (Q s p)" and lv = lv'])
    show "unat p < max_price l" by (rule L(1))
    show "set (Q s p) \<inter> set (Q s' p') = {}" if "(s', p') \<noteq> (s, p)" for s' p'
      using pool_rep_disjoint [OF R that] by blast
    have "total_volume lv' = sum_list (map (\<lambda>j. ord_quantity (pool ! j)) (ys @ zs))"
      using lr q other(3) by (simp add: level_rep_def lv'_def)
    then show "level_rep (order_pool l') lv' (remove1 i (Q s p))"
      using dseg_unlink [OF d dist ql] by (simp add: level_rep_def lv'_def l'_def pool_def rm)
    show "free_chain (order_pool l') (free_list_head l') F"
      using free_chain_keep [OF R, of pool] keep by (auto simp: l'_def)
    have "live (upd_queue Q s p (ys @ zs)) = live Q - {i}"
    proof -
      have "set (Q s p) \<subseteq> live Q" by auto
      then show ?thesis
        using live_upd_queue [of s p Q "ys @ zs", OF pool_rep_disjoint [OF R]] q dist by auto
    qed
    then show "pool_partition (max_orders l) (upd_queue Q s p (remove1 i (Q s p))) F (insert i D)"
      using R i dist L(6) unfolding rm by (auto simp: pool_rep_def pool_partition_def)
    show "\<forall>j \<in> set (remove1 i (Q s p)). ord_side (order_pool l' ! j) = s \<and> ord_price (order_pool l' ! j) = p"
      using other(4,5) R set_remove1_subset [of i "Q s p"] by (auto simp: pool_rep_def l'_def)
  qed (use other(1) keep in \<open>simp_all add: l'_def\<close>)
  moreover have "same_orders l l'" using other by (simp add: same_orders_def l'_def)
  ultimately show thesis by (rule that)
qed

end
