(* ===== verification/Book_Spec.thy ===== *)
theory Book_Spec
  imports Order_Book
begin

text \<open>
  The contract of an order book, with no pool, no links and no hash table: the resting orders are
  one list in priority order, a new order goes to the end, a cancelled one leaves, a reduced one
  keeps its place and an increased one moves to the end.
\<close>

section \<open>The abstract book\<close>

record resting =
  r_id :: u64
  r_side :: Side
  r_price :: u64
  r_quantity :: u64

definition level_queue :: "resting list \<Rightarrow> Side \<Rightarrow> u64 \<Rightarrow> (u64 \<times> u64) list" where
  "level_queue b s p =
     map (\<lambda>r. (r_id r, r_quantity r)) (filter (\<lambda>r. r_side r = s \<and> r_price r = p) b)"

definition spec_find :: "resting list \<Rightarrow> u64 \<Rightarrow> resting option" where
  "spec_find b oid = find (\<lambda>r. r_id r = oid) b"

definition spec_volume :: "resting list \<Rightarrow> Side \<Rightarrow> u64 \<Rightarrow> u64" where
  "spec_volume b s p = sum_list (map snd (level_queue b s p))"

text \<open>\<open>n\<close> is the number of orders the book can hold, \<open>m\<close> the number of price levels.\<close>

definition spec_add :: "nat \<Rightarrow> nat \<Rightarrow> resting list \<Rightarrow> u64 \<Rightarrow> Side \<Rightarrow> u64 \<Rightarrow> u64 \<Rightarrow>
    bool \<times> resting list" where
  "spec_add n m b oid s p q =
     (if m \<le> unat p \<or> spec_find b oid \<noteq> None \<or> n \<le> length b then (False, b)
      else (True, b @ [\<lparr>r_id = oid, r_side = s, r_price = p, r_quantity = q\<rparr>]))"

definition spec_cancel :: "resting list \<Rightarrow> u64 \<Rightarrow> bool \<times> resting list" where
  "spec_cancel b oid =
     (if spec_find b oid = None then (False, b) else (True, filter (\<lambda>r. r_id r \<noteq> oid) b))"

definition spec_modify :: "resting list \<Rightarrow> u64 \<Rightarrow> u64 \<Rightarrow> bool \<times> resting list" where
  "spec_modify b oid q =
     (case spec_find b oid of
        None \<Rightarrow> (False, b)
      | Some r \<Rightarrow>
          if q = 0 then spec_cancel b oid
          else if r_quantity r < q
          then (True, filter (\<lambda>r. r_id r \<noteq> oid) b @ [r\<lparr>r_quantity := q\<rparr>])
          else (True, map (\<lambda>r. if r_id r = oid then r\<lparr>r_quantity := q\<rparr> else r) b))"

lemma level_queue_simps [simp]:
  "level_queue [] s p = []"
  "level_queue (b @ b') s p = level_queue b s p @ level_queue b' s p"
  "level_queue (r # b) s p =
     (if r_side r = s \<and> r_price r = p then [(r_id r, r_quantity r)] else []) @ level_queue b s p"
  by (simp_all add: level_queue_def)

lemma level_queue_filter_id:
  "level_queue (filter (\<lambda>r. r_id r \<noteq> oid) b) s p = filter (\<lambda>x. fst x \<noteq> oid) (level_queue b s p)"
  by (induction b) auto

lemma level_queue_set_quantity:
  "level_queue (map (\<lambda>r. if r_id r = oid then r\<lparr>r_quantity := q\<rparr> else r) b) s p =
     map (\<lambda>x. if fst x = oid then (oid, q) else x) (level_queue b s p)"
  by (induction b) auto

lemma level_queue_mem_iff:
  "(oid, q) \<in> set (level_queue b s p) \<longleftrightarrow>
     (\<exists>r \<in> set b. r_id r = oid \<and> r_quantity r = q \<and> r_side r = s \<and> r_price r = p)"
  by (auto simp: level_queue_def)

lemma ids_level_queue: "r_id ` set b = (\<Union>s p. fst ` set (level_queue b s p))"
  by (fastforce simp: level_queue_def image_iff)

lemma spec_find_None_iff: "spec_find b oid = None \<longleftrightarrow> oid \<notin> r_id ` set b"
  by (auto simp: spec_find_def find_None_iff)

lemma spec_find_SomeI:
  assumes "distinct (map r_id b)" "r \<in> set b" "r_id r = oid"
  shows "spec_find b oid = Some r"
  using assms by (induction b) (auto simp: spec_find_def)

end
