(* ===== verification/Order_Book_Correct.thy ===== *)
theory Order_Book_Correct
  imports Order_Book_Rep Book_Spec
begin

text \<open>
  The order book refines its specification: \<open>lob_refines l b\<close> relates a book of the code to a list
  of resting orders, the constructor establishes it and each operation returns, answers what the
  specification answers and keeps the relation. \<open>lob_room\<close>, the number of hash slots that were
  never used, bounds for how long that is so.
\<close>

section \<open>The refinement relation\<close>

abbreviation shown :: "LimitOrderBook \<Rightarrow> nat \<Rightarrow> u64 \<times> u64" where
  "shown l i \<equiv> (ord_id (order_pool l ! i), ord_quantity (order_pool l ! i))"

definition index_rep :: "LimitOrderBook \<Rightarrow> nat set \<Rightarrow> bool" where
  "index_rep l L \<longleftrightarrow> om_inv (order_map l) \<and>
     (\<forall>oid i. om_abs (order_map l) oid = Some i \<longleftrightarrow> i \<in> L \<and> ord_id (order_pool l ! i) = oid)"

definition book_rep ::
    "LimitOrderBook \<Rightarrow> (Side \<Rightarrow> u64 \<Rightarrow> nat list) \<Rightarrow> nat list \<Rightarrow> resting list \<Rightarrow> bool" where
  "book_rep l Q F b \<longleftrightarrow> pool_rep l Q F {} \<and> index_rep l (live Q) \<and>
     (\<forall>s p. map (shown l) (Q s p) = level_queue b s p) \<and> distinct (map r_id b)"

definition lob_refines :: "LimitOrderBook \<Rightarrow> resting list \<Rightarrow> bool" where
  "lob_refines l b \<longleftrightarrow> (\<exists>Q F. book_rep l Q F b)"

definition lob_room :: "LimitOrderBook \<Rightarrow> nat" where
  "lob_room l = om_room (order_map l)"

lemma book_repD:
  assumes "book_rep l Q F b"
  shows "pool_rep l Q F {}" "om_inv (order_map l)"
    "om_abs (order_map l) oid = Some i \<longleftrightarrow> i \<in> live Q \<and> ord_id (order_pool l ! i) = oid"
    "map (shown l) (Q s p) = level_queue b s p" "distinct (map r_id b)"
  using assms by (auto simp: book_rep_def index_rep_def)

lemma book_rep_inj:
  assumes "book_rep l Q F b" "i \<in> live Q" "j \<in> live Q" "ord_id (order_pool l ! i) = ord_id (order_pool l ! j)"
  shows "i = j"
  using assms book_repD(3) [OF assms(1)] by (metis option.inject)

lemma book_rep_ids:
  assumes "book_rep l Q F b"
  shows "r_id ` set b = (\<lambda>i. ord_id (order_pool l ! i)) ` live Q"
proof -
  have "fst ` set (level_queue b s p) = (\<lambda>i. ord_id (order_pool l ! i)) ` set (Q s p)" for s p
    unfolding book_repD(4) [OF assms, symmetric] by force
  then show ?thesis unfolding ids_level_queue live_def by (simp add: image_UN)
qed

lemma book_rep_length:
  assumes "book_rep l Q F b"
  shows "length b + length F = max_orders l"
proof -
  note P = book_repD(1) [OF assms]
  have "length b = card (r_id ` set b)"
    using distinct_card [OF book_repD(5) [OF assms]] by simp
  also have "\<dots> = card (live Q)"
    unfolding book_rep_ids [OF assms]
    by (rule card_image) (auto intro!: inj_onI book_rep_inj [OF assms])
  finally have "length b = card (live Q)" .
  moreover have "card (live Q \<union> set F) = max_orders l" "live Q \<inter> set F = {}"
    "distinct F" "finite (live Q \<union> set F)"
    using P by (auto simp: pool_rep_def pool_partition_def)
  ultimately show ?thesis using card_Un_disjoint [of "live Q" "set F"] distinct_card [of F] by simp
qed

lemma book_rep_find_None:
  assumes "book_rep l Q F b"
  shows "om_abs (order_map l) oid = None \<longleftrightarrow> spec_find b oid = None"
proof -
  have "om_abs (order_map l) oid \<noteq> None \<longleftrightarrow> (\<exists>i \<in> live Q. ord_id (order_pool l ! i) = oid)"
    using book_repD(3) [OF assms] by fastforce
  then show ?thesis unfolding spec_find_None_iff book_rep_ids [OF assms] by blast
qed

lemma book_rep_find_Some:
  assumes "book_rep l Q F b" "om_abs (order_map l) oid = Some i"
  obtains s p where "i \<in> set (Q s p)" "ord_id (order_pool l ! i) = oid"
    "spec_find b oid = Some \<lparr>r_id = oid, r_side = s, r_price = p,
       r_quantity = ord_quantity (order_pool l ! i)\<rparr>"
proof -
  from assms book_repD(3) [OF assms(1)] have i: "i \<in> live Q" "ord_id (order_pool l ! i) = oid" by auto
  then obtain s p where sp: "i \<in> set (Q s p)" by (auto simp: live_def)
  then have "shown l i \<in> set (level_queue b s p)"
    unfolding book_repD(4) [OF assms(1), symmetric] set_map by (rule imageI)
  then obtain r where r: "r \<in> set b" "r_id r = oid" "r_quantity r = ord_quantity (order_pool l ! i)"
    "r_side r = s" "r_price r = p" using i(2) by (auto simp: level_queue_mem_iff)
  have "r = \<lparr>r_id = oid, r_side = s, r_price = p, r_quantity = ord_quantity (order_pool l ! i)\<rparr>"
    using r(2-5) by (cases r) simp
  with spec_find_SomeI [OF book_repD(5) [OF assms(1)] r(1,2)] that [OF sp i(2)] show thesis by simp
qed

section \<open>What the book shows\<close>

lemma walk_dseg:
  "dseg pool pv x xs lst None \<Longrightarrow> length xs \<le> fuel \<Longrightarrow> walk pool fuel x = xs"
proof (induction xs arbitrary: pv x fuel)
  case Nil
  then show ?case by (cases fuel) auto
next
  case (Cons i xs)
  then show ?case by (cases fuel) auto
qed

lemma pool_rep_queue:
  assumes "pool_rep l Q F D"
  shows "queue_at l s p = map (shown l) (Q s p)"
proof (cases "max_price l \<le> unat p")
  case True
  with assms show ?thesis by (simp add: queue_at_def pool_rep_def)
next
  case False
  then have "dseg (order_pool l) None (lv_head (levels l s ! unat p)) (Q s p) (lv_tail (levels l s ! unat p)) None"
    using assms by (simp add: pool_rep_def level_rep_def)
  moreover have "length (Q s p) \<le> max_orders l"
  proof -
    have "distinct (Q s p)" using assms by (simp add: pool_rep_def pool_partition_def)
    moreover have "set (Q s p) \<subseteq> {..<max_orders l}"
      using assms pool_rep_bounds(1) [OF assms] by (auto simp: pool_rep_def sizes_ok_def)
    ultimately show ?thesis using distinct_card [of "Q s p"] card_mono [of "{..<max_orders l}" "set (Q s p)"] by simp
  qed
  ultimately show ?thesis using False by (simp add: queue_at_def walk_dseg)
qed

lemma refines_queue: "lob_refines l b \<Longrightarrow> queue_at l s p = level_queue b s p"
  by (auto simp: lob_refines_def book_rep_def pool_rep_queue)

lemma refines_volume:
  assumes "lob_refines l b"
  shows "get_volume_at_price l s p = Some (spec_volume b s p)"
proof -
  from assms obtain Q F where B: "book_rep l Q F b" by (auto simp: lob_refines_def)
  note P = book_repD(1) [OF B] and q = book_repD(4) [OF B, of s p]
  show ?thesis
  proof (cases "max_price l \<le> unat p")
    case True
    with P have "Q s p = []" by (simp add: pool_rep_def)
    with q True show ?thesis by (simp add: get_volume_at_price_def spec_volume_def)
  next
    case False
    then have "total_volume (levels l s ! unat p) = sum_list (map (\<lambda>i. ord_quantity (order_pool l ! i)) (Q s p))"
      and "unat p < length (levels l s)"
      using P by (auto simp: pool_rep_def level_rep_def sizes_ok_def)
    with False show ?thesis
      by (simp add: get_volume_at_price_def spec_volume_def q [symmetric] comp_def)
  qed
qed

section \<open>Construction\<close>

lemma init_memory_pool_refines:
  assumes "init_memory_pool mmap_ok mo mp = Inr l" "0 < mo"
  shows "lob_refines l []" "lob_room l = 2 * unat mo" "max_orders l = unat mo" "max_price l = unat mp"
proof -
  obtain pool free where pf: "init_free_list (unat mo) (replicate (unat mo) zero_order) None 0 = (pool, free)"
    by fastforce
  with assms(1) have l: "l = \<lparr>max_orders = unat mo, max_price = unat mp,
      bids = replicate (unat mp) zero_level, asks = replicate (unat mp) zero_level,
      order_pool = pool, free_list_head = free, order_map = empty_map (unat mo * 2)\<rparr>"
    by (auto simp: init_memory_pool_def Let_def split: if_splits)
  show "max_orders l = unat mo" "max_price l = unat mp" by (simp_all add: l)
  show "lob_room l = 2 * unat mo" by (simp add: l lob_room_def empty_map_room)
  note ready = init_free_list_ready [OF pf]
  have lev: "levels l s = replicate (unat mp) zero_level" for s by (cases s) (simp_all add: l levels_def)
  have "pool_rep l (\<lambda>s p. []) (rev [0..<unat mo]) {}"
    using ready lev
    by (auto simp: l pool_rep_def sizes_ok_def pool_partition_def live_def level_rep_def zero_level_def)
  moreover have "0 < unat mo" using assms(2) by (simp add: word_gt_0 unat_gt_0)
  ultimately have "book_rep l (\<lambda>s p. []) (rev [0..<unat mo]) []"
    by (simp add: book_rep_def index_rep_def l empty_map_inv empty_map_abs live_def)
  then show "lob_refines l []" by (auto simp: lob_refines_def)
qed

section \<open>Add\<close>

lemma index_rep_insert:
  assumes "index_rep l L" "om_abs (order_map l) oid = None" "0 < om_room (order_map l)" "i \<notin> L"
    and "ord_id (pool ! i) = oid" "\<And>j. j \<in> L \<Longrightarrow> ord_id (pool ! j) = ord_id (order_pool l ! j)"
    and "order_map l1 = order_map l" "order_pool l1 = pool"
  obtains m where "map_insert (order_map l1) oid i = Some m"
    "index_rep (l1\<lparr>order_map := m\<rparr>) (insert i L)" "om_room (order_map l) \<le> Suc (om_room m)"
proof -
  from map_insert_law [of "order_map l" oid i] assms(1-3) obtain m
    where m: "map_insert (order_map l) oid i = Some m" "om_inv m"
      "om_abs m = (om_abs (order_map l))(oid \<mapsto> i)" "om_room (order_map l) \<le> Suc (om_room m)"
    by (auto simp: index_rep_def)
  have iff: "om_abs (order_map l) k = Some j \<longleftrightarrow> j \<in> L \<and> ord_id (order_pool l ! j) = k" for k j
    using assms(1) by (simp add: index_rep_def)
  have "om_abs m k = Some j \<longleftrightarrow> j \<in> insert i L \<and> ord_id (pool ! j) = k" for k j
  proof (cases "j = i")
    case True
    with assms(4,5) iff [of k j] m(3) show ?thesis by auto
  next
    case False
    have "j \<in> L \<Longrightarrow> ord_id (order_pool l ! j) \<noteq> oid" using assms(2) iff [of oid j] by auto
    with False assms(6) iff [of k j] m(3) show ?thesis by auto
  qed
  with m that assms(7,8) show thesis by (auto simp: index_rep_def)
qed

lemma add_accepts:
  assumes B: "book_rep l Q (i # F) b" and none: "om_abs (order_map l) oid = None"
    and room: "0 < lob_room l" and p: "unat p < max_price l"
  shows "\<exists>l'. add l oid s p q =
      Some (True, l', [log_msg INFO ''OrderBook: Added order %lu'' [ArgU (unat oid)]]) \<and>
    book_rep l' (upd_queue Q s p (Q s p @ [i])) F
      (b @ [\<lparr>r_id = oid, r_side = s, r_price = p, r_quantity = q\<rparr>]) \<and>
    lob_room l \<le> Suc (lob_room l') \<and> max_price l' = max_price l \<and> max_orders l' = max_orders l"
proof -
  note P = book_repD(1) [OF B]
  define l1 where "l1 = l\<lparr>free_list_head := ord_next (order_pool l ! i)\<rparr>"
  note al = allocate_order_some [OF P, folded l1_def]
  define l2 where "l2 = l1\<lparr>order_pool := (order_pool l1)[i := (order_pool l1 ! i)
      \<lparr>ord_id := oid, ord_side := s, ord_price := p, ord_quantity := q\<rparr>]\<rparr>"
  have set: "set_order_fields l1 i oid s p q = Some l2"
    unfolding l2_def by (rule set_order_fields_detached [OF al(2)]) simp
  have P2: "pool_rep l2 Q F {i}" unfolding l2_def using pool_rep_detached [OF al(2), of i] by simp
  have il: "i < length (order_pool l)" using pool_rep_bounds(2) [OF P] by simp
  then have i2: "order_pool l2 ! i = (order_pool l ! i)
      \<lparr>ord_id := oid, ord_side := s, ord_price := p, ord_quantity := q\<rparr>"
    by (simp add: l2_def l1_def)
  have nl: "i \<notin> live Q" using P by (auto simp: pool_rep_def pool_partition_def)
  have keep2: "j \<noteq> i \<Longrightarrow> order_pool l2 ! j = order_pool l ! j" for j by (simp add: l2_def l1_def)
  obtain l3 where l3: "insert_order l2 i = Some l3"
    "pool_rep l3 (upd_queue Q s p (Q s p @ [i])) F ({i} - {i})" "same_orders l2 l3"
    using insert_order_rep [OF P2, of i s p] i2 p by (auto simp: l2_def l1_def)
  note so = l3(3) [unfolded same_orders_def]
  have ids: "ord_id (order_pool l3 ! i) = oid"
    "j \<in> live Q \<Longrightarrow> ord_id (order_pool l3 ! j) = ord_id (order_pool l ! j)" for j
    using so i2 keep2 [of j] nl by (cases "j = i"; simp)+
  have I: "index_rep l (live Q)" using B by (simp add: book_rep_def)
  have om3: "order_map l3 = order_map l" using so by (simp add: l2_def l1_def)
  obtain m where m: "map_insert (order_map l3) oid i = Some m"
    "index_rep (l3\<lparr>order_map := m\<rparr>) (insert i (live Q))" "om_room (order_map l) \<le> Suc (om_room m)"
    using index_rep_insert [OF I none room [unfolded lob_room_def] nl ids om3 refl] .
  let ?l' = "l3\<lparr>order_map := m\<rparr>"
  have "add l oid s p q = Some (True, ?l', [log_msg INFO ''OrderBook: Added order %lu'' [ArgU (unat oid)]])"
    using p none map_find_eq [OF book_repD(2) [OF B], of oid] room al(1) set l3(1) m(1)
    by (simp add: add_def lob_room_def not_le)
  moreover have "book_rep ?l' (upd_queue Q s p (Q s p @ [i])) F
      (b @ [\<lparr>r_id = oid, r_side = s, r_price = p, r_quantity = q\<rparr>])"
    unfolding book_rep_def
  proof (intro conjI allI)
    show "pool_rep ?l' (upd_queue Q s p (Q s p @ [i])) F {}"
      using l3(2) by simp
    show "index_rep ?l' (live (upd_queue Q s p (Q s p @ [i])))"
      using m(2) by (simp add: live_upd_queue_add)
    have "map (shown ?l') (Q s' p') = map (shown l) (Q s' p')" for s' p'
      using so keep2 nl by (auto intro!: map_cong) (metis mem_liveI)+
    then show "map (shown ?l') (upd_queue Q s p (Q s p @ [i]) s' p') =
        level_queue (b @ [\<lparr>r_id = oid, r_side = s, r_price = p, r_quantity = q\<rparr>]) s' p'" for s' p'
      using book_repD(4) [OF B] so i2 by auto
    show "distinct (map r_id (b @ [\<lparr>r_id = oid, r_side = s, r_price = p, r_quantity = q\<rparr>]))"
      using book_repD(5) [OF B] none book_rep_find_None [OF B, of oid] by (simp add: spec_find_None_iff)
  qed
  moreover have "lob_room l \<le> Suc (lob_room ?l')" using m(3) by (simp add: lob_room_def)
  moreover have "max_price ?l' = max_price l" "max_orders ?l' = max_orders l"
    using so by (simp_all add: l2_def l1_def)
  ultimately show ?thesis by blast
qed

lemma add_refines:
  assumes R: "lob_refines l b"
    and room: "max_price l \<le> unat p \<or> spec_find b oid \<noteq> None \<or> 0 < lob_room l"
  shows "\<exists>l' logs. add l oid s p q = Some (fst (spec_add (max_orders l) (max_price l) b oid s p q), l', logs) \<and>
    lob_refines l' (snd (spec_add (max_orders l) (max_price l) b oid s p q)) \<and>
    lob_room l \<le> Suc (lob_room l') \<and> max_price l' = max_price l \<and> max_orders l' = max_orders l"
proof -
  from R obtain Q F where B: "book_rep l Q F b" by (auto simp: lob_refines_def)
  note P = book_repD(1) [OF B] and none = book_rep_find_None [OF B, of oid]
  note find = map_find_eq [OF book_repD(2) [OF B], of oid]
  consider (price) "max_price l \<le> unat p" | (dup) "unat p < max_price l" "spec_find b oid \<noteq> None"
    | (full) "unat p < max_price l" "spec_find b oid = None" "F = []"
    | (ok) i F' where "unat p < max_price l" "spec_find b oid = None" "F = i # F'"
    by (cases F) force+
  then show ?thesis
  proof cases
    case price
    with R show ?thesis by (simp add: add_def spec_add_def)
  next
    case dup
    then have "map_find (order_map l) oid = Some (om_abs (order_map l) oid)" "om_abs (order_map l) oid \<noteq> None"
      using find none by auto
    with dup R show ?thesis by (auto simp: add_def spec_add_def)
  next
    case full
    then have "map_find (order_map l) oid = Some None" using find none room by (simp add: lob_room_def)
    moreover have "allocate_order l = Some (None, l)" using allocate_order_none P full(3) by blast
    moreover have "max_orders l \<le> length b" using book_rep_length [OF B] full(3) by simp
    ultimately show ?thesis using full R by (auto simp: add_def spec_add_def)
  next
    case (ok i F')
    have "length b < max_orders l" using book_rep_length [OF B] ok(3) by simp
    with ok add_accepts [of l Q i F' b oid p s q] B none room show ?thesis
      by (fastforce simp: spec_add_def lob_refines_def)
  qed
qed

section \<open>Cancel\<close>

lemma upd_queue_remove:
  assumes "pool_rep l Q F D" "i \<in> set (Q s p)"
  shows "upd_queue Q s p (remove1 i (Q s p)) = (\<lambda>s' p'. filter (\<lambda>j. j \<noteq> i) (Q s' p'))"
proof (intro ext)
  fix s' p'
  have d: "distinct (Q s p)" using pool_rep_levelD(6) [OF assms] .
  show "upd_queue Q s p (remove1 i (Q s p)) s' p' = filter (\<lambda>j. j \<noteq> i) (Q s' p')"
  proof (cases "(s', p') = (s, p)")
    case True
    with d show ?thesis by (simp add: distinct_remove1_removeAll removeAll_filter_not_eq eq_commute)
  next
    case False
    then have "i \<notin> set (Q s' p')" using pool_rep_disjoint [OF assms(1) False] assms(2) by auto
    then have "filter (\<lambda>j. j \<noteq> i) (Q s' p') = Q s' p'" by (auto intro: filter_True)
    with False show ?thesis by auto
  qed
qed

lemma live_filter: "live (\<lambda>s p. filter (\<lambda>j. j \<noteq> i) (Q s p)) = live Q - {i}"
  by (auto simp: live_def)

lemma shown_filter:
  assumes "book_rep l Q F b" "om_abs (order_map l) oid = Some i"
  shows "map (shown l) (filter (\<lambda>j. j \<noteq> i) (Q s p)) =
         level_queue (filter (\<lambda>r. r_id r \<noteq> oid) b) s p"
proof -
  have "filter (\<lambda>j. j \<noteq> i) (Q s p) = filter (\<lambda>j. ord_id (order_pool l ! j) \<noteq> oid) (Q s p)"
  proof (rule filter_cong [OF refl])
    fix j assume "j \<in> set (Q s p)"
    then have "j \<in> live Q" by blast
    with book_repD(3) [OF assms(1), of oid j] assms(2)
    show "j \<noteq> i \<longleftrightarrow> ord_id (order_pool l ! j) \<noteq> oid" by auto
  qed
  then show ?thesis
    unfolding level_queue_filter_id book_repD(4) [OF assms(1), symmetric]
    by (simp add: filter_map comp_def)
qed

lemma index_rep_erase:
  assumes "index_rep l L" "om_abs (order_map l) oid = Some i"
    and "\<And>j. ord_id (order_pool l1 ! j) = ord_id (order_pool l ! j)" "order_map l1 = order_map l"
  obtains m where "map_erase (order_map l1) oid = Some m"
    "index_rep (l1\<lparr>order_map := m\<rparr>) (L - {i})" "om_room m = om_room (order_map l)"
proof -
  from map_erase_law [of "order_map l" oid] assms(1,2) obtain m
    where m: "map_erase (order_map l) oid = Some m" "om_inv m"
      "om_abs m = (om_abs (order_map l))(oid := None)" "om_room m = om_room (order_map l)"
    by (auto simp: index_rep_def)
  have iff: "om_abs (order_map l) k = Some j \<longleftrightarrow> j \<in> L \<and> ord_id (order_pool l ! j) = k" for k j
    using assms(1) by (simp add: index_rep_def)
  have "om_abs m k = Some j \<longleftrightarrow> j \<in> L - {i} \<and> ord_id (order_pool l ! j) = k" for k j
    using iff [of k j] iff [of oid j] iff [of oid i] assms(2) m(3) by auto
  with m that assms(3,4) show thesis by (auto simp: index_rep_def)
qed

lemma cancel_accepts:
  assumes B: "book_rep l Q F b" and some: "om_abs (order_map l) oid = Some i"
  shows "\<exists>l'. cancel l oid =
      Some (True, l', [log_msg INFO ''OrderBook: Canceled order %lu'' [ArgU (unat oid)]]) \<and>
    book_rep l' (\<lambda>s p. filter (\<lambda>j. j \<noteq> i) (Q s p)) (i # F) (filter (\<lambda>r. r_id r \<noteq> oid) b) \<and>
    lob_room l' = lob_room l \<and> max_price l' = max_price l \<and> max_orders l' = max_orders l"
proof -
  let ?Q = "\<lambda>s p. filter (\<lambda>j. j \<noteq> i) (Q s p)"
  note P = book_repD(1) [OF B]
  from book_rep_find_Some [OF B some] obtain s p where i: "i \<in> set (Q s p)" by metis
  obtain l1 where l1: "remove_order l i = Some l1" "pool_rep l1 ?Q F {i}" "same_orders l l1"
    using remove_order_rep [OF P i] upd_queue_remove [OF P i] by metis
  note so = l1(3) [unfolded same_orders_def]
  have I: "index_rep l (live Q)" using B by (simp add: book_rep_def)
  obtain m where m: "map_erase (order_map l1) oid = Some m"
    "index_rep (l1\<lparr>order_map := m\<rparr>) (live Q - {i})" "om_room m = om_room (order_map l)"
    using index_rep_erase [OF I some, of l1] so by metis
  define l2 where "l2 = l1\<lparr>order_map := m\<rparr>"
  have P2: "pool_rep l2 ?Q F {i}" using l1(2) by (simp add: l2_def)
  define l' where "l' = l2\<lparr>order_pool := (order_pool l2)[i := (order_pool l2 ! i)
      \<lparr>ord_next := free_list_head l2\<rparr>], free_list_head := Some i\<rparr>"
  note de = deallocate_order_rep [OF P2 _ l'_def]
  have il: "i < length (order_pool l1)" using pool_rep_levelD(7) [OF P i] so by simp
  then have "order_pool l' ! j = (if j = i then (order_pool l1 ! i)\<lparr>ord_next := free_list_head l1\<rparr>
      else order_pool l1 ! j)" for j by (simp add: l'_def l2_def)
  then have ids: "ord_id (order_pool l' ! j) = ord_id (order_pool l ! j)"
    "ord_quantity (order_pool l' ! j) = ord_quantity (order_pool l ! j)" for j
    using so by simp_all
  have "cancel l oid = Some (True, l', [log_msg INFO ''OrderBook: Canceled order %lu'' [ArgU (unat oid)]])"
    using map_find_eq [OF book_repD(2) [OF B], of oid] some l1(1) m(1) de(1)
    by (simp add: cancel_def l2_def)
  moreover have "book_rep l' ?Q (i # F) (filter (\<lambda>r. r_id r \<noteq> oid) b)"
    unfolding book_rep_def
  proof (intro conjI allI)
    show "pool_rep l' ?Q (i # F) {}" using de(2) by simp
    show "index_rep l' (live ?Q)" using m(2) ids so by (simp add: live_filter index_rep_def l'_def l2_def)
    show "map (shown l') (?Q s p) = level_queue (filter (\<lambda>r. r_id r \<noteq> oid) b) s p" for s p
      using shown_filter [OF B some, of s p] by (simp add: ids)
    show "distinct (map r_id (filter (\<lambda>r. r_id r \<noteq> oid) b))"
      using book_repD(5) [OF B] by (rule distinct_map_filter)
  qed
  moreover have "lob_room l' = lob_room l" using m(3) by (simp add: lob_room_def l'_def l2_def)
  moreover have "max_price l' = max_price l" "max_orders l' = max_orders l"
    using so by (simp_all add: l'_def l2_def)
  ultimately show ?thesis by blast
qed

lemma cancel_refines:
  assumes R: "lob_refines l b" and room: "spec_find b oid \<noteq> None \<or> 0 < lob_room l"
  shows "\<exists>l' logs. cancel l oid = Some (fst (spec_cancel b oid), l', logs) \<and>
    lob_refines l' (snd (spec_cancel b oid)) \<and>
    lob_room l' = lob_room l \<and> max_price l' = max_price l \<and> max_orders l' = max_orders l"
proof -
  from R obtain Q F where B: "book_rep l Q F b" by (auto simp: lob_refines_def)
  note none = book_rep_find_None [OF B, of oid]
  show ?thesis
  proof (cases "om_abs (order_map l) oid")
    case None
    with none room have "map_find (order_map l) oid = Some None"
      using map_find_eq [OF book_repD(2) [OF B], of oid] by (simp add: lob_room_def)
    with None none R show ?thesis by (auto simp: cancel_def spec_cancel_def)
  next
    case (Some i)
    with none have "spec_find b oid \<noteq> None" by auto
    with cancel_accepts [OF B Some] show ?thesis by (auto simp: spec_cancel_def lob_refines_def)
  qed
qed

section \<open>Modify\<close>

lemma index_rep_keep:
  assumes "index_rep l L" "order_map l' = order_map l"
    and "\<And>j. ord_id (order_pool l' ! j) = ord_id (order_pool l ! j)"
  shows "index_rep l' L"
  using assms by (simp add: index_rep_def)

lemma modify_up_refines:
  assumes B: "book_rep l Q F b" and some: "om_abs (order_map l) oid = Some i"
    and i: "i \<in> set (Q s p)" and q: "q \<noteq> 0" "ord_quantity (order_pool l ! i) < q"
  shows "\<exists>l'. modify l oid q = Some (True, l', []) \<and>
    lob_refines l' (filter (\<lambda>r. r_id r \<noteq> oid) b @
      [\<lparr>r_id = oid, r_side = s, r_price = p, r_quantity = q\<rparr>]) \<and>
    lob_room l' = lob_room l \<and> max_price l' = max_price l \<and> max_orders l' = max_orders l"
proof -
  let ?Q = "\<lambda>s p. filter (\<lambda>j. j \<noteq> i) (Q s p)"
  let ?r = "\<lparr>r_id = oid, r_side = s, r_price = p, r_quantity = q\<rparr>"
  note P = book_repD(1) [OF B]
  note L = pool_rep_levelD [OF P i]
  obtain l1 where l1: "remove_order l i = Some l1" "pool_rep l1 ?Q F {i}" "same_orders l l1"
    using remove_order_rep [OF P i] upd_queue_remove [OF P i] by metis
  note so1 = l1(3) [unfolded same_orders_def]
  define l2 where "l2 = l1\<lparr>order_pool := (order_pool l1)[i := (order_pool l1 ! i)\<lparr>ord_quantity := q\<rparr>]\<rparr>"
  have set: "set_order_quantity l1 i q = Some l2"
    unfolding l2_def by (rule set_order_quantity_detached [OF l1(2)]) simp
  have P2: "pool_rep l2 ?Q F {i}" unfolding l2_def using pool_rep_detached [OF l1(2), of i] by simp
  have l2i: "order_pool l2 ! i = (order_pool l1 ! i)\<lparr>ord_quantity := q\<rparr>"
    using L(7) so1 by (simp add: l2_def)
  have l2j: "j \<noteq> i \<Longrightarrow> order_pool l2 ! j = order_pool l1 ! j" for j by (simp add: l2_def)
  have m2: "max_price l2 = max_price l" "max_orders l2 = max_orders l" "order_map l2 = order_map l"
    using so1 by (simp_all add: l2_def)
  obtain l3 where l3: "insert_order l2 i = Some l3"
    "pool_rep l3 (upd_queue ?Q s p (?Q s p @ [i])) F ({i} - {i})" "same_orders l2 l3"
  proof -
    have "ord_side (order_pool l2 ! i) = s" "ord_price (order_pool l2 ! i) = p" "unat p < max_price l2"
      using l2i so1 L(1,3,4) m2 by simp_all
    from insert_order_rep [OF P2 singletonI this] that show thesis by blast
  qed
  note so3 = l3(3) [unfolded same_orders_def]
  have ids: "ord_id (order_pool l3 ! j) = ord_id (order_pool l ! j)" for j
    using so1 so3 l2i l2j [of j] by (cases "j = i") auto
  have "modify l oid q = Some (True, l3, [])"
    using map_find_eq [OF book_repD(2) [OF B], of oid] some q L l1(1) set l3(1)
    by (simp add: modify_def)
  moreover have "book_rep l3 (upd_queue ?Q s p (?Q s p @ [i])) F (filter (\<lambda>r. r_id r \<noteq> oid) b @ [?r])"
    unfolding book_rep_def
  proof (intro conjI allI)
    show "pool_rep l3 (upd_queue ?Q s p (?Q s p @ [i])) F {}" using l3(2) by simp
    have "live (upd_queue ?Q s p (?Q s p @ [i])) = insert i (live ?Q)" by (rule live_upd_queue_add)
    also have "\<dots> = live Q" using i by (auto simp: live_filter)
    finally have lv: "live (upd_queue ?Q s p (?Q s p @ [i])) = live Q" .
    have om: "order_map l3 = order_map l" using so3 m2 by simp
    have "index_rep l (live Q)" using B by (simp add: book_rep_def)
    from index_rep_keep [OF this om ids] lv
    show "index_rep l3 (live (upd_queue ?Q s p (?Q s p @ [i])))" by simp
    have "shown l3 j = shown l j" if "j \<noteq> i" for j
      using so1 so3 l2j [OF that] by simp
    then have keep: "map (shown l3) (?Q s' p') = map (shown l) (?Q s' p')" for s' p' by simp
    have "ord_id (order_pool l ! i) = oid" using book_repD(3) [OF B] some by blast
    then have "shown l3 i = (oid, q)" using ids [of i] so3 l2i by simp
    then show "map (shown l3) (upd_queue ?Q s p (?Q s p @ [i]) s' p') =
        level_queue (filter (\<lambda>r. r_id r \<noteq> oid) b @ [?r]) s' p'" for s' p'
      using keep [of s' p'] shown_filter [OF B some, of s' p'] by auto
    show "distinct (map r_id (filter (\<lambda>r. r_id r \<noteq> oid) b @ [?r]))"
      using distinct_map_filter [OF book_repD(5) [OF B]] by auto
  qed
  moreover have "lob_room l3 = lob_room l" "max_price l3 = max_price l" "max_orders l3 = max_orders l"
    using so3 m2 by (simp_all add: lob_room_def)
  ultimately show ?thesis unfolding lob_refines_def by blast
qed

lemma set_quantity_rep:
  assumes R: "pool_rep l Q F {}" and i: "i \<in> set (Q s p)"
    and lv: "lv = levels l s ! unat p"
    and l': "l' = set_levels (l\<lparr>order_pool := (order_pool l)[i := (order_pool l ! i)\<lparr>ord_quantity := q\<rparr>]\<rparr>) s
      ((levels l s)[unat p := lv\<lparr>total_volume :=
         total_volume lv - (ord_quantity (order_pool l ! i) - q)\<rparr>])"
  shows "pool_rep l' Q F {}"
proof -
  note L = pool_rep_levelD [OF R i]
  let ?pool = "(order_pool l)[i := (order_pool l ! i)\<lparr>ord_quantity := q\<rparr>]"
  have links: "ord_prev (?pool ! j) = ord_prev (order_pool l ! j)" "ord_next (?pool ! j) = ord_next (order_pool l ! j)"
    "ord_side (?pool ! j) = ord_side (order_pool l ! j)" "ord_price (?pool ! j) = ord_price (order_pool l ! j)" for j
    using L(7) by (cases "j = i"; simp)+
  obtain ys zs where q: "Q s p = ys @ i # zs" using i by (auto simp: in_set_conv_decomp)
  with L(6) have ni: "i \<notin> set ys" "i \<notin> set zs" by auto
  have "pool_rep l' (upd_queue Q s p (Q s p)) F {}"
  proof (rule pool_rep_step [OF R, where C = "set (Q s p)"
        and lv = "lv\<lparr>total_volume := total_volume lv - (ord_quantity (order_pool l ! i) - q)\<rparr>"])
    show "set (Q s p) \<inter> set (Q s' p') = {}" if "(s', p') \<noteq> (s, p)" for s' p'
      using pool_rep_disjoint [OF R that] by blast
    have "dseg ?pool None (lv_head lv) (Q s p) (lv_tail lv) None"
      using L(5) by (subst dseg_cong [of _ _ "order_pool l"]) (auto simp: links level_rep_def lv)
    moreover have "total_volume lv - (ord_quantity (order_pool l ! i) - q)
        = sum_list (map (\<lambda>j. ord_quantity (?pool ! j)) (Q s p))"
      using L(5,7) ni
      by (simp add: level_rep_def lv q sum_list_map_update_other [where f = ord_quantity] algebra_simps)
    ultimately show "level_rep (order_pool l') (lv\<lparr>total_volume := total_volume lv
        - (ord_quantity (order_pool l ! i) - q)\<rparr>) (Q s p)"
      by (simp add: level_rep_def l')
    show "free_chain (order_pool l') (free_list_head l') F"
    proof -
      have "?pool ! j = order_pool l ! j" if "j \<notin> live Q" for j
        using that i by (metis mem_liveI nth_list_update_neq)
      then show ?thesis unfolding l' by simp (rule free_chain_keep [OF R], simp)
    qed
    show "\<forall>j \<in> set (Q s p). ord_side (order_pool l' ! j) = s \<and> ord_price (order_pool l' ! j) = p"
      using R by (auto simp: links l' pool_rep_def)
    show "pool_partition (max_orders l) (upd_queue Q s p (Q s p)) F {}"
      using R by (simp add: pool_rep_def)
    show "order_pool l' ! j = order_pool l ! j" if "j \<notin> set (Q s p)" for j
      unfolding l' using that i by (cases "j = i") simp_all
  qed (use L in \<open>simp_all add: l'\<close>)
  then show ?thesis by simp
qed

lemma modify_down_refines:
  assumes B: "book_rep l Q F b" and some: "om_abs (order_map l) oid = Some i"
    and i: "i \<in> set (Q s p)" and q: "q \<noteq> 0" "\<not> ord_quantity (order_pool l ! i) < q"
  shows "\<exists>l'. modify l oid q = Some (True, l', []) \<and>
    lob_refines l' (map (\<lambda>r. if r_id r = oid then r\<lparr>r_quantity := q\<rparr> else r) b) \<and>
    lob_room l' = lob_room l \<and> max_price l' = max_price l \<and> max_orders l' = max_orders l"
proof -
  let ?b = "map (\<lambda>r. if r_id r = oid then r\<lparr>r_quantity := q\<rparr> else r) b"
  note P = book_repD(1) [OF B]
  note L = pool_rep_levelD [OF P i]
  define lv where "lv = levels l s ! unat p"
  define l' where "l' = set_levels (l\<lparr>order_pool := (order_pool l)[i := (order_pool l ! i)\<lparr>ord_quantity := q\<rparr>]\<rparr>) s
      ((levels l s)[unat p := lv\<lparr>total_volume :=
         total_volume lv - (ord_quantity (order_pool l ! i) - q)\<rparr>])"
  note P' = set_quantity_rep [OF P i lv_def l'_def]
  have pj: "order_pool l' ! j = (if j = i then (order_pool l ! i)\<lparr>ord_quantity := q\<rparr> else order_pool l ! j)" for j
    using L(7) by (simp add: l'_def)
  have "modify l oid q = Some (True, l', [])"
    using map_find_eq [OF book_repD(2) [OF B], of oid] some q L
    by (cases s) (simp_all add: modify_def write_level_def set_order_quantity_def l'_def lv_def set_levels_def)
  moreover have "book_rep l' Q F ?b"
    unfolding book_rep_def
  proof (intro conjI allI)
    show "pool_rep l' Q F {}" by (rule P')
    have "index_rep l (live Q)" using B by (simp add: book_rep_def)
    then show "index_rep l' (live Q)" by (rule index_rep_keep) (simp_all add: pj, simp add: l'_def)
    have "shown l' j = (if fst (shown l j) = oid then (oid, q) else shown l j)" if "j \<in> live Q" for j
      using book_repD(3) [OF B, of oid j] some that by (auto simp: pj)
    then have "map (shown l') (Q s p) = map (\<lambda>x. if fst x = oid then (oid, q) else x) (map (shown l) (Q s p))" for s p
      unfolding map_map comp_def by (intro map_cong refl) blast
    then show "map (shown l') (Q s p) = level_queue ?b s p" for s p
      unfolding level_queue_set_quantity book_repD(4) [OF B] .
    have "map r_id ?b = map r_id b" by auto
    then show "distinct (map r_id ?b)" using book_repD(5) [OF B] by (simp only:)
  qed
  moreover have "lob_room l' = lob_room l" "max_price l' = max_price l" "max_orders l' = max_orders l"
    by (simp_all add: l'_def lob_room_def)
  ultimately show ?thesis unfolding lob_refines_def by blast
qed

lemma modify_refines:
  assumes R: "lob_refines l b" and room: "spec_find b oid \<noteq> None \<or> 0 < lob_room l"
  shows "\<exists>l' logs. modify l oid q = Some (fst (spec_modify b oid q), l', logs) \<and>
    lob_refines l' (snd (spec_modify b oid q)) \<and>
    lob_room l' = lob_room l \<and> max_price l' = max_price l \<and> max_orders l' = max_orders l"
proof -
  from R obtain Q F where B: "book_rep l Q F b" by (auto simp: lob_refines_def)
  note none = book_rep_find_None [OF B, of oid]
  note find = map_find_eq [OF book_repD(2) [OF B], of oid]
  show ?thesis
  proof (cases "om_abs (order_map l) oid")
    case None
    with none room have "map_find (order_map l) oid = Some None" using find by (simp add: lob_room_def)
    with None none R show ?thesis by (auto simp: modify_def spec_modify_def)
  next
    case (Some i)
    from book_rep_find_Some [OF B Some] obtain s p where i: "i \<in> set (Q s p)"
      and f: "spec_find b oid = Some \<lparr>r_id = oid, r_side = s, r_price = p,
         r_quantity = ord_quantity (order_pool l ! i)\<rparr>" by metis
    show ?thesis
    proof (cases "q = 0")
      case True
      have "modify l oid q = cancel l oid" using True find Some by (simp add: modify_def)
      then show ?thesis using cancel_refines [OF R room] f True by (simp add: spec_modify_def)
    next
      case False
      then show ?thesis
        using modify_up_refines [OF B Some i False] modify_down_refines [OF B Some i False] f
        by (cases "ord_quantity (order_pool l ! i) < q") (auto simp: spec_modify_def)
    qed
  qed
qed

end
