(* ===== verification/Bounded_Sim.thy ===== *)
theory Bounded_Sim
  imports HFT_Prelude
begin

text \<open>
  The general shape of the refinement theorems for components over hash tables: a component that
  follows its specification step by step as long as it has room left, where a step uses up a
  bounded amount of room. It is interpreted on the order book and on the execution management
  system.
\<close>

section \<open>Simulation with bounded room\<close>

primrec run_steps :: "('s \<Rightarrow> 'c \<Rightarrow> ('r \<times> 's) option) \<Rightarrow> 's \<Rightarrow> 'c list \<Rightarrow> ('r list \<times> 's) option" where
  "run_steps step s [] = Some ([], s)"
| "run_steps step s (c # cs) = do {
     (r, s) \<leftarrow> step s c;
     (rs, s) \<leftarrow> run_steps step s cs;
     Some (r # rs, s) }"

primrec run_spec :: "('b \<Rightarrow> 'c \<Rightarrow> 'r \<times> 'b) \<Rightarrow> 'b \<Rightarrow> 'c list \<Rightarrow> 'r list \<times> 'b" where
  "run_spec spec b [] = ([], b)"
| "run_spec spec b (c # cs) =
     (let (r, b) = spec b c; (rs, b) = run_spec spec b cs in (r # rs, b))"

locale bounded_sim =
  fixes step :: "'s \<Rightarrow> 'c \<Rightarrow> ('r \<times> 's) option"
    and spec :: "'b \<Rightarrow> 'c \<Rightarrow> 'r \<times> 'b"
    and rel :: "'s \<Rightarrow> 'b \<Rightarrow> bool"
    and left :: "'s \<Rightarrow> nat"
    and cost :: "'c \<Rightarrow> nat"
  assumes sim: "rel s b \<Longrightarrow> 0 < left s \<Longrightarrow>
      \<exists>s'. step s c = Some (fst (spec b c), s') \<and> rel s' (snd (spec b c)) \<and> left s \<le> left s' + cost c"
begin

lemma run_sim:
  assumes "rel s b" "sum_list (map cost cs) < left s"
  shows "\<exists>s'. run_steps step s cs = Some (fst (run_spec spec b cs), s') \<and>
              rel s' (snd (run_spec spec b cs)) \<and> left s \<le> left s' + sum_list (map cost cs)"
  using assms
proof (induction cs arbitrary: s b)
  case Nil
  then show ?case by simp
next
  case (Cons c cs)
  from Cons.prems have "0 < left s" by simp
  from sim [OF Cons.prems(1) this, of c] obtain s1
    where s1: "step s c = Some (fst (spec b c), s1)" "rel s1 (snd (spec b c))"
      "left s \<le> left s1 + cost c" by auto
  then have "sum_list (map cost cs) < left s1" using Cons.prems(2) by simp
  from Cons.IH [OF s1(2) this] s1 show ?case by (auto simp: case_prod_beta Let_def)
qed

end

end
