(* ===== verification/Order_Book_Props.thy ===== *)
theory Order_Book_Props
  imports Order_Book_Correct Bounded_Sim
begin

text \<open>
  The properties of the order book: sequences of operations on a freshly constructed book, the
  observable effect of each operation on the queues and volumes, the layout of the mapping, and
  the state in which the probing loops no longer return.
\<close>

section \<open>Sequences of operations\<close>

datatype book_cmd = Add u64 Side u64 u64 | Cancel u64 | Modify u64 u64

primrec lob_step :: "LimitOrderBook \<Rightarrow> book_cmd \<Rightarrow> (bool \<times> LimitOrderBook) option" where
  "lob_step l (Add oid s p q) = map_option (\<lambda>(r, l', logs). (r, l')) (add l oid s p q)"
| "lob_step l (Cancel oid) = map_option (\<lambda>(r, l', logs). (r, l')) (cancel l oid)"
| "lob_step l (Modify oid q) = map_option (\<lambda>(r, l', logs). (r, l')) (modify l oid q)"

primrec spec_step :: "nat \<Rightarrow> nat \<Rightarrow> resting list \<Rightarrow> book_cmd \<Rightarrow> bool \<times> resting list" where
  "spec_step n m b (Add oid s p q) = spec_add n m b oid s p q"
| "spec_step n m b (Cancel oid) = spec_cancel b oid"
| "spec_step n m b (Modify oid q) = spec_modify b oid q"

primrec slots_used :: "book_cmd \<Rightarrow> nat" where
  "slots_used (Add oid s p q) = 1"
| "slots_used (Cancel oid) = 0"
| "slots_used (Modify oid q) = 0"

definition sized_refines :: "nat \<Rightarrow> nat \<Rightarrow> LimitOrderBook \<Rightarrow> resting list \<Rightarrow> bool" where
  "sized_refines n m l b \<longleftrightarrow> lob_refines l b \<and> max_orders l = n \<and> max_price l = m"

interpretation lob: bounded_sim lob_step "spec_step n m" "sized_refines n m" lob_room slots_used for n m
proof (unfold_locales, goal_cases)
  case (1 l b c)
  then have R: "lob_refines l b" and nm: "max_orders l = n" "max_price l = m" by (auto simp: sized_refines_def)
  show ?case
  proof (cases c)
    case (Add oid s p q)
    with add_refines [OF R, of p oid s q] 1(2) nm show ?thesis by (auto simp: sized_refines_def)
  next
    case (Cancel oid)
    with cancel_refines [OF R, of oid] 1(2) nm show ?thesis by (fastforce simp: sized_refines_def)
  next
    case (Modify oid q)
    with modify_refines [OF R, of oid q] 1(2) nm show ?thesis by (fastforce simp: sized_refines_def)
  qed
qed

section \<open>What the operations do to the hash map\<close>

lemma insert_order_frame [frame]: "insert_order l i = Some l' \<Longrightarrow> order_map l' = order_map l"
  by (auto simp: insert_order_def write_level_def bind_eq_Some_conv split: option.splits)

lemma remove_order_frame [frame]: "remove_order l i = Some l' \<Longrightarrow> order_map l' = order_map l"
  by (auto simp: remove_order_def write_level_def bind_eq_Some_conv split: option.splits)

lemma allocate_order_frame [frame]: "allocate_order l = Some (r, l') \<Longrightarrow> order_map l' = order_map l"
  by (auto simp: allocate_order_def bind_eq_Some_conv split: option.splits)

lemma set_order_fields_frame [frame]:
  "set_order_fields l i oid s p q = Some l' \<Longrightarrow> order_map l' = order_map l"
  by (auto simp: set_order_fields_def bind_eq_Some_conv)

lemma deallocate_order_frame [frame]: "deallocate_order l i = Some l' \<Longrightarrow> order_map l' = order_map l"
  by (auto simp: deallocate_order_def bind_eq_Some_conv)

lemma add_map_insert:
  "add l oid s p q = Some (True, l', logs) \<Longrightarrow> \<exists>i. map_insert (order_map l) oid i = Some (order_map l')"
  by (auto simp: add_def bind_eq_Some_conv dest!: frame split: if_splits option.splits) blast

lemma cancel_map_erase:
  "cancel l oid = Some (True, l', logs) \<Longrightarrow> map_erase (order_map l) oid = Some (order_map l')"
  by (auto simp: cancel_def bind_eq_Some_conv dest!: frame split: option.splits)

section \<open>A table full of tombstones\<close>

text \<open>The table after adding and cancelling the ids \<open>0, \<dots>, k - 1\<close> in turn.\<close>

definition tombs :: "nat \<Rightarrow> nat \<Rightarrow> HashEntry list" where
  "tombs n k = map (\<lambda>j. if j < k then \<lparr>hm_key = of_nat j, hm_value = TOMBSTONE\<rparr>
                          else \<lparr>hm_key = 0, hm_value = NULLPTR\<rparr>) [0..<n]"

lemma tombs_0: "tombs n 0 = empty_map n"
  by (simp add: tombs_def empty_map_def list_eq_iff_nth_eq)

lemma tombs_room: "om_room (tombs n n) = 0"
  by (simp add: om_room_def room_def tombs_def hm_nul_def filter_empty_conv)

lemma home_of_nat: "k < n \<Longrightarrow> n \<le> 2 ^ 64 \<Longrightarrow> unat (of_nat k :: u64) mod n = k"
  by (simp add: unat_of_nat take_bit_eq_mod)

lemma map_insert_tombs:
  assumes "k < n" "n \<le> 2 ^ 64"
  shows "map_insert (tombs n k) (of_nat k) i =
      Some ((tombs n k)[k := \<lparr>hm_key = of_nat k, hm_value = Addr i\<rparr>])"
proof -
  have "length (tombs n k) = n" "hm_value (tombs n k ! k) = NULLPTR" using assms(1) by (simp_all add: tombs_def)
  with assms show ?thesis
    by (simp add: map_insert_def home_of_nat) (subst map_insert_loop.simps, simp)
qed

lemma map_erase_tombs:
  assumes "k < n" "n \<le> 2 ^ 64"
  shows "map_erase ((tombs n k)[k := \<lparr>hm_key = of_nat k, hm_value = Addr i\<rparr>]) (of_nat k) =
      Some (tombs n (Suc k))"
proof -
  have "(tombs n k)[k := \<lparr>hm_key = of_nat k, hm_value = TOMBSTONE\<rparr>] = tombs n (Suc k)"
    using assms by (auto simp: tombs_def list_eq_iff_nth_eq nth_list_update)
  moreover have "length (tombs n k) = n" by (simp add: tombs_def)
  ultimately show ?thesis
    using assms by (simp add: map_erase_def home_of_nat) (subst map_erase_loop.simps, simp)
qed

fun churn :: "nat \<Rightarrow> book_cmd list" where
  "churn 0 = []"
| "churn (Suc k) = churn k @ [Add (of_nat k) BUY 0 1, Cancel (of_nat k)]"

lemma run_steps_append:
  "run_steps step s (cs @ ds) = do {
     (rs, s) \<leftarrow> run_steps step s cs; (qs, s) \<leftarrow> run_steps step s ds; Some (rs @ qs, s) }"
  by (induction cs arbitrary: s) (auto simp: bind_eq_Some_conv split: bind_splits prod.splits)

lemma room_tombs_pos: "k < n \<Longrightarrow> 0 < om_room (tombs n k)"
  by (auto simp: om_room_def room_pos_iff tombs_def hm_nul_def)

lemma churn_step:
  assumes "lob_refines l []" "order_map l = tombs n k" "k < n" "n \<le> 2 ^ 64"
    and "0 < max_price l" "0 < max_orders l"
  shows "\<exists>l'. run_steps lob_step l [Add (of_nat k) BUY 0 1, Cancel (of_nat k)] = Some ([True, True], l') \<and>
    lob_refines l' [] \<and> order_map l' = tombs n (Suc k) \<and> max_price l' = max_price l \<and> max_orders l' = max_orders l"
proof -
  have "0 < lob_room l" using room_tombs_pos [OF assms(3)] assms(2) by (simp add: lob_room_def)
  with add_refines [OF assms(1), of 0 "of_nat k" BUY 1] assms(5,6)
  obtain l1 logs where l1: "add l (of_nat k) BUY 0 1 = Some (True, l1, logs)"
    "lob_refines l1 [\<lparr>r_id = of_nat k, r_side = BUY, r_price = 0, r_quantity = 1\<rparr>]"
    "max_price l1 = max_price l" "max_orders l1 = max_orders l"
    by (auto simp: spec_add_def spec_find_def)
  from add_map_insert [OF l1(1)] map_insert_tombs [OF assms(3,4)] assms(2) obtain i
    where m1: "order_map l1 = (tombs n k)[k := \<lparr>hm_key = of_nat k, hm_value = Addr i\<rparr>]" by (auto dest: sym)
  from cancel_refines [OF l1(2), of "of_nat k"]
  obtain l2 logs2 where l2: "cancel l1 (of_nat k) = Some (True, l2, logs2)" "lob_refines l2 []"
    "max_price l2 = max_price l1" "max_orders l2 = max_orders l1"
    by (auto simp: spec_cancel_def spec_find_def)
  from cancel_map_erase [OF l2(1)] m1 map_erase_tombs [OF assms(3,4)]
  have "order_map l2 = tombs n (Suc k)" by simp
  with l1 l2 show ?thesis by simp
qed

lemma churn_run:
  assumes "lob_refines l []" "order_map l = tombs n 0" "n \<le> 2 ^ 64" "0 < max_price l" "0 < max_orders l"
    and "k \<le> n"
  shows "\<exists>l'. run_steps lob_step l (churn k) = Some (replicate (2 * k) True, l') \<and>
    lob_refines l' [] \<and> order_map l' = tombs n k \<and> max_price l' = max_price l \<and> max_orders l' = max_orders l"
  using assms(6)
proof (induction k)
  case 0
  with assms show ?case by simp
next
  case (Suc k)
  then obtain l1 where l1: "run_steps lob_step l (churn k) = Some (replicate (2 * k) True, l1)"
    "lob_refines l1 []" "order_map l1 = tombs n k" "max_price l1 = max_price l" "max_orders l1 = max_orders l"
    by auto
  from churn_step [OF l1(2,3) _ assms(3)] Suc.prems assms(4,5) l1(4,5)
  obtain l2 where l2: "run_steps lob_step l1 [Add (of_nat k) BUY 0 1, Cancel (of_nat k)] = Some ([True, True], l2)"
    "lob_refines l2 []" "order_map l2 = tombs n (Suc k)" "max_price l2 = max_price l" "max_orders l2 = max_orders l"
    by auto
  have "run_steps lob_step l (churn (Suc k)) = Some (replicate (2 * k) True @ [True, True], l2)"
    using l1(1) l2(1) by (simp add: run_steps_append del: run_steps.simps)
  moreover have "replicate (2 * k) True @ [True, True] = replicate (2 * Suc k) True"
    by (simp add: replicate_append_same [symmetric])
  ultimately show ?case using l2 by (metis (no_types, lifting))
qed

lemma full_table_hangs:
  assumes "lob_refines l b" "lob_room l = 0" "spec_find b oid = None"
  shows "cancel l oid = None" "modify l oid q = None" "unat p < max_price l \<Longrightarrow> add l oid s p q = None"
proof -
  from assms(1) obtain Q F where B: "book_rep l Q F b" by (auto simp: lob_refines_def)
  have "map_find (order_map l) oid = None"
    using map_find_stuck [OF book_repD(2) [OF B]] book_rep_find_None [OF B] assms by (simp add: lob_room_def)
  then show "cancel l oid = None" "modify l oid q = None" "unat p < max_price l \<Longrightarrow> add l oid s p q = None"
    by (simp_all add: cancel_def modify_def add_def)
qed

section \<open>Queues seen from outside\<close>

lemma volume_of_queue:
  "lob_refines l b \<Longrightarrow> get_volume_at_price l s p = Some (sum_list (map snd (queue_at l s p)))"
  by (simp add: refines_volume refines_queue spec_volume_def)

lemma lookup_present:
  assumes "lob_refines l b" "spec_find b oid = Some r"
  shows "\<exists>i < max_orders l. get_order l oid = Some (Some i) \<and>
    ord_id (order_pool l ! i) = oid \<and> ord_side (order_pool l ! i) = r_side r \<and>
    ord_price (order_pool l ! i) = r_price r \<and> ord_quantity (order_pool l ! i) = r_quantity r"
proof -
  from assms(1) obtain Q F where B: "book_rep l Q F b" by (auto simp: lob_refines_def)
  from assms(2) book_rep_find_None [OF B, of oid] obtain i where some: "om_abs (order_map l) oid = Some i" by auto
  from book_rep_find_Some [OF B some] assms(2) obtain s p
    where i: "i \<in> set (Q s p)" "ord_id (order_pool l ! i) = oid"
      "r = \<lparr>r_id = oid, r_side = s, r_price = p, r_quantity = ord_quantity (order_pool l ! i)\<rparr>"
    by (metis option.inject)
  note L = pool_rep_levelD [OF book_repD(1) [OF B] i(1)]
  have "length (order_pool l) = max_orders l"
    using book_repD(1) [OF B] by (simp add: pool_rep_def sizes_ok_def)
  then show ?thesis
    using map_find_eq [OF book_repD(2) [OF B], of oid] some i L by (auto simp: get_order_def)
qed

lemma lookup_absent:
  assumes "lob_refines l b" "spec_find b oid = None" "0 < lob_room l"
  shows "get_order l oid = Some None"
proof -
  from assms(1) obtain Q F where B: "book_rep l Q F b" by (auto simp: lob_refines_def)
  show ?thesis
    using map_find_eq [OF book_repD(2) [OF B], of oid] book_rep_find_None [OF B, of oid] assms(2,3)
    by (simp add: get_order_def lob_room_def)
qed

section \<open>Concrete books\<close>

lemma demo_empty:
  obtains l where "init_memory_pool (\<lambda>_. True) 2 8 = Inr l" "lob_refines l []" "lob_room l = 4"
    "max_orders l = 2" "max_price l = 8"
proof -
  obtain l where l: "init_memory_pool (\<lambda>_. True) 2 8 = Inr l"
    by (simp add: init_memory_pool_def layout_fits_def Let_def case_prod_beta)
  from init_memory_pool_refines [OF l] l that show thesis by simp
qed

lemma demo_two:
  obtains l where "lob_refines l
      [\<lparr>r_id = 1, r_side = BUY, r_price = 5, r_quantity = 100\<rparr>,
       \<lparr>r_id = 2, r_side = BUY, r_price = 5, r_quantity = 50\<rparr>]"
    "0 < lob_room l" "max_orders l = 2" "max_price l = 8"
proof -
  obtain l where l: "lob_refines l []" "lob_room l = 4" "max_orders l = 2" "max_price l = 8"
    using demo_empty by blast
  have "sized_refines 2 8 l []" using l by (simp add: sized_refines_def)
  from lob.run_sim [OF this, of "[Add 1 BUY 5 100, Add 2 BUY 5 50]"] l(2) that show thesis
    by (auto simp: spec_add_def spec_find_def sized_refines_def)
qed

section \<open>Properties\<close>

text \<open>
  C1. A freshly constructed order book and the abstract book (a list of resting orders in priority
  order) answer every sequence of add, cancel and modify alike, and every operation of the
  sequence returns, as long as the sequence contains fewer than \<open>2 * max_orders\<close> adds. At the end
  the queue of every level is the abstract queue in FIFO order and every reported volume is the
  sum (modulo \<open>2^64\<close>) of the quantities of that queue.
\<close>

theorem lob_run_correct:
  assumes "init_memory_pool mmap_ok mo mp = Inr l" "0 < mo"
    and "sum_list (map slots_used cs) < 2 * unat mo"
  shows "\<exists>l'. run_steps lob_step l cs = Some (fst (run_spec (spec_step (unat mo) (unat mp)) [] cs), l') \<and>
    (\<forall>s p. queue_at l' s p = level_queue (snd (run_spec (spec_step (unat mo) (unat mp)) [] cs)) s p \<and>
           get_volume_at_price l' s p = Some (sum_list (map snd (queue_at l' s p))))"
proof -
  note I = init_memory_pool_refines [OF assms(1,2)]
  then have "sized_refines (unat mo) (unat mp) l []" by (simp add: sized_refines_def)
  from lob.run_sim [OF this, of cs] assms(3) I(2) show ?thesis
    by (auto simp: sized_refines_def refines_queue intro: volume_of_queue)
qed

theorem lob_run_correct_witness:
  "\<exists>l l'. init_memory_pool (\<lambda>_. True) 2 8 = Inr l \<and>
     run_steps lob_step l [Add 1 BUY 5 100, Add 2 BUY 5 50, Modify 1 150, Cancel 3, Add 2 SELL 6 1]
       = Some ([True, True, True, False, False], l') \<and>
     queue_at l' BUY 5 = [(2, 50), (1, 150)] \<and> get_volume_at_price l' BUY 5 = Some 200"
proof -
  obtain l where l: "init_memory_pool (\<lambda>_. True) 2 8 = Inr l" using demo_empty by blast
  from lob_run_correct [OF l, of "[Add 1 BUY 5 100, Add 2 BUY 5 50, Modify 1 150, Cancel 3, Add 2 SELL 6 1]"]
  obtain l' where "run_steps lob_step l [Add 1 BUY 5 100, Add 2 BUY 5 50, Modify 1 150, Cancel 3, Add 2 SELL 6 1]
       = Some ([True, True, True, False, False], l')"
    "queue_at l' BUY 5 = [(2, 50), (1, 150)]" "get_volume_at_price l' BUY 5 = Some 200"
    by (auto simp: spec_add_def spec_find_def spec_modify_def spec_cancel_def)
  with l show ?thesis by blast
qed

text \<open>
  C2. The probing loops of the order map stop returning: on every book (of at least one order and
  one price) adding and cancelling the ids \<open>0, \<dots>, 2 * max_orders - 1\<close> one after the other succeeds
  each time and leaves an empty book, but afterwards no cancel and no modify returns, for any id,
  and no add at a valid price returns: erased slots become tombstones, which a search does not
  stop at and nothing turns back into empty slots.
\<close>

theorem lob_hangs_after_churn:
  assumes "init_memory_pool mmap_ok mo mp = Inr l" "0 < mo" "0 < mp"
  shows "\<exists>l'. run_steps lob_step l (churn (2 * unat mo)) = Some (replicate (4 * unat mo) True, l') \<and>
    (\<forall>s p. queue_at l' s p = []) \<and>
    (\<forall>oid q. cancel l' oid = None \<and> modify l' oid q = None \<and>
       (\<forall>s p. unat p < unat mp \<longrightarrow> add l' oid s p q = None))"
proof -
  note I = init_memory_pool_refines [OF assms(1,2)]
  have om: "order_map l = tombs (2 * unat mo) 0" and fit: "layout_fits mo mp"
    using assms(1) by (auto simp: init_memory_pool_def tombs_0 Let_def mult.commute split: if_splits prod.splits)
  from fit have "2 * unat mo \<le> 2 ^ 64" by (simp add: layout_fits_def)
  moreover have "0 < max_price l" "0 < max_orders l" using I assms(2,3) by (simp_all add: unat_gt_0 word_gt_0)
  ultimately obtain l' where l': "run_steps lob_step l (churn (2 * unat mo)) = Some (replicate (2 * (2 * unat mo)) True, l')"
    "lob_refines l' []" "order_map l' = tombs (2 * unat mo) (2 * unat mo)" "max_price l' = max_price l"
    using churn_run [OF I(1) om] by blast
  have "lob_room l' = 0" by (simp add: lob_room_def l'(3) tombs_room)
  note h = full_table_hangs [OF l'(2) this]
  have none: "spec_find [] oid = None" for oid by (simp add: spec_find_def)
  show ?thesis
  proof (intro exI [of _ l'] conjI allI impI)
    show "run_steps lob_step l (churn (2 * unat mo)) = Some (replicate (4 * unat mo) True, l')"
      using l'(1) by (simp only: mult.assoc [symmetric]) simp
    show "queue_at l' s p = []" for s p using refines_queue [OF l'(2)] by simp
    show "cancel l' oid = None" "modify l' oid q = None" for oid q by (rule h [OF none])+
    show "add l' oid s p q = None" if "unat p < unat mp" for oid s p q
      by (rule h(3) [OF none]) (use that l'(4) I(4) in simp)
  qed
qed

theorem lob_hangs_after_churn_witness:
  "\<exists>l l'. init_memory_pool (\<lambda>_. True) 1 4 = Inr l \<and>
     run_steps lob_step l [Add 0 BUY 0 1, Cancel 0, Add 1 BUY 0 1, Cancel 1] = Some ([True, True, True, True], l') \<and>
     cancel l' 7 = None \<and> add l' 7 SELL 3 10 = None"
proof -
  obtain l where l: "init_memory_pool (\<lambda>_. True) 1 4 = Inr l"
    by (simp add: init_memory_pool_def layout_fits_def Let_def case_prod_beta)
  have c: "churn (2 * unat (1 :: u64)) = [Add 0 BUY 0 1, Cancel 0, Add 1 BUY 0 1, Cancel 1]"
    by (simp add: numeral_2_eq_2)
  from lob_hangs_after_churn [OF l] obtain l'
    where "run_steps lob_step l (churn (2 * unat (1 :: u64))) = Some (replicate (4 * unat (1 :: u64)) True, l')"
      "cancel l' 7 = None" "add l' 7 SELL 3 10 = None"
    by auto
  with l show ?thesis unfolding c by (auto simp: numeral_eq_Suc)
qed

text \<open>
  C3. Adding an order to a book with a never-used hash slot returns. It succeeds exactly when the
  price is inside the book, the id is not resting and the pool is not exhausted; then the order is
  the last of its queue and every other queue is unchanged. A refused add changes no queue, and
  the result of the call is again a book of the specification.
\<close>

theorem add_appends:
  assumes "lob_refines l b" "0 < lob_room l"
  shows "\<exists>ok l' logs. add l oid s p q = Some (ok, l', logs) \<and>
    (ok \<longleftrightarrow> unat p < max_price l \<and> spec_find b oid = None \<and> length b < max_orders l) \<and>
    (\<forall>s' p'. queue_at l' s' p' =
       queue_at l s' p' @ (if ok \<and> s' = s \<and> p' = p then [(oid, q)] else [])) \<and>
    (\<exists>b'. lob_refines l' b')"
proof -
  from add_refines [OF assms(1), of p oid s q] assms(2) obtain l' logs
    where A: "add l oid s p q = Some (fst (spec_add (max_orders l) (max_price l) b oid s p q), l', logs)"
      and R: "lob_refines l' (snd (spec_add (max_orders l) (max_price l) b oid s p q))" by blast
  from refines_queue [OF R] refines_queue [OF assms(1)]
  have "\<forall>s' p'. queue_at l' s' p' = queue_at l s' p' @
      (if fst (spec_add (max_orders l) (max_price l) b oid s p q) \<and> s' = s \<and> p' = p then [(oid, q)] else [])"
    by (auto simp: spec_add_def)
  moreover have "fst (spec_add (max_orders l) (max_price l) b oid s p q) \<longleftrightarrow>
      unat p < max_price l \<and> spec_find b oid = None \<and> length b < max_orders l"
    by (auto simp: spec_add_def not_le)
  ultimately show ?thesis using A R by blast
qed

theorem add_appends_witness:
  "\<exists>l l' logs. add l 7 SELL 3 40 = Some (True, l', logs) \<and> queue_at l' SELL 3 = [(7, 40)]"
proof -
  obtain l where l: "lob_refines l []" "0 < lob_room l" "max_orders l = 2" "max_price l = 8"
    using demo_empty by (metis zero_less_numeral)
  from add_appends [OF l(1,2), of 7 SELL 3 40] l(3,4) obtain l' logs
    where "add l 7 SELL 3 40 = Some (True, l', logs)" "queue_at l' SELL 3 = queue_at l SELL 3 @ [(7, 40)]"
    by (auto simp: spec_find_def)
  with refines_queue [OF l(1), of SELL 3] show ?thesis by auto
qed

text \<open>
  C4. Cancelling a resting order returns true, whatever the state of the hash map, and removes
  exactly that order: every queue keeps its other orders in their order. Cancelling an unknown id
  returns false and changes no queue, as long as a never-used hash slot is left.
\<close>

theorem cancel_removes:
  assumes "lob_refines l b" "spec_find b oid \<noteq> None \<or> 0 < lob_room l"
  shows "\<exists>l' logs. cancel l oid = Some (spec_find b oid \<noteq> None, l', logs) \<and>
    (\<forall>s p. queue_at l' s p = filter (\<lambda>x. fst x \<noteq> oid) (queue_at l s p)) \<and>
    lob_room l' = lob_room l \<and> (\<exists>b'. lob_refines l' b')"
proof -
  from cancel_refines [OF assms] obtain l' logs
    where A: "cancel l oid = Some (fst (spec_cancel b oid), l', logs)"
      and R: "lob_refines l' (snd (spec_cancel b oid))" and room: "lob_room l' = lob_room l" by blast
  have "queue_at l' s p = filter (\<lambda>x. fst x \<noteq> oid) (queue_at l s p)" for s p
  proof (cases "spec_find b oid")
    case None
    then have "oid \<notin> fst ` set (level_queue b s p)"
      by (auto simp: spec_find_None_iff ids_level_queue)
    then have "filter (\<lambda>x. fst x \<noteq> oid) (level_queue b s p) = level_queue b s p"
      by (auto intro: filter_True)
    with None refines_queue [OF R] refines_queue [OF assms(1)] show ?thesis
      by (simp add: spec_cancel_def)
  next
    case (Some r)
    with refines_queue [OF R] refines_queue [OF assms(1)] show ?thesis
      by (simp add: spec_cancel_def level_queue_filter_id)
  qed
  moreover have "fst (spec_cancel b oid) \<longleftrightarrow> spec_find b oid \<noteq> None" by (simp add: spec_cancel_def)
  ultimately show ?thesis using A R room by auto
qed

theorem cancel_removes_witness:
  "\<exists>l l' logs. queue_at l BUY 5 = [(1, 100), (2, 50)] \<and> cancel l 1 = Some (True, l', logs) \<and>
     queue_at l' BUY 5 = [(2, 50)]"
proof -
  obtain l where l: "lob_refines l
      [\<lparr>r_id = 1, r_side = BUY, r_price = 5, r_quantity = 100\<rparr>,
       \<lparr>r_id = 2, r_side = BUY, r_price = 5, r_quantity = 50\<rparr>]"
    using demo_two by metis
  note q = refines_queue [OF l, of BUY 5]
  from cancel_removes [OF l, of 1] obtain l' logs
    where "cancel l 1 = Some (True, l', logs)" "\<forall>s p. queue_at l' s p = filter (\<lambda>x. fst x \<noteq> 1) (queue_at l s p)"
    by (auto simp: spec_find_def)
  with q show ?thesis by auto
qed

text \<open>
  C5. Modifying a resting order to a positive quantity succeeds. A larger quantity moves the order
  to the tail of its queue, an equal or smaller one keeps its place; all other orders and queues
  are unchanged, and the volume of the level is the sum of the new quantities. A modify to
  quantity 0 is a cancel.
\<close>

theorem modify_priority:
  assumes "lob_refines l b" "spec_find b oid = Some r"
  shows "\<exists>l' logs. modify l oid q = Some (True, l', logs) \<and>
    (\<forall>s p. queue_at l' s p =
       (if q = 0 then filter (\<lambda>x. fst x \<noteq> oid) (queue_at l s p)
        else if r_quantity r < q
        then filter (\<lambda>x. fst x \<noteq> oid) (queue_at l s p) @ (if s = r_side r \<and> p = r_price r then [(oid, q)] else [])
        else map (\<lambda>x. if fst x = oid then (oid, q) else x) (queue_at l s p))) \<and>
    (\<forall>s p. get_volume_at_price l' s p = Some (sum_list (map snd (queue_at l' s p))))"
proof -
  from modify_refines [OF assms(1), of oid q] assms(2) obtain l' logs
    where A: "modify l oid q = Some (fst (spec_modify b oid q), l', logs)"
      and R: "lob_refines l' (snd (spec_modify b oid q))" by auto
  have "r_id r = oid" using assms(2) by (auto simp: spec_find_def find_Some_iff)
  with A assms(2) refines_queue [OF R] refines_queue [OF assms(1)] volume_of_queue [OF R] show ?thesis
    by (auto simp: spec_modify_def spec_cancel_def level_queue_filter_id level_queue_set_quantity)
qed

theorem modify_priority_witness:
  "\<exists>l l' logs. queue_at l BUY 5 = [(1, 100), (2, 50)] \<and> modify l 1 150 = Some (True, l', logs) \<and>
     queue_at l' BUY 5 = [(2, 50), (1, 150)] \<and> get_volume_at_price l' BUY 5 = Some 200"
proof -
  obtain l where l: "lob_refines l
      [\<lparr>r_id = 1, r_side = BUY, r_price = 5, r_quantity = 100\<rparr>,
       \<lparr>r_id = 2, r_side = BUY, r_price = 5, r_quantity = 50\<rparr>]"
    using demo_two by metis
  note q = refines_queue [OF l, of BUY 5]
  from modify_priority [OF l, of 1 _ 150] q show ?thesis by (auto simp: spec_find_def)
qed

text \<open>
  Looking up a resting order returns a pointer to a pool entry that carries its id, side, price
  and current quantity; looking up an id that is not resting returns the null pointer, as long as a
  never-used hash slot is left.
\<close>

lemma get_order_lookup:
  assumes "lob_refines l b" "0 < lob_room l"
  shows "case spec_find b oid of
      None \<Rightarrow> get_order l oid = Some None
    | Some r \<Rightarrow> (\<exists>i < max_orders l. get_order l oid = Some (Some i) \<and>
        ord_id (order_pool l ! i) = oid \<and> ord_side (order_pool l ! i) = r_side r \<and>
        ord_price (order_pool l ! i) = r_price r \<and> ord_quantity (order_pool l ! i) = r_quantity r)"
  using lookup_present [OF assms(1)] lookup_absent [OF assms(1) _ assms(2)] by (auto split: option.split)

text \<open>
  C6. Layout of the mapping. When the sizes do not wrap around, the four arrays follow each other
  without gap or overlap and end at the size passed to \<open>mmap\<close>. The order pool starts at a multiple
  of 64 bytes, as \<open>alignas(64) Order\<close> requires, exactly when the number of price levels is a
  multiple of 4.
\<close>

theorem pool_layout_partition:
  assumes "layout_fits mo mp"
  shows "unat (ll_bids (pool_layout mo mp)) = 0 \<and>
    unat (ll_asks (pool_layout mo mp)) = 24 * unat mp \<and>
    unat (ll_pool (pool_layout mo mp)) = 48 * unat mp \<and>
    unat (ll_map (pool_layout mo mp)) = 48 * unat mp + 64 * unat mo \<and>
    unat (ll_total (pool_layout mo mp)) = 48 * unat mp + 64 * unat mo + 16 * (2 * unat mo) \<and>
    (64 dvd unat (ll_pool (pool_layout mo mp)) \<longleftrightarrow> 4 dvd unat mp)"
proof -
  have b: "48 * unat mp + 96 * unat mo < 2 ^ 64" using assms by (simp add: layout_fits_def)
  have w: "unat (of_nat n :: u64) = n" if "n \<le> 48 * unat mp + 96 * unat mo" for n
    using that b by (simp add: unat_of_nat take_bit_eq_mod)
  have mp: "mp = of_nat (unat mp)" and mo: "mo = of_nat (unat mo)" by simp_all
  have offs: "ll_asks (pool_layout mo mp) = of_nat (24 * unat mp)"
    "ll_pool (pool_layout mo mp) = of_nat (48 * unat mp)"
    "ll_map (pool_layout mo mp) = of_nat (48 * unat mp + 64 * unat mo)"
    "ll_total (pool_layout mo mp) = of_nat (48 * unat mp + 64 * unat mo + 16 * (2 * unat mo))"
    by (simp_all add: pool_layout_def Let_def)
  have p: "unat (ll_pool (pool_layout mo mp)) = 48 * unat mp" unfolding offs by (rule w) simp
  have "64 dvd 48 * unat mp \<longleftrightarrow> 4 dvd unat mp" by presburger
  moreover have "unat (ll_asks (pool_layout mo mp)) = 24 * unat mp" unfolding offs by (rule w) simp
  moreover have "unat (ll_map (pool_layout mo mp)) = 48 * unat mp + 64 * unat mo"
    unfolding offs by (rule w) simp
  moreover have "unat (ll_total (pool_layout mo mp)) = 48 * unat mp + 64 * unat mo + 16 * (2 * unat mo)"
    unfolding offs by (rule w) simp
  ultimately show ?thesis using p by (simp add: pool_layout_def Let_def)
qed

theorem pool_layout_partition_witness:
  "unat (ll_total (pool_layout 1000000 100000)) = 100800000 \<and>
   64 dvd unat (ll_pool (pool_layout 1000000 100000)) \<and> \<not> 64 dvd unat (ll_pool (pool_layout 100 101))"
  using pool_layout_partition [of 1000000 100000] pool_layout_partition [of 100 101]
  by (simp add: layout_fits_def)

end
