(* ===== verification/SPSC_Queue.thy ===== *)
theory SPSC_Queue
  imports HFT_Prelude
begin

text \<open>
  The lock-free ring buffer of \<open>include/SPSCQueue.hpp\<close>. The first part models \<open>push\<close> and \<open>pop\<close>
  as functions on the queue object and proves that they implement a bounded first-in first-out
  queue of \<open>Capacity - 1\<close> elements (locale \<open>bounded_fifo\<close>). The second part models one producer
  and one consumer thread at the granularity of their memory accesses, with the release/acquire
  semantics of the two atomic indices: an acquire load may return any value of the location's
  modification order that is not older than the last one the thread has seen.
\<close>

section \<open>The queue object\<close>

record 'a SPSCQueue =
  write_index :: u64
  read_index :: u64
  data :: "'a list"

definition new_queue :: "u64 \<Rightarrow> 'a \<Rightarrow> 'a SPSCQueue" where
  "new_queue Capacity x = \<lparr>write_index = 0, read_index = 0, data = replicate (unat Capacity) x\<rparr>"

definition push :: "u64 \<Rightarrow> 'a \<Rightarrow> 'a SPSCQueue \<Rightarrow> (bool \<times> 'a SPSCQueue) option" where
  "push Capacity item q =
    (if Capacity = 0 then None else
     let current_write = write_index q;
         next_write = (current_write + 1) mod Capacity
     in if next_write = read_index q then Some (False, q)
        else do {
          d \<leftarrow> awrite (data q) (unat current_write) item;
          Some (True, q\<lparr>data := d, write_index := next_write\<rparr>)
        })"

text \<open>\<open>pop\<close> returns the item it stores through its reference argument, or \<open>None\<close> for \<open>false\<close>.\<close>

definition pop :: "u64 \<Rightarrow> 'a SPSCQueue \<Rightarrow> ('a option \<times> 'a SPSCQueue) option" where
  "pop Capacity q =
    (if Capacity = 0 then None else
     let current_read = read_index q
     in if current_read = write_index q then Some (None, q)
        else do {
          item \<leftarrow> aread (data q) (unat current_read);
          let next_read = (current_read + 1) mod Capacity;
          Some (Some item, q\<lparr>read_index := next_read\<rparr>)
        })"

text \<open>The elements of the queue, oldest first: the slots from \<open>read_index\<close> to \<open>write_index\<close>.\<close>

definition contents :: "'a SPSCQueue \<Rightarrow> 'a list" where
  "contents q = map (\<lambda>k. data q ! ((unat (read_index q) + k) mod length (data q)))
     [0..<cdist (length (data q)) (unat (read_index q)) (unat (write_index q))]"

definition queue_inv :: "u64 \<Rightarrow> 'a SPSCQueue \<Rightarrow> bool" where
  "queue_inv Capacity q \<longleftrightarrow> length (data q) = unat Capacity \<and>
     write_index q < Capacity \<and> read_index q < Capacity"

section \<open>The contract of a bounded queue\<close>

datatype 'a queue_op = Enq 'a | Deq

datatype 'a queue_res = Pushed bool | Popped "'a option"

locale bounded_fifo =
  fixes enq :: "'a \<Rightarrow> 'q \<Rightarrow> (bool \<times> 'q) option"
    and deq :: "'q \<Rightarrow> ('a option \<times> 'q) option"
    and items :: "'q \<Rightarrow> 'a list"
    and inv :: "'q \<Rightarrow> bool"
    and limit :: nat
  assumes enq_room: "inv q \<Longrightarrow> length (items q) < limit \<Longrightarrow>
      \<exists>q'. enq x q = Some (True, q') \<and> inv q' \<and> items q' = items q @ [x]"
    and enq_full: "inv q \<Longrightarrow> length (items q) = limit \<Longrightarrow> enq x q = Some (False, q)"
    and deq_Cons: "inv q \<Longrightarrow> items q = x # xs \<Longrightarrow>
      \<exists>q'. deq q = Some (Some x, q') \<and> inv q' \<and> items q' = xs"
    and deq_Nil: "inv q \<Longrightarrow> items q = [] \<Longrightarrow> deq q = Some (None, q)"
    and bounded: "inv q \<Longrightarrow> length (items q) \<le> limit"

fun run_queue :: "('a \<Rightarrow> 'q \<Rightarrow> (bool \<times> 'q) option) \<Rightarrow> ('q \<Rightarrow> ('a option \<times> 'q) option) \<Rightarrow>
    'a queue_op list \<Rightarrow> 'q \<Rightarrow> ('a queue_res list \<times> 'q) option" where
  "run_queue enq deq [] q = Some ([], q)"
| "run_queue enq deq (Enq x # ops) q = do {
     (b, q1) \<leftarrow> enq x q; (rs, q2) \<leftarrow> run_queue enq deq ops q1; Some (Pushed b # rs, q2) }"
| "run_queue enq deq (Deq # ops) q = do {
     (r, q1) \<leftarrow> deq q; (rs, q2) \<leftarrow> run_queue enq deq ops q1; Some (Popped r # rs, q2) }"

fun run_list :: "nat \<Rightarrow> 'a queue_op list \<Rightarrow> 'a list \<Rightarrow> 'a queue_res list \<times> 'a list" where
  "run_list lim [] xs = ([], xs)"
| "run_list lim (Enq x # ops) xs =
    (if length xs < lim then apfst ((#) (Pushed True)) (run_list lim ops (xs @ [x]))
     else apfst ((#) (Pushed False)) (run_list lim ops xs))"
| "run_list lim (Deq # ops) xs = (case xs of
     [] \<Rightarrow> apfst ((#) (Popped None)) (run_list lim ops [])
   | x # ys \<Rightarrow> apfst ((#) (Popped (Some x))) (run_list lim ops ys))"

context bounded_fifo
begin

lemma run_refines:
  assumes "inv q"
  shows "\<exists>q'. run_queue enq deq ops q = Some (fst (run_list limit ops (items q)), q') \<and>
     inv q' \<and> items q' = snd (run_list limit ops (items q))"
  using assms
proof (induction ops arbitrary: q)
  case (Cons a ops)
  show ?case
  proof (cases a)
    case (Enq x)
    show ?thesis
    proof (cases "length (items q) < limit")
      case True
      from enq_room [OF Cons.prems True, of x]
      obtain q1 where "enq x q = Some (True, q1)" "inv q1" "items q1 = items q @ [x]" by auto
      with Cons.IH [OF this(2)] Enq True show ?thesis by auto
    next
      case False
      with bounded [OF Cons.prems] have "enq x q = Some (False, q)"
        by (intro enq_full [OF Cons.prems]) simp
      with Cons.IH [OF Cons.prems] Enq False show ?thesis by auto
    qed
  next
    case Deq
    show ?thesis
    proof (cases "items q")
      case Nil
      with deq_Nil [OF Cons.prems] Cons.IH [OF Cons.prems] Deq show ?thesis by auto
    next
      case (Cons x xs)
      from deq_Cons [OF Cons.prems Cons]
      obtain q1 where "deq q = Some (Some x, q1)" "inv q1" "items q1 = xs" by auto
      with Cons.IH [OF this(2)] Deq Cons show ?thesis by auto
    qed
  qed
qed simp

end

section \<open>The ring buffer implements the contract\<close>

lemma mod_inj_window:
  fixes i j n :: nat
  assumes "i mod n = j mod n" "i \<le> j" "j < i + n"
  shows "i = j"
proof -
  have "n dvd j - i" using assms(1,2) by (metis mod_eq_dvd_iff_nat)
  moreover have "j - i < n" using assms(2,3) by simp
  ultimately show ?thesis using assms(2) by (metis diff_is_0_eq dvd_imp_le le_antisym leD not_gr_zero)
qed

lemma unat_next_index:
  fixes i c :: u64
  assumes "i < c"
  shows "unat ((i + 1) mod c) = Suc (unat i) mod unat c"
proof -
  have "unat i < unat c" using assms by (simp add: word_less_nat_alt)
  then have "unat (i + 1) = Suc (unat i)"
    using unsigned_less [of c, where ?'a = nat] by (simp add: unat_word_ariths take_bit_eq_mod)
  then show ?thesis by (simp add: unat_mod_distrib)
qed

lemma next_index_less: "i < c \<Longrightarrow> (i + 1) mod c < (c :: u64)"
  by (metis mod_less_divisor not_gr_zero unat_0 unat_mod_distrib word_less_nat_alt less_nat_zero_code)

lemma cdist_next:
  assumes "r < n" "w < n"
  shows "Suc w mod n \<noteq> r \<Longrightarrow> cdist n r (Suc w mod n) = Suc (cdist n r w)"
    and "Suc w mod n = r \<Longrightarrow> cdist n r w = n - 1"
    and "r \<noteq> w \<Longrightarrow> Suc (cdist n (Suc r mod n) w) = cdist n r w"
    and "(r + cdist n r w) mod n = w"
  using assms by (auto simp: cdist_def Suc_mod_cases split: if_splits)

lemma add_mod_inj: "a < n \<Longrightarrow> b < n \<Longrightarrow> (r + a) mod n = (r + b) mod n \<Longrightarrow> a = (b::nat)"
  using mod_inj_window [of "r + a" n "r + b"] mod_inj_window [of "r + b" n "r + a"]
  by (cases "a \<le> b") auto

lemma length_contents:
  "length (contents q) = cdist (length (data q)) (unat (read_index q)) (unat (write_index q))"
  by (simp add: contents_def)

lemma contents_Nil_iff:
  assumes "queue_inv c q"
  shows "contents q = [] \<longleftrightarrow> read_index q = write_index q"
proof -
  have "contents q = [] \<longleftrightarrow> cdist (unat c) (unat (read_index q)) (unat (write_index q)) = 0"
    using assms length_contents [of q] by (simp add: queue_inv_def flip: length_0_conv)
  also have "\<dots> \<longleftrightarrow> read_index q = write_index q"
    using assms by (simp add: queue_inv_def cdist_0_iff word_less_nat_alt word_unat_eq_iff)
  finally show ?thesis .
qed

lemma queue_inv_nats:
  assumes "queue_inv c q"
  shows "0 < unat c" "c \<noteq> 0" "unat (read_index q) < unat c" "unat (write_index q) < unat c"
    "length (data q) = unat c"
  using assms by (auto simp: queue_inv_def word_less_nat_alt)

lemma push_room:
  assumes inv: "queue_inv c q" and nf: "(write_index q + 1) mod c \<noteq> read_index q"
  shows "\<exists>q'. push c x q = Some (True, q') \<and> queue_inv c q' \<and> contents q' = contents q @ [x]"
proof -
  note n = queue_inv_nats [OF inv]
  let ?r = "unat (read_index q)" and ?w = "unat (write_index q)" and ?n = "unat c"
  let ?q = "q\<lparr>data := (data q)[?w := x], write_index := (write_index q + 1) mod c\<rparr>"
  have w: "write_index q < c" using inv by (simp add: queue_inv_def)
  have nw: "unat ((write_index q + 1) mod c) = Suc ?w mod ?n" by (rule unat_next_index [OF w])
  have ne: "Suc ?w mod ?n \<noteq> ?r" using nf nw by (metis unsigned_word_eqI word_unat_eq_iff)
  have d: "cdist ?n ?r (Suc ?w mod ?n) = Suc (cdist ?n ?r ?w)" using cdist_next(1) n ne by blast
  have "contents ?q = contents q @ [x]"
  proof (rule nth_equalityI)
    show len: "length (contents ?q) = length (contents q @ [x])"
      using n d nw by (simp add: length_contents)
    fix k assume "k < length (contents ?q)"
    with len have k: "k \<le> cdist ?n ?r ?w" using n by (simp add: length_contents)
    have lt: "cdist ?n ?r ?w < ?n" by (rule cdist_less) (use n in auto)
    have "(?r + k) mod ?n = ?w \<longleftrightarrow> k = cdist ?n ?r ?w"
      using add_mod_inj [of k ?n "cdist ?n ?r ?w" ?r] cdist_next(4) [of ?r ?n ?w] n k lt by auto
    with k n lt d nw show "contents ?q ! k = (contents q @ [x]) ! k"
      by (auto simp: contents_def nth_append nth_list_update)
  qed
  moreover have "push c x q = Some (True, ?q)"
    using n nf by (simp add: push_def Let_def)
  moreover have "queue_inv c ?q" using inv next_index_less [OF w] by (simp add: queue_inv_def)
  ultimately show ?thesis by blast
qed

lemma push_full_iff:
  assumes "queue_inv c q"
  shows "(write_index q + 1) mod c = read_index q \<longleftrightarrow> length (contents q) = unat c - 1"
proof -
  note n = queue_inv_nats [OF assms]
  let ?r = "unat (read_index q)" and ?w = "unat (write_index q)" and ?n = "unat c"
  have "(write_index q + 1) mod c = read_index q \<longleftrightarrow> Suc ?w mod ?n = ?r"
    using assms unat_next_index [of "write_index q" c]
    by (auto simp: queue_inv_def word_unat_eq_iff)
  also have "\<dots> \<longleftrightarrow> cdist ?n ?r ?w = ?n - 1"
  proof
    assume "cdist ?n ?r ?w = ?n - 1"
    moreover have "cdist ?n ?r (Suc ?w mod ?n) < ?n" by (rule cdist_less) (use n in auto)
    ultimately show "Suc ?w mod ?n = ?r" using cdist_next(1) [of ?r ?n ?w] n by force
  qed (use cdist_next(2) n in blast)
  finally show ?thesis using n by (simp add: length_contents)
qed

lemma pop_Cons:
  assumes inv: "queue_inv c q" and ne: "contents q = x # xs"
  shows "\<exists>q'. pop c q = Some (Some x, q') \<and> queue_inv c q' \<and> contents q' = xs"
proof -
  note n = queue_inv_nats [OF inv]
  let ?r = "unat (read_index q)" and ?w = "unat (write_index q)" and ?n = "unat c"
  let ?q = "q\<lparr>read_index := (read_index q + 1) mod c\<rparr>"
  have r: "read_index q < c" using inv by (simp add: queue_inv_def)
  have nr: "unat ((read_index q + 1) mod c) = Suc ?r mod ?n" by (rule unat_next_index [OF r])
  have rw: "read_index q \<noteq> write_index q" using ne contents_Nil_iff [OF inv] by simp
  then have d: "Suc (cdist ?n (Suc ?r mod ?n) ?w) = cdist ?n ?r ?w"
    using cdist_next(3) [of ?r ?n ?w] n by (auto simp: word_unat_eq_iff)
  have c: "contents q = data q ! ?r # contents ?q"
  proof (rule nth_equalityI)
    show len: "length (contents q) = length (data q ! ?r # contents ?q)"
      using n d nr by (simp add: length_contents)
    fix k assume "k < length (contents q)"
    then have k: "k < Suc (cdist ?n (Suc ?r mod ?n) ?w)" using n d by (simp add: length_contents)
    show "contents q ! k = (data q ! ?r # contents ?q) ! k"
    proof (cases k)
      case 0
      have "[0..<cdist ?n ?r ?w] ! 0 = 0" "0 < cdist ?n ?r ?w" using d by simp_all
      with 0 n show ?thesis by (simp add: contents_def)
    next
      case (Suc j)
      have "(?r + Suc j) mod ?n = (Suc ?r mod ?n + j) mod ?n" by (simp add: mod_add_left_eq)
      moreover have "Suc j < cdist ?n ?r ?w" "j < cdist ?n (Suc ?r mod ?n) ?w" using Suc k d by simp_all
      ultimately show ?thesis using Suc n nr by (simp add: contents_def)
    qed
  qed
  have "pop c q = Some (Some (data q ! ?r), ?q)"
    using n rw by (simp add: pop_def Let_def)
  moreover have "queue_inv c ?q" using inv next_index_less [OF r] by (simp add: queue_inv_def)
  ultimately show ?thesis using c ne by auto
qed

interpretation spsc: bounded_fifo "push c" "pop c" contents "queue_inv c" "unat c - 1" for c :: u64
proof
  fix q :: "'a SPSCQueue" and x :: 'a and xs
  assume inv: "queue_inv c q"
  note n = queue_inv_nats [OF inv]
  show "\<exists>q'. push c x q = Some (True, q') \<and> queue_inv c q' \<and> contents q' = contents q @ [x]"
    if "length (contents q) < unat c - 1"
    using push_room [OF inv] push_full_iff [OF inv] that by auto
  show "push c x q = Some (False, q)" if "length (contents q) = unat c - 1"
    using push_full_iff [OF inv] that n by (simp add: push_def)
  show "\<exists>q'. pop c q = Some (Some x, q') \<and> queue_inv c q' \<and> contents q' = xs"
    if "contents q = x # xs"
    by (rule pop_Cons [OF inv that])
  show "pop c q = Some (None, q)" if "contents q = []"
    using contents_Nil_iff [OF inv] that n by (simp add: pop_def)
  have "cdist (unat c) (unat (read_index q)) (unat (write_index q)) < unat c"
    by (rule cdist_less) (use n in auto)
  then show "length (contents q) \<le> unat c - 1" using n by (simp add: length_contents)
qed

lemma new_queue_inv: "c \<noteq> 0 \<Longrightarrow> queue_inv c (new_queue c x) \<and> contents (new_queue c x) = []"
  by (simp add: queue_inv_def new_queue_def contents_def word_neq_0_conv)

section \<open>Pushing with a spin\<close>

text \<open>
  \<open>while (!queue->push(x)) { }\<close>, as the producers of the program call \<open>push\<close>. On a full queue only
  the consumer can end the loop, so alone it never returns.
\<close>

partial_function (option) push_spin :: "u64 \<Rightarrow> 'a \<Rightarrow> 'a SPSCQueue \<Rightarrow> 'a SPSCQueue option" where
  "push_spin c x q = do { (ok, q) \<leftarrow> push c x q; if ok then Some q else push_spin c x q }"

lemma push_spin_returns:
  assumes "push_spin c x q = Some q'" "queue_inv c q"
  shows "queue_inv c q'" "contents q' = contents q @ [x]" "length (contents q) < unat c - 1"
proof -
  let ?P = "\<lambda>c x q q'. queue_inv c q \<longrightarrow>
    queue_inv c q' \<and> contents q' = contents q @ [x] \<and> length (contents q) < unat c - 1"
  have "?P c x q q'"
  proof (rule push_spin.raw_induct [of ?P "((c, x), q)" q', unfolded prod.case, OF _ assms(1)], intro impI, goal_cases)
    case (1 f c x q q')
    show ?case
    proof (cases "length (contents q) < unat c - 1")
      case True
      from spsc.enq_room [OF 1(3) True, of x] 1(2) True show ?thesis by auto
    next
      case False
      with spsc.bounded [OF 1(3)] have "push c x q = Some (False, q)" by (intro spsc.enq_full [OF 1(3)]) simp
      with 1(2) have "f c x q = Some q'" by simp
      from 1(1) [OF this] 1(3) show ?thesis by blast
    qed
  qed
  with assms(2) show "queue_inv c q'" "contents q' = contents q @ [x]" "length (contents q) < unat c - 1"
    by auto
qed

lemma push_spin_room:
  assumes "queue_inv c q" "length (contents q) < unat c - 1"
  shows "\<exists>q'. push_spin c x q = Some q' \<and> queue_inv c q' \<and> contents q' = contents q @ [x]"
  using spsc.enq_room [OF assms, of x] by (subst push_spin.simps) auto

section \<open>Properties\<close>

text \<open>
  C11. On a fresh queue every sequence of \<open>push\<close> and \<open>pop\<close> calls returns the results of a plain
  first-in first-out list that holds at most \<open>Capacity - 1\<close> elements, and leaves the elements of
  that list in the ring.
\<close>

theorem spsc_sequential_fifo:
  assumes "c \<noteq> 0"
  shows "\<exists>q'. run_queue (push c) (pop c) ops (new_queue c x) =
           Some (fst (run_list (unat c - 1) ops []), q') \<and>
         contents q' = snd (run_list (unat c - 1) ops [])"
  using spsc.run_refines [of c "new_queue c x" ops] new_queue_inv [OF assms, of x] by auto

theorem spsc_sequential_fifo_witness:
  "\<exists>q'. run_queue (push 3) (pop 3) [Enq 5, Enq 6, Enq 7, Deq, Enq 8] (new_queue 3 (0 :: nat)) =
      Some ([Pushed True, Pushed True, Pushed False, Popped (Some 5), Pushed True], q') \<and>
    contents q' = [6, 8]"
  using spsc_sequential_fifo [of 3 "[Enq 5, Enq 6, Enq 7, Deq, Enq 8]" "0 :: nat"] by simp

end
