(* ===== verification/SPSC_Concurrent.thy ===== *)
theory SPSC_Concurrent
  imports SPSC_Queue
begin

text \<open>
  One producer and one consumer running \<open>push\<close> and \<open>pop\<close> of \<open>include/SPSCQueue.hpp\<close>
  concurrently. A step is one memory access of one thread. Each atomic index is its modification
  order (all values ever stored, oldest first); \<open>p_view\<close> and \<open>c_view\<close> are the positions up to
  which the producer has seen the read index and the consumer the write index. Loads of a
  thread's own index return its last store (coherence); an acquire load of the other index
  returns any position from the thread's view on, and moves the view there. \<open>wstamp\<close> and \<open>rstamp\<close>
  record, per slot, the position of the release store that publishes the last write (read) of the
  slot; \<open>pushed\<close> and \<open>popped\<close> are the items of the completed calls that returned \<open>true\<close>.
\<close>

section \<open>The two threads\<close>

datatype 'a producer_pc =
    P_Idle
  | P_Loaded 'a u64 u64    \<comment> \<open>item, current_write, next_write: before the acquire load\<close>
  | P_Admitted 'a u64 u64  \<comment> \<open>not full: before the write to the slot\<close>
  | P_Written 'a u64       \<comment> \<open>item, next_write: before the release store\<close>

datatype 'a consumer_pc =
    C_Idle
  | C_Loaded u64     \<comment> \<open>current_read: before the acquire load\<close>
  | C_Admitted u64   \<comment> \<open>not empty: before the read of the slot\<close>
  | C_Read u64 'a    \<comment> \<open>current_read, item: before the release store\<close>

record 'a machine =
  w_hist :: "u64 list"
  r_hist :: "u64 list"
  slots :: "'a list"
  ppc :: "'a producer_pc"
  cpc :: "'a consumer_pc"
  p_view :: nat
  c_view :: nat
  wstamp :: "nat list"
  rstamp :: "nat list"
  pushed :: "'a list"
  popped :: "'a list"

definition spsc_initial :: "u64 \<Rightarrow> 'a \<Rightarrow> 'a machine" where
  "spsc_initial c x = \<lparr>w_hist = [0], r_hist = [0], slots = replicate (unat c) x,
     ppc = P_Idle, cpc = C_Idle, p_view = 0, c_view = 0,
     wstamp = replicate (unat c) 0, rstamp = replicate (unat c) 0, pushed = [], popped = []\<rparr>"

inductive spsc_step :: "u64 \<Rightarrow> 'a machine \<Rightarrow> 'a machine \<Rightarrow> bool" for c where
  push_begin: "ppc s = P_Idle \<Longrightarrow>
    spsc_step c s (s\<lparr>ppc := P_Loaded x (last (w_hist s)) ((last (w_hist s) + 1) mod c)\<rparr>)"
| push_full: "ppc s = P_Loaded x cw nw \<Longrightarrow> p_view s \<le> k \<Longrightarrow> k < length (r_hist s) \<Longrightarrow>
    nw = r_hist s ! k \<Longrightarrow> spsc_step c s (s\<lparr>p_view := k, ppc := P_Idle\<rparr>)"
| push_admit: "ppc s = P_Loaded x cw nw \<Longrightarrow> p_view s \<le> k \<Longrightarrow> k < length (r_hist s) \<Longrightarrow>
    nw \<noteq> r_hist s ! k \<Longrightarrow> spsc_step c s (s\<lparr>p_view := k, ppc := P_Admitted x cw nw\<rparr>)"
| push_write: "ppc s = P_Admitted x cw nw \<Longrightarrow>
    spsc_step c s (s\<lparr>slots := (slots s)[unat cw := x],
                wstamp := (wstamp s)[unat cw := length (w_hist s)], ppc := P_Written x nw\<rparr>)"
| push_release: "ppc s = P_Written x nw \<Longrightarrow>
    spsc_step c s (s\<lparr>w_hist := w_hist s @ [nw], pushed := pushed s @ [x], ppc := P_Idle\<rparr>)"
| pop_begin: "cpc s = C_Idle \<Longrightarrow> spsc_step c s (s\<lparr>cpc := C_Loaded (last (r_hist s))\<rparr>)"
| pop_empty: "cpc s = C_Loaded cr \<Longrightarrow> c_view s \<le> k \<Longrightarrow> k < length (w_hist s) \<Longrightarrow>
    cr = w_hist s ! k \<Longrightarrow> spsc_step c s (s\<lparr>c_view := k, cpc := C_Idle\<rparr>)"
| pop_admit: "cpc s = C_Loaded cr \<Longrightarrow> c_view s \<le> k \<Longrightarrow> k < length (w_hist s) \<Longrightarrow>
    cr \<noteq> w_hist s ! k \<Longrightarrow> spsc_step c s (s\<lparr>c_view := k, cpc := C_Admitted cr\<rparr>)"
| pop_read: "cpc s = C_Admitted cr \<Longrightarrow>
    spsc_step c s (s\<lparr>rstamp := (rstamp s)[unat cr := length (r_hist s)],
                cpc := C_Read cr (slots s ! unat cr)\<rparr>)"
| pop_release: "cpc s = C_Read cr x \<Longrightarrow>
    spsc_step c s (s\<lparr>r_hist := r_hist s @ [(cr + 1) mod c], popped := popped s @ [x], cpc := C_Idle\<rparr>)"

abbreviation spsc_run :: "u64 \<Rightarrow> 'a machine \<Rightarrow> 'a machine \<Rightarrow> bool" where
  "spsc_run c \<equiv> (spsc_step c)\<^sup>*\<^sup>*"

definition spsc_reachable :: "u64 \<Rightarrow> 'a machine \<Rightarrow> bool" where
  "spsc_reachable c s \<longleftrightarrow> (\<exists>x. spsc_run c (spsc_initial c x) s)"

text \<open>
  Every access to a slot is ordered, by a release store and an acquire load that has read it or a
  later one, after the other thread's last access to the same slot.
\<close>

definition data_race_free :: "'a machine \<Rightarrow> bool" where
  "data_race_free s \<longleftrightarrow>
    (\<forall>x cw nw. ppc s = P_Admitted x cw nw \<longrightarrow>
       unat cw < length (slots s) \<and> rstamp s ! unat cw \<le> p_view s) \<and>
    (\<forall>cr. cpc s = C_Admitted cr \<longrightarrow>
       unat cr < length (slots s) \<and> wstamp s ! unat cr \<le> c_view s)"

section \<open>The invariant\<close>

definition idx :: "u64 \<Rightarrow> nat \<Rightarrow> u64" where
  "idx c i = of_nat (i mod unat c)"

definition producer_inv :: "u64 \<Rightarrow> 'a machine \<Rightarrow> bool" where
  "producer_inv c s = (let n = length (pushed s) in case ppc s of
     P_Idle \<Rightarrow> True
   | P_Loaded x cw nw \<Rightarrow> cw = idx c n \<and> nw = idx c (Suc n)
   | P_Admitted x cw nw \<Rightarrow> cw = idx c n \<and> nw = idx c (Suc n) \<and> Suc n < p_view s + unat c
   | P_Written x nw \<Rightarrow> nw = idx c (Suc n) \<and> Suc n < p_view s + unat c \<and>
       slots s ! (n mod unat c) = x \<and> wstamp s ! (n mod unat c) = Suc n)"

definition consumer_inv :: "u64 \<Rightarrow> 'a machine \<Rightarrow> bool" where
  "consumer_inv c s = (let m = length (popped s) in case cpc s of
     C_Idle \<Rightarrow> True
   | C_Loaded cr \<Rightarrow> cr = idx c m
   | C_Admitted cr \<Rightarrow> cr = idx c m \<and> m < c_view s
   | C_Read cr x \<Rightarrow> cr = idx c m \<and> m < c_view s \<and> x = pushed s ! m \<and>
       rstamp s ! (m mod unat c) = Suc m)"

definition shared_inv :: "u64 \<Rightarrow> 'a machine \<Rightarrow> bool" where
  "shared_inv c s = (let n = length (pushed s); m = length (popped s); k = unat c in
     0 < k \<and> length (slots s) = k \<and> length (wstamp s) = k \<and> length (rstamp s) = k \<and>
     w_hist s = map (idx c) [0..<Suc n] \<and> r_hist s = map (idx c) [0..<Suc m] \<and>
     p_view s \<le> m \<and> m \<le> c_view s \<and> c_view s \<le> n \<and> n < p_view s + k \<and>
     popped s = take m (pushed s) \<and>
     (\<forall>i. m \<le> i \<longrightarrow> i < n \<longrightarrow> slots s ! (i mod k) = pushed s ! i \<and> wstamp s ! (i mod k) = Suc i) \<and>
     (\<forall>i. n \<le> i \<longrightarrow> i < m + k \<longrightarrow> rstamp s ! (i mod k) \<le> Suc i - k))"

definition machine_inv :: "u64 \<Rightarrow> 'a machine \<Rightarrow> bool" where
  "machine_inv c s \<longleftrightarrow> shared_inv c s \<and> producer_inv c s \<and> consumer_inv c s"

section \<open>Every step keeps the invariant\<close>

lemma unat_idx: "0 < unat c \<Longrightarrow> unat (idx c i) = i mod unat c"
proof -
  assume "0 < unat c"
  then have "i mod unat c < unat c" by simp
  also have "unat c < 2 ^ 64" using unsigned_less [of c, where ?'a = nat] by simp
  finally have "i mod unat c < 2 ^ 64" .
  then show ?thesis by (simp add: idx_def unat_of_nat take_bit_eq_mod)
qed

lemma idx_eq_iff: "0 < unat c \<Longrightarrow> idx c i = idx c j \<longleftrightarrow> i mod unat c = j mod unat c"
  by (simp add: word_unat_eq_iff unat_idx)

lemma idx_next: "0 < unat c \<Longrightarrow> (idx c i + 1) mod c = idx c (Suc i)"
proof -
  assume c: "0 < unat c"
  then have "idx c i < c" by (simp add: word_less_nat_alt unat_idx)
  from unat_next_index [OF this] c show ?thesis
    by (simp add: word_unat_eq_iff unat_idx mod_Suc_eq)
qed

lemma idx_window: "0 < unat c \<Longrightarrow> i \<le> j \<Longrightarrow> j < i + unat c \<Longrightarrow> idx c i = idx c j \<Longrightarrow> i = j"
  using mod_inj_window [of i "unat c" j] by (simp add: idx_eq_iff)

lemma shared_invD:
  assumes "shared_inv c s"
  shows "0 < unat c" "length (slots s) = unat c" "length (wstamp s) = unat c" "length (rstamp s) = unat c"
    "w_hist s = map (idx c) [0..<Suc (length (pushed s))]"
    "r_hist s = map (idx c) [0..<Suc (length (popped s))]"
    "p_view s \<le> length (popped s)" "length (popped s) \<le> c_view s" "c_view s \<le> length (pushed s)"
    "length (pushed s) < p_view s + unat c" "popped s = take (length (popped s)) (pushed s)"
    "\<And>i. length (popped s) \<le> i \<Longrightarrow> i < length (pushed s) \<Longrightarrow> slots s ! (i mod unat c) = pushed s ! i"
    "\<And>i. length (popped s) \<le> i \<Longrightarrow> i < length (pushed s) \<Longrightarrow> wstamp s ! (i mod unat c) = Suc i"
    "\<And>i. length (pushed s) \<le> i \<Longrightarrow> i < length (popped s) + unat c \<Longrightarrow> rstamp s ! (i mod unat c) \<le> Suc i - unat c"
  using assms unfolding shared_inv_def Let_def by blast+

lemma shared_hist:
  assumes "shared_inv c s"
  shows "last (w_hist s) = idx c (length (pushed s))" "last (r_hist s) = idx c (length (popped s))"
    "length (w_hist s) = Suc (length (pushed s))" "length (r_hist s) = Suc (length (popped s))"
    "k < length (w_hist s) \<Longrightarrow> w_hist s ! k = idx c k" "k < length (r_hist s) \<Longrightarrow> r_hist s ! k = idx c k"
  using shared_invD(5,6) [OF assms] by (simp_all add: nth_append less_Suc_eq del: upt_Suc)
    (auto simp: less_Suc_eq nth_append)

lemma initial_inv: "c \<noteq> 0 \<Longrightarrow> machine_inv c (spsc_initial c x)"
  by (auto simp: machine_inv_def shared_inv_def producer_inv_def consumer_inv_def spsc_initial_def
      idx_def Let_def word_neq_0_conv unat_gt_0)

lemma full_window:
  assumes "shared_inv c s" "p_view s \<le> k" "k < length (r_hist s)"
  shows "idx c (Suc (length (pushed s))) = r_hist s ! k \<longleftrightarrow> Suc (length (pushed s)) = k + unat c"
    and "length (pushed s) < k + unat c"
proof -
  note d = shared_invD [OF assms(1)] and h = shared_hist [OF assms(1)]
  show lt: "length (pushed s) < k + unat c" using d(10) assms(2) by simp
  have "idx c (k + unat c) = idx c k" using d(1) by (simp add: idx_eq_iff)
  moreover have "Suc (length (pushed s)) = k + unat c"
    if "idx c (Suc (length (pushed s))) = idx c (k + unat c)"
    by (rule idx_window [OF d(1) _ _ that]) (use lt assms(3) h(4) d(8,9) in auto)
  ultimately show "idx c (Suc (length (pushed s))) = r_hist s ! k \<longleftrightarrow> Suc (length (pushed s)) = k + unat c"
    using h(6) [OF assms(3)] by metis
qed

lemma empty_window:
  assumes "shared_inv c s" "c_view s \<le> k" "k < length (w_hist s)"
  shows "idx c (length (popped s)) = w_hist s ! k \<longleftrightarrow> length (popped s) = k"
    and "length (popped s) \<le> k" "k \<le> length (pushed s)"
proof -
  note d = shared_invD [OF assms(1)] and h = shared_hist [OF assms(1)]
  show le: "length (popped s) \<le> k" and ge: "k \<le> length (pushed s)" using d(8) assms(2,3) h(3) by auto
  have "length (popped s) = k" if "idx c (length (popped s)) = idx c k"
    by (rule idx_window [OF d(1) le _ that]) (use ge d(7,10) in auto)
  then show "idx c (length (popped s)) = w_hist s ! k \<longleftrightarrow> length (popped s) = k"
    using h(5) [OF assms(3)] by metis
qed

lemma consumer_inv_frame:
  assumes "cpc s' = cpc s" "popped s' = popped s" "c_view s' = c_view s" "pushed s' = pushed s"
    "rstamp s' = rstamp s"
  shows "consumer_inv c s' = consumer_inv c s"
  unfolding consumer_inv_def assms ..

lemma producer_inv_frame:
  assumes "ppc s' = ppc s" "pushed s' = pushed s" "p_view s' = p_view s" "slots s' = slots s"
    "wstamp s' = wstamp s"
  shows "producer_inv c s' = producer_inv c s"
  unfolding producer_inv_def assms ..

lemma consumer_inv_updates [frame]:
  "consumer_inv c (s\<lparr>ppc := a\<rparr>) = consumer_inv c s"
  "consumer_inv c (s\<lparr>p_view := v\<rparr>) = consumer_inv c s"
  "consumer_inv c (s\<lparr>slots := d\<rparr>) = consumer_inv c s"
  "consumer_inv c (s\<lparr>wstamp := t\<rparr>) = consumer_inv c s"
  by (rule consumer_inv_frame; simp)+

lemma producer_inv_updates [frame]:
  "producer_inv c (s\<lparr>cpc := b\<rparr>) = producer_inv c s"
  "producer_inv c (s\<lparr>c_view := v\<rparr>) = producer_inv c s"
  "producer_inv c (s\<lparr>rstamp := t\<rparr>) = producer_inv c s"
  "producer_inv c (s\<lparr>r_hist := rh\<rparr>) = producer_inv c s"
  "producer_inv c (s\<lparr>popped := xs\<rparr>) = producer_inv c s"
  by (rule producer_inv_frame; simp)+

lemma producer_steps_inv:
  assumes inv: "machine_inv c s"
  shows push_begin_inv: "ppc s = P_Idle \<Longrightarrow>
      machine_inv c (s\<lparr>ppc := P_Loaded x (last (w_hist s)) ((last (w_hist s) + 1) mod c)\<rparr>)"
    and push_load_inv: "ppc s = P_Loaded x cw nw \<Longrightarrow> p_view s \<le> k \<Longrightarrow> k < length (r_hist s) \<Longrightarrow>
      machine_inv c (s\<lparr>p_view := k, ppc := (if nw = r_hist s ! k then P_Idle else P_Admitted x cw nw)\<rparr>)"
    and push_write_inv: "ppc s = P_Admitted x cw nw \<Longrightarrow>
      machine_inv c (s\<lparr>slots := (slots s)[unat cw := x],
        wstamp := (wstamp s)[unat cw := length (w_hist s)], ppc := P_Written x nw\<rparr>)"
    and push_release_inv: "ppc s = P_Written x nw \<Longrightarrow>
      machine_inv c (s\<lparr>w_hist := w_hist s @ [nw], pushed := pushed s @ [x], ppc := P_Idle\<rparr>)"
proof -
  from inv have sh: "shared_inv c s" and P: "producer_inv c s" and C: "consumer_inv c s"
    by (auto simp: machine_inv_def)
  note d = shared_invD [OF sh] and h = shared_hist [OF sh]
  let ?n = "length (pushed s)" and ?m = "length (popped s)" and ?k = "unat c"
  note defs = machine_inv_def shared_inv_def producer_inv_def Let_def
  show "machine_inv c (s\<lparr>ppc := P_Loaded x (last (w_hist s)) ((last (w_hist s) + 1) mod c)\<rparr>)"
    if "ppc s = P_Idle"
    using sh C h(1) idx_next [OF d(1)] by (simp add: defs frame)
  show "machine_inv c (s\<lparr>p_view := k, ppc := (if nw = r_hist s ! k then P_Idle else P_Admitted x cw nw)\<rparr>)"
    if pc: "ppc s = P_Loaded x cw nw" and k: "p_view s \<le> k" "k < length (r_hist s)"
  proof -
    have "k \<le> ?m" using k(2) h(4) by simp
    moreover have "nw = idx c (Suc ?n)" "cw = idx c ?n" using P pc by (auto simp: producer_inv_def Let_def)
    ultimately show ?thesis
      using sh C full_window [OF sh k] by (auto simp: defs frame)
  qed
  show "machine_inv c (s\<lparr>slots := (slots s)[unat cw := x],
        wstamp := (wstamp s)[unat cw := length (w_hist s)], ppc := P_Written x nw\<rparr>)"
    if pc: "ppc s = P_Admitted x cw nw"
  proof -
    have a: "unat cw = ?n mod ?k" "nw = idx c (Suc ?n)" "Suc ?n < p_view s + ?k"
      using P pc d(1) by (auto simp: producer_inv_def Let_def unat_idx)
    have ne: "?n mod ?k \<noteq> i mod ?k" if "?m \<le> i" "i < ?n" for i
      using mod_inj_window [of i ?k ?n] that a(3) d(7) by auto
    have "?n mod ?k < ?k" using d(1) by simp
    with a ne sh C h(3) show ?thesis by (auto simp: defs frame)
  qed
  show "machine_inv c (s\<lparr>w_hist := w_hist s @ [nw], pushed := pushed s @ [x], ppc := P_Idle\<rparr>)"
    if pc: "ppc s = P_Written x nw"
  proof -
    have a: "nw = idx c (Suc ?n)" "Suc ?n < p_view s + ?k" "slots s ! (?n mod ?k) = x"
      "wstamp s ! (?n mod ?k) = Suc ?n"
      using P pc by (auto simp: producer_inv_def Let_def)
    have "shared_inv c (s\<lparr>w_hist := w_hist s @ [nw], pushed := pushed s @ [x], ppc := P_Idle\<rparr>)"
      unfolding shared_inv_def Let_def
      using d a by (auto simp: nth_append less_Suc_eq)
    moreover have "consumer_inv c (s\<lparr>w_hist := w_hist s @ [nw], pushed := pushed s @ [x], ppc := P_Idle\<rparr>)"
      using C d(9) by (auto simp: consumer_inv_def Let_def nth_append split: consumer_pc.splits)
    ultimately show ?thesis by (simp add: machine_inv_def producer_inv_def)
  qed
qed

lemma consumer_steps_inv:
  assumes inv: "machine_inv c s"
  shows pop_begin_inv: "cpc s = C_Idle \<Longrightarrow> machine_inv c (s\<lparr>cpc := C_Loaded (last (r_hist s))\<rparr>)"
    and pop_load_inv: "cpc s = C_Loaded cr \<Longrightarrow> c_view s \<le> k \<Longrightarrow> k < length (w_hist s) \<Longrightarrow>
      machine_inv c (s\<lparr>c_view := k, cpc := (if cr = w_hist s ! k then C_Idle else C_Admitted cr)\<rparr>)"
    and pop_read_inv: "cpc s = C_Admitted cr \<Longrightarrow>
      machine_inv c (s\<lparr>rstamp := (rstamp s)[unat cr := length (r_hist s)],
        cpc := C_Read cr (slots s ! unat cr)\<rparr>)"
    and pop_release_inv: "cpc s = C_Read cr x \<Longrightarrow>
      machine_inv c (s\<lparr>r_hist := r_hist s @ [(cr + 1) mod c], popped := popped s @ [x], cpc := C_Idle\<rparr>)"
proof -
  from inv have sh: "shared_inv c s" and P: "producer_inv c s" and C: "consumer_inv c s"
    by (auto simp: machine_inv_def)
  note d = shared_invD [OF sh] and h = shared_hist [OF sh]
  let ?n = "length (pushed s)" and ?m = "length (popped s)" and ?k = "unat c"
  note defs = machine_inv_def shared_inv_def consumer_inv_def Let_def
  show "machine_inv c (s\<lparr>cpc := C_Loaded (last (r_hist s))\<rparr>)" if "cpc s = C_Idle"
    using sh P h(2) by (simp add: defs frame)
  show "machine_inv c (s\<lparr>c_view := k, cpc := (if cr = w_hist s ! k then C_Idle else C_Admitted cr)\<rparr>)"
    if pc: "cpc s = C_Loaded cr" and k: "c_view s \<le> k" "k < length (w_hist s)"
  proof -
    have "cr = idx c ?m" using C pc by (auto simp: consumer_inv_def Let_def)
    then show ?thesis using sh P empty_window [OF sh k] by (auto simp: defs frame)
  qed
  show "machine_inv c (s\<lparr>rstamp := (rstamp s)[unat cr := length (r_hist s)],
        cpc := C_Read cr (slots s ! unat cr)\<rparr>)"
    if pc: "cpc s = C_Admitted cr"
  proof -
    have a: "cr = idx c ?m" "unat cr = ?m mod ?k" "?m < c_view s"
      using C pc d(1) by (auto simp: consumer_inv_def Let_def unat_idx)
    have ne: "?m mod ?k \<noteq> i mod ?k" if "?n \<le> i" "i < ?m + ?k" for i
      using mod_inj_window [of ?m ?k i] that a(3) d(9) by auto
    have "?m mod ?k < ?k" using d(1) by simp
    with a ne sh P h(4) d(9) d(12) [of ?m] show ?thesis by (auto simp: defs frame)
  qed
  show "machine_inv c (s\<lparr>r_hist := r_hist s @ [(cr + 1) mod c], popped := popped s @ [x], cpc := C_Idle\<rparr>)"
    if pc: "cpc s = C_Read cr x"
  proof -
    have a: "(cr + 1) mod c = idx c (Suc ?m)" "?m < c_view s" "x = pushed s ! ?m" "rstamp s ! (?m mod ?k) = Suc ?m"
      using C pc idx_next [OF d(1)] by (auto simp: consumer_inv_def Let_def)
    have "take (Suc ?m) (pushed s) = popped s @ [x]"
      using a(2,3) d(9,11) by (metis le_trans not_less_eq_eq not_le take_Suc_conv_app_nth)
    then have "shared_inv c (s\<lparr>r_hist := r_hist s @ [(cr + 1) mod c], popped := popped s @ [x], cpc := C_Idle\<rparr>)"
      unfolding shared_inv_def Let_def
      using d a by (auto simp: less_Suc_eq)
    with P show ?thesis by (simp add: machine_inv_def consumer_inv_def frame)
  qed
qed

lemma step_inv:
  assumes "machine_inv c s" "spsc_step c s s'"
  shows "machine_inv c s'"
  using assms(2,1)
proof cases
  case (push_full x cw nw k)
  then show ?thesis using push_load_inv [OF assms(1), of x cw nw k] by simp
next
  case (push_admit x cw nw k)
  then show ?thesis using push_load_inv [OF assms(1), of x cw nw k] by simp
next
  case (pop_empty cr k)
  then show ?thesis using pop_load_inv [OF assms(1), of cr k] by simp
next
  case (pop_admit cr k)
  then show ?thesis using pop_load_inv [OF assms(1), of cr k] by simp
qed (auto intro: producer_steps_inv consumer_steps_inv)

lemma reachable_inv:
  assumes "spsc_reachable c s" "c \<noteq> 0"
  shows "machine_inv c s"
proof -
  from assms(1) obtain x where "spsc_run c (spsc_initial c x) s" by (auto simp: spsc_reachable_def)
  then show ?thesis by induction (auto intro: initial_inv [OF assms(2)] step_inv)
qed

section \<open>What the threads observe\<close>

text \<open>The queue object in memory: the last stores to the indices and the slots.\<close>

definition queue_object :: "'a machine \<Rightarrow> 'a SPSCQueue" where
  "queue_object s = \<lparr>write_index = last (w_hist s), read_index = last (r_hist s), data = slots s\<rparr>"

lemma cdist_mod:
  assumes "m \<le> n" "n < m + k"
  shows "cdist k (m mod k) (n mod k) = n - m"
proof -
  have k: "0 < k" using assms by simp
  have "(m mod k + cdist k (m mod k) (n mod k)) mod k = (m mod k + (n - m)) mod k"
    using assms k cdist_next(4) [of "m mod k" k "n mod k"] mod_add_left_eq [of m k "n - m"] by simp
  then show ?thesis
    by (rule add_mod_inj [rotated 2]) (use assms k in \<open>auto intro: cdist_less\<close>)
qed

lemma queue_object_inv:
  assumes "shared_inv c s"
  shows "queue_inv c (queue_object s)" "contents (queue_object s) = drop (length (popped s)) (pushed s)"
proof -
  note d = shared_invD [OF assms] and h = shared_hist [OF assms]
  let ?n = "length (pushed s)" and ?m = "length (popped s)" and ?k = "unat c"
  show "queue_inv c (queue_object s)"
    using d h by (simp add: queue_inv_def queue_object_def word_less_nat_alt unat_idx)
  have "cdist ?k (?m mod ?k) (?n mod ?k) = ?n - ?m"
    by (rule cdist_mod) (use d in auto)
  then show "contents (queue_object s) = drop ?m (pushed s)"
    using d h by (intro nth_equalityI)
      (auto simp: contents_def queue_object_def unat_idx mod_add_left_eq)
qed

lemma window_free:
  assumes "machine_inv c s"
  shows "data_race_free s"
  unfolding data_race_free_def
proof (intro conjI allI impI)
  from assms have sh: "shared_inv c s" by (simp add: machine_inv_def)
  note d = shared_invD [OF sh]
  let ?n = "length (pushed s)" and ?m = "length (popped s)" and ?k = "unat c"
  fix x cw nw assume "ppc s = P_Admitted x cw nw"
  then have a: "unat cw = ?n mod ?k" "Suc ?n < p_view s + ?k"
    using assms d(1) by (auto simp: machine_inv_def producer_inv_def Let_def unat_idx)
  then show "unat cw < length (slots s)" using d(1,2) by simp
  have "rstamp s ! (?n mod ?k) \<le> Suc ?n - ?k" by (rule d(14)) (use a(2) d(7) in auto)
  with a show "rstamp s ! unat cw \<le> p_view s" by simp
next
  from assms have sh: "shared_inv c s" by (simp add: machine_inv_def)
  note d = shared_invD [OF sh]
  let ?n = "length (pushed s)" and ?m = "length (popped s)" and ?k = "unat c"
  fix cr assume "cpc s = C_Admitted cr"
  then have a: "unat cr = ?m mod ?k" "?m < c_view s"
    using assms d(1) by (auto simp: machine_inv_def consumer_inv_def Let_def unat_idx)
  then show "unat cr < length (slots s)" using d(1,2) by simp
  have "wstamp s ! (?m mod ?k) = Suc ?m" by (rule d(13)) (use a(2) d(9) in auto)
  with a show "wstamp s ! unat cr \<le> c_view s" by simp
qed

lemma run_step: "spsc_step c a b \<Longrightarrow> spsc_run c b d \<Longrightarrow> spsc_run c a d"
  by (rule converse_rtranclp_into_rtranclp)

lemma run_one: "spsc_step c a b \<Longrightarrow> spsc_run c a b"
  by (rule r_into_rtranclp)

lemma push_alone:
  assumes "machine_inv c s" "ppc s = P_Idle" "push c x (queue_object s) = Some (b, q')"
  shows "\<exists>s'. spsc_run c s s' \<and> queue_object s' = q' \<and> ppc s' = P_Idle \<and> cpc s' = cpc s \<and>
           pushed s' = (if b then pushed s @ [x] else pushed s) \<and> popped s' = popped s"
proof -
  from assms(1) have sh: "shared_inv c s" by (simp add: machine_inv_def)
  note d = shared_invD [OF sh] and h = shared_hist [OF sh]
  let ?cw = "last (w_hist s)" and ?nw = "(last (w_hist s) + 1) mod c" and ?k = "length (popped s)"
  let ?s1 = "s\<lparr>ppc := P_Loaded x ?cw ?nw\<rparr>"
  have s1: "spsc_step c s ?s1" using assms(2) by (rule push_begin)
  have k: "p_view ?s1 \<le> ?k" "?k < length (r_hist ?s1)" "r_hist ?s1 ! ?k = last (r_hist s)"
    using d(7) h by auto
  have c0: "c \<noteq> 0" using d(1) by auto
  show ?thesis
  proof (cases "?nw = last (r_hist s)")
    case True
    let ?s2 = "?s1\<lparr>p_view := ?k, ppc := P_Idle\<rparr>"
    have "spsc_step c ?s1 ?s2" by (rule push_full [of _ x ?cw ?nw]) (use k True in auto)
    then have r: "spsc_run c s ?s2" by (intro run_step [OF s1] run_one)
    from True c0 assms(3) have "b = False \<and> q' = queue_object s"
      by (auto simp: push_def queue_object_def Let_def)
    then show ?thesis by (intro exI [of _ ?s2]) (use r in \<open>simp add: queue_object_def\<close>)
  next
    case False
    let ?s2 = "?s1\<lparr>p_view := ?k, ppc := P_Admitted x ?cw ?nw\<rparr>"
    let ?s3 = "?s2\<lparr>slots := (slots s)[unat ?cw := x], wstamp := (wstamp s)[unat ?cw := length (w_hist s)],
      ppc := P_Written x ?nw\<rparr>"
    let ?s4 = "?s3\<lparr>w_hist := w_hist s @ [?nw], pushed := pushed s @ [x], ppc := P_Idle\<rparr>"
    have s2: "spsc_step c ?s1 ?s2" by (rule push_admit [of _ x ?cw ?nw]) (use k False in auto)
    have s3: "spsc_step c ?s2 ?s3" using push_write [of ?s2 x ?cw ?nw c] by simp
    have s4: "spsc_step c ?s3 ?s4" using push_release [of ?s3 x ?nw c] by simp
    have r: "spsc_run c s ?s4"
      by (rule run_step [OF s1 run_step [OF s2 run_step [OF s3 run_one [OF s4]]]])
    have "unat ?cw < length (slots s)" using h(1) d(1,2) by (simp add: unat_idx)
    with False c0 assms(3) have "b = True \<and> q' = queue_object ?s4"
      by (auto simp: push_def queue_object_def Let_def)
    then show ?thesis by (intro exI [of _ ?s4]) (use r in simp)
  qed
qed

lemma pop_alone:
  assumes "machine_inv c s" "cpc s = C_Idle" "pop c (queue_object s) = Some (r, q')"
  shows "\<exists>s'. spsc_run c s s' \<and> queue_object s' = q' \<and> cpc s' = C_Idle \<and> ppc s' = ppc s \<and>
           popped s' = (case r of None \<Rightarrow> popped s | Some x \<Rightarrow> popped s @ [x]) \<and> pushed s' = pushed s"
proof -
  from assms(1) have sh: "shared_inv c s" by (simp add: machine_inv_def)
  note d = shared_invD [OF sh] and h = shared_hist [OF sh]
  let ?cr = "last (r_hist s)" and ?k = "length (pushed s)"
  let ?s1 = "s\<lparr>cpc := C_Loaded ?cr\<rparr>"
  have s1: "spsc_step c s ?s1" using assms(2) by (rule pop_begin)
  have k: "c_view ?s1 \<le> ?k" "?k < length (w_hist ?s1)" "w_hist ?s1 ! ?k = last (w_hist s)"
    using d(9) h by auto
  have c0: "c \<noteq> 0" using d(1) by auto
  show ?thesis
  proof (cases "?cr = last (w_hist s)")
    case True
    let ?s2 = "?s1\<lparr>c_view := ?k, cpc := C_Idle\<rparr>"
    have s2: "spsc_step c ?s1 ?s2" by (rule pop_empty [of _ ?cr]) (use k True in auto)
    have r: "spsc_run c s ?s2"
      by (rule run_step [OF s1 run_one [OF s2]])
    from True c0 assms(3) have "r = None \<and> q' = queue_object s"
      by (auto simp: pop_def queue_object_def Let_def)
    then show ?thesis by (intro exI [of _ ?s2]) (use r in \<open>simp add: queue_object_def\<close>)
  next
    case False
    let ?x = "slots s ! unat ?cr"
    let ?s2 = "?s1\<lparr>c_view := ?k, cpc := C_Admitted ?cr\<rparr>"
    let ?s3 = "?s2\<lparr>rstamp := (rstamp s)[unat ?cr := length (r_hist s)], cpc := C_Read ?cr ?x\<rparr>"
    let ?s4 = "?s3\<lparr>r_hist := r_hist s @ [(?cr + 1) mod c], popped := popped s @ [?x], cpc := C_Idle\<rparr>"
    have s2: "spsc_step c ?s1 ?s2" by (rule pop_admit [of _ ?cr]) (use k False in auto)
    have s3: "spsc_step c ?s2 ?s3" using pop_read [of ?s2 ?cr c] by simp
    have s4: "spsc_step c ?s3 ?s4" using pop_release [of ?s3 ?cr ?x c] by simp
    have r: "spsc_run c s ?s4"
      by (rule run_step [OF s1 run_step
            [OF s2 run_step [OF s3 run_one [OF s4]]]])
    have "unat ?cr < length (slots s)" using h(2) d(1,2) by (simp add: unat_idx)
    with False c0 assms(3) have "r = Some ?x \<and> q' = queue_object ?s4"
      by (auto simp: pop_def queue_object_def Let_def)
    then show ?thesis by (intro exI [of _ ?s4]) (use r in simp)
  qed
qed

section \<open>Properties\<close>

text \<open>
  C9. The queue is first-in first-out and loses nothing under concurrency: in every state that
  the two threads can reach, however their accesses interleave and however stale the indices are
  that their acquire loads return, the items whose push has completed are the items popped so
  far followed by the items in the ring, at most \<open>Capacity - 1\<close> of them.
\<close>

theorem spsc_concurrent_fifo:
  assumes "spsc_reachable c s" "c \<noteq> 0"
  shows "pushed s = popped s @ contents (queue_object s) \<and>
         length (contents (queue_object s)) < unat c"
proof -
  have sh: "shared_inv c s" using reachable_inv [OF assms] by (simp add: machine_inv_def)
  note d = shared_invD [OF sh]
  have "pushed s = popped s @ drop (length (popped s)) (pushed s)"
    using d(11) by (metis append_take_drop_id)
  moreover have "length (pushed s) - length (popped s) < unat c" using d(7-10) by simp
  ultimately show ?thesis unfolding queue_object_inv [OF sh] by simp
qed

text \<open>A reachable state with one item pushed and one popped, used by the witnesses.\<close>

lemma first_push:
  "push 2 7 (queue_object (spsc_initial 2 (0 :: nat))) =
     Some (True, \<lparr>write_index = 1, read_index = 0, data = [7, 0]\<rparr>)"
proof -
  have "replicate 2 (0 :: nat) = [0, 0]" by (simp add: numeral_2_eq_2)
  then show ?thesis by (simp add: push_def queue_object_def spsc_initial_def Let_def)
qed

lemma witness_state:
  "\<exists>s. spsc_reachable 2 s \<and> pushed s = [7] \<and> popped s = [7 :: nat] \<and> ppc s = P_Idle \<and> cpc s = C_Idle"
proof -
  let ?s0 = "spsc_initial 2 (0 :: nat)"
  have i0: "machine_inv 2 ?s0" by (rule initial_inv) simp
  from push_alone [OF i0 _ first_push] obtain s1 where s1: "spsc_run 2 ?s0 s1" "cpc s1 = C_Idle"
    "queue_object s1 = \<lparr>write_index = 1, read_index = 0, data = [7, 0]\<rparr>" "ppc s1 = P_Idle"
    "pushed s1 = [7]" "popped s1 = []"
    by (auto simp: spsc_initial_def)
  have i1: "machine_inv 2 s1" by (rule reachable_inv) (use s1(1) in \<open>auto simp: spsc_reachable_def\<close>)
  have "pop 2 (queue_object s1) = Some (Some 7, \<lparr>write_index = 1, read_index = 1, data = [7, 0]\<rparr>)"
    by (simp add: s1(3) pop_def)
  from pop_alone [OF i1 s1(2) this] s1 obtain s2 where "spsc_run 2 s1 s2" "pushed s2 = [7]"
    "popped s2 = [7]" "ppc s2 = P_Idle" "cpc s2 = C_Idle" by auto
  with s1(1) show ?thesis
    unfolding spsc_reachable_def by (meson rtranclp_trans)
qed

theorem spsc_concurrent_fifo_witness:
  "\<exists>s. spsc_reachable 2 s \<and> popped s = [7 :: nat] \<and> pushed s = popped s @ contents (queue_object s) \<and>
       length (contents (queue_object s)) < 2"
  using witness_state spsc_concurrent_fifo [where c = 2] by (fastforce simp del: append_self_conv)

text \<open>
  C10. There is no data race on the slots: whenever a thread is about to write or read a slot, the
  slot is inside the array and the other thread's last access to it happens before, through a
  release store of the other thread's index that this thread's acquire load has read.
\<close>

theorem spsc_data_race_free:
  assumes "spsc_reachable c s" "c \<noteq> 0"
  shows "data_race_free s"
  using reachable_inv [OF assms] by (rule window_free)

theorem spsc_data_race_free_witness:
  "\<exists>s :: nat machine. spsc_reachable 2 s \<and> ppc s = P_Admitted 7 0 1 \<and> data_race_free s"
proof -
  let ?s0 = "spsc_initial 2 (0 :: nat)"
  let ?s1 = "?s0\<lparr>ppc := P_Loaded 7 0 1\<rparr>"
  let ?s2 = "?s1\<lparr>p_view := 0, ppc := P_Admitted 7 0 1\<rparr>"
  have "spsc_step 2 ?s0 ?s1" using push_begin [of ?s0 2 7] by (simp add: spsc_initial_def)
  moreover have "spsc_step 2 ?s1 ?s2"
    by (rule push_admit [of _ 7 0 1 0]) (simp_all add: spsc_initial_def)
  ultimately have "spsc_reachable 2 ?s2"
    unfolding spsc_reachable_def by (intro exI [of _ 0] run_step [of 2 ?s0 ?s1] run_one)
  with spsc_data_race_free [OF this] show ?thesis by (intro exI [of _ ?s2]) simp
qed



end
