(* ===== verification/Wire_Bytes.thy ===== *)
theory Wire_Bytes
  imports HFT_Prelude
begin

text \<open>
  Bytes of the wire formats: integers as they lie in memory of the little-endian host, the byte
  swap builtins, C strings, and the contract \<open>packed_struct\<close> of a struct declared under
  \<open>#pragma pack(push, 1)\<close> that is laid over a buffer with \<open>reinterpret_cast\<close>. The struct theories
  interpret the contract on each message of ITCH 5.0 and OUCH 4.2.
\<close>

section \<open>Integers in memory\<close>

fun le_bytes :: "nat \<Rightarrow> nat \<Rightarrow> u8 list" where
  "le_bytes 0 x = []"
| "le_bytes (Suc n) x = of_nat (x mod 256) # le_bytes n (x div 256)"

fun of_le :: "u8 list \<Rightarrow> nat" where
  "of_le [] = 0"
| "of_le (b # bs) = unat b + 256 * of_le bs"

lemma length_le_bytes [simp]: "length (le_bytes n x) = n"
  by (induction n arbitrary: x) auto

lemma of_le_less: "of_le bs < 256 ^ length bs"
proof (induction bs)
  case (Cons b bs)
  have "unat b < 256" using unsigned_less [of b, where ?'a = nat] by simp
  with Cons show ?case by simp
qed simp

lemma of_le_le_bytes [simp]: "of_le (le_bytes n x) = x mod 256 ^ n"
proof (induction n arbitrary: x)
  case (Suc n)
  have "x mod 256 + 256 * (x div 256 mod 256 ^ n) = x mod (256 * 256 ^ n)"
    by (simp add: mod_mult2_eq)
  with Suc show ?case by (simp add: unat_of_nat take_bit_eq_mod)
qed simp

lemma le_bytes_of_le [simp]: "length bs = n \<Longrightarrow> le_bytes n (of_le bs) = bs"
proof (induction bs arbitrary: n)
  case (Cons b bs)
  have "unat b < 256" using unsigned_less [of b, where ?'a = nat] by simp
  with Cons show ?case by (cases n) (auto simp: div_add1_eq)
qed simp

text \<open>Big-endian, the byte order of the wire.\<close>

definition be_bytes :: "nat \<Rightarrow> nat \<Rightarrow> u8 list" where
  "be_bytes n x = rev (le_bytes n x)"

definition of_be :: "u8 list \<Rightarrow> nat" where
  "of_be bs = of_le (rev bs)"

lemma length_be_bytes [simp]: "length (be_bytes n x) = n"
  by (simp add: be_bytes_def)

lemma of_be_be_bytes [simp]: "of_be (be_bytes n x) = x mod 256 ^ n"
  by (simp add: be_bytes_def of_be_def)

lemma be_bytes_of_be [simp]: "length bs = n \<Longrightarrow> be_bytes n (of_be bs) = bs"
  by (simp add: be_bytes_def of_be_def)

section \<open>The byte swap builtins\<close>

definition bswap16 :: "u16 \<Rightarrow> u16" where
  "bswap16 x = of_nat (of_le (rev (le_bytes 2 (unat x))))"

definition bswap32 :: "u32 \<Rightarrow> u32" where
  "bswap32 x = of_nat (of_le (rev (le_bytes 4 (unat x))))"

definition bswap64 :: "u64 \<Rightarrow> u64" where
  "bswap64 x = of_nat (of_le (rev (le_bytes 8 (unat x))))"

lemma unat_of_le:
  "length bs = 2 \<Longrightarrow> unat (of_nat (of_le bs) :: u16) = of_le bs"
  "length bs = 4 \<Longrightarrow> unat (of_nat (of_le bs) :: u32) = of_le bs"
  "length bs = 8 \<Longrightarrow> unat (of_nat (of_le bs) :: u64) = of_le bs"
  using of_le_less [of bs] by (auto simp: unat_of_nat take_bit_eq_mod)

lemma le_bytes_bswap [wire_simps]:
  "le_bytes 2 (unat (bswap16 x)) = be_bytes 2 (unat x)"
  "le_bytes 4 (unat (bswap32 y)) = be_bytes 4 (unat y)"
  "le_bytes 8 (unat (bswap64 z)) = be_bytes 8 (unat z)"
  by (simp_all add: bswap16_def bswap32_def bswap64_def be_bytes_def unat_of_le)

lemma bswap_of_le [wire_simps]:
  "length bs = 2 \<Longrightarrow> bswap16 (of_nat (of_le bs)) = of_nat (of_be bs)"
  "length bs = 4 \<Longrightarrow> bswap32 (of_nat (of_le bs)) = of_nat (of_be bs)"
  "length bs = 8 \<Longrightarrow> bswap64 (of_nat (of_le bs)) = of_nat (of_be bs)"
  by (simp_all add: bswap16_def bswap32_def bswap64_def of_be_def unat_of_le)

lemma word_mod_range [simp]:
  "unat (x :: u16) mod 65536 = unat x" "unat (y :: u32) mod 4294967296 = unat y"
  "unat (z :: u64) mod 18446744073709551616 = unat z"
  using unsigned_less [of x, where ?'a = nat] unsigned_less [of y, where ?'a = nat]
    unsigned_less [of z, where ?'a = nat] by simp_all

lemma bswap_bswap [simp]:
  "bswap16 (bswap16 x) = x" "bswap32 (bswap32 y) = y" "bswap64 (bswap64 z) = z"
  by (simp_all add: bswap16_def [of "bswap16 x"] bswap32_def [of "bswap32 y"]
      bswap64_def [of "bswap64 z"] wire_simps be_bytes_def)

section \<open>C strings\<close>

text \<open>A character constant, as the byte it is stored as.\<close>

definition ch :: "char \<Rightarrow> u8" where
  "ch c = of_char c"

text \<open>
  The memory from a \<open>const char*\<close> on. \<open>strlen\<close> of a memory without a terminating zero byte reads
  on beyond it and has no defined result.
\<close>

fun strlen :: "u8 list \<Rightarrow> nat option" where
  "strlen [] = None"
| "strlen (b # bs) = (if b = 0 then Some 0 else map_option Suc (strlen bs))"

type_synonym cstr = "u8 list option"

fun strlen_or_null :: "cstr \<Rightarrow> nat option" where
  "strlen_or_null None = Some 0"
| "strlen_or_null (Some s) = strlen s"

text \<open>\<open>std::memcpy(dest, src, n)\<close> on the bytes of \<open>dest\<close>.\<close>

definition memcpy :: "u8 list \<Rightarrow> u8 list \<Rightarrow> nat \<Rightarrow> u8 list option" where
  "memcpy dest src n = (if n \<le> length dest \<and> n \<le> length src then Some (take n src @ drop n dest) else None)"

text \<open>The bytes of a local array that is not initialised.\<close>

definition uninit :: "(nat \<Rightarrow> u8) \<Rightarrow> nat \<Rightarrow> u8 list" where
  "uninit junk n = map junk [0..<n]"

lemma length_uninit [simp]: "length (uninit junk n) = n"
  by (simp add: uninit_def)

function pad_spaces :: "u8 list \<Rightarrow> nat \<Rightarrow> nat \<Rightarrow> u8 list option" where
  "pad_spaces dest i sz = (if i < sz then do { d \<leftarrow> awrite dest i 32; pad_spaces d (Suc i) sz } else Some dest)"
  by pat_completeness auto
termination by (relation "measure (\<lambda>(d, i, sz). sz - i)") auto

declare pad_spaces.simps [simp del]

definition copy_string_padded :: "u8 list \<Rightarrow> cstr \<Rightarrow> nat \<Rightarrow> u8 list option" where
  "copy_string_padded dest src sz = do {
     len \<leftarrow> strlen_or_null src;
     let copy_len = min len sz;
     d \<leftarrow> (if copy_len > 0 then (case src of None \<Rightarrow> None | Some s \<Rightarrow> memcpy dest s copy_len) else Some dest);
     pad_spaces d copy_len sz }"

text \<open>The text of a C string, and a field of \<open>sz\<close> bytes that holds it left-justified.\<close>

definition ctext :: "cstr \<Rightarrow> u8 list option" where
  "ctext src = (case src of None \<Rightarrow> Some [] | Some s \<Rightarrow> map_option (\<lambda>n. take n s) (strlen s))"

definition padded :: "u8 list \<Rightarrow> nat \<Rightarrow> u8 list" where
  "padded t sz = take sz t @ replicate (sz - length t) 32"

lemma length_padded [simp]: "length (padded t sz) = sz"
  by (simp add: padded_def)

lemma strlen_Some: "strlen s = Some n \<Longrightarrow> n < length s \<and> s ! n = 0 \<and> (\<forall>i < n. s ! i \<noteq> 0)"
proof (induction s arbitrary: n)
  case (Cons b s)
  then show ?case by (auto split: if_splits simp: less_Suc_eq_0_disj)
qed simp

lemma strlen_None_iff: "strlen s = None \<longleftrightarrow> 0 \<notin> set s"
  by (induction s) auto

lemma strlen_append_0 [simp]: "0 \<notin> set t \<Longrightarrow> strlen (t @ 0 # s) = Some (length t)"
  by (induction t) auto

lemma pad_spaces_eq:
  "i \<le> sz \<Longrightarrow> sz \<le> length dest \<Longrightarrow>
    pad_spaces dest i sz = Some (take i dest @ replicate (sz - i) 32 @ drop sz dest)"
proof (induction dest i sz rule: pad_spaces.induct)
  case (1 dest i sz)
  show ?case
  proof (cases "i < sz")
    case True
    then have a: "awrite dest i 32 = Some (dest[i := 32])" using 1(3) by simp
    have "take (Suc i) (dest[i := 32]) = take i dest @ [32]"
      using True 1(3) by (simp add: take_Suc_conv_app_nth)
    moreover have "sz - i = Suc (sz - Suc i)" using True by simp
    ultimately show ?thesis using 1(1) [OF True, of "dest[i := 32]"] True 1(3) a
      by (subst pad_spaces.simps) simp
  next
    case False
    then show ?thesis using 1(2) by (subst pad_spaces.simps) simp
  qed
qed

lemma copy_string_padded_eq:
  assumes "length dest = sz"
  shows "copy_string_padded dest src sz = map_option (\<lambda>t. padded t sz) (ctext src)"
proof (cases src)
  case None
  then show ?thesis using pad_spaces_eq [of 0 sz dest] assms
    by (simp add: copy_string_padded_def ctext_def padded_def)
next
  case (Some s)
  show ?thesis
  proof (cases "strlen s")
    case (Some n)
    let ?k = "min n sz"
    from strlen_Some [OF Some] have n: "n < length s" by simp
    let ?d = "take ?k s @ drop ?k dest"
    have "(if ?k > 0 then memcpy dest s ?k else Some dest) = Some ?d"
      using n assms by (auto simp: memcpy_def)
    moreover have "pad_spaces ?d ?k sz = Some (take ?k s @ replicate (sz - n) 32)"
      using pad_spaces_eq [of ?k sz ?d] n assms by simp
    ultimately show ?thesis using \<open>src = Some s\<close> Some n
      by (auto simp: copy_string_padded_def ctext_def padded_def min.commute Let_def split: if_splits)
  qed (simp add: \<open>src = Some s\<close> copy_string_padded_def ctext_def)
qed

section \<open>Packed structs over a buffer\<close>

text \<open>
  \<open>bytes s\<close> is the object representation of a struct value, \<open>view\<close> reads a struct value at the
  beginning of a buffer (no result when the buffer ends inside the struct), \<open>wf\<close> says that the
  array members have their declared lengths.
\<close>

locale packed_struct =
  fixes bytes :: "'s \<Rightarrow> u8 list"
    and view :: "u8 list \<Rightarrow> 's option"
    and sizeof :: nat
    and wf :: "'s \<Rightarrow> bool"
  assumes view_bytes: "wf s \<Longrightarrow> view (bytes s @ rest) = Some s"
    and bytes_view: "sizeof \<le> length b \<Longrightarrow> \<exists>s. view b = Some s \<and> wf s \<and> bytes s = take sizeof b"
    and length_bytes: "wf s \<Longrightarrow> length (bytes s) = sizeof"
    and view_short: "length b < sizeof \<Longrightarrow> view b = None"
begin

text \<open>Writing members through the cast pointer: the struct changes, the rest of the buffer does not.\<close>

lemma overlay:
  assumes "view b = Some s" "wf s'"
  shows "view (bytes s' @ drop sizeof b) = Some s'"
    and "length (bytes s' @ drop sizeof b) = length b"
    and "drop sizeof (bytes s' @ drop sizeof b) = drop sizeof b"
proof -
  show "view (bytes s' @ drop sizeof b) = Some s'" using assms(2) by (rule view_bytes)
  have "sizeof \<le> length b" using assms(1) view_short [of b] by (metis not_le option.distinct(1))
  with length_bytes [OF assms(2)]
  show "length (bytes s' @ drop sizeof b) = length b"
    "drop sizeof (bytes s' @ drop sizeof b) = drop sizeof b" by simp_all
qed

lemma bytes_inj: "wf s \<Longrightarrow> wf s' \<Longrightarrow> bytes s = bytes s' \<Longrightarrow> s = s'"
  using view_bytes [of s "[]"] view_bytes [of s' "[]"] by simp

lemma view_iff: "view b \<noteq> None \<longleftrightarrow> sizeof \<le> length b"
  using bytes_view [of b] view_short [of b] by (cases "sizeof \<le> length b") auto

end

text \<open>The bytes \<open>[off, off + n)\<close> of a buffer.\<close>

definition bslice :: "u8 list \<Rightarrow> nat \<Rightarrow> nat \<Rightarrow> u8 list" where
  "bslice b off n = take n (drop off b)"

lemma length_slice [simp]: "off + n \<le> length b \<Longrightarrow> length (bslice b off n) = n"
  by (simp add: bslice_def)

lemma slice_join [wire_simps]:
  "j = i + m \<Longrightarrow> bslice b i m @ bslice b j n = bslice b i (m + n)"
  "j = i + m \<Longrightarrow> bslice b i m @ bslice b j n @ r = bslice b i (m + n) @ r"
  by (simp_all add: bslice_def take_add add.commute)

lemma slice_skip [wire_simps]:
  "length a \<le> i \<Longrightarrow> bslice (a @ b) i n = bslice b (i - length a) n"
  "0 < i \<Longrightarrow> bslice (x # b) i n = bslice b (i - 1) n"
  by (auto simp: bslice_def drop_Cons' Suc_le_eq)

lemma slice_hit [wire_simps]: "length a = n \<Longrightarrow> bslice (a @ b) 0 n = a"
  by (simp add: bslice_def)

lemma slice_one [wire_simps]: "i < length b \<Longrightarrow> b ! i # r = bslice b i 1 @ r"
  by (simp add: bslice_def Cons_nth_drop_Suc [symmetric])

lemma slice_all [wire_simps]: "bslice b 0 n = take n b"
  by (simp add: bslice_def)

lemma slice_first [wire_simps]: "Suc n \<le> length b \<Longrightarrow> b ! 0 # bslice b (Suc 0) n = take (Suc n) b"
  by (cases b) (simp_all add: bslice_def)

text \<open>Reading an integer member and writing it back.\<close>

lemma le_member [wire_simps]:
  "length bs = 2 \<Longrightarrow> le_bytes 2 (unat (of_nat (of_le bs) :: u16)) = bs"
  "length bs = 4 \<Longrightarrow> le_bytes 4 (unat (of_nat (of_le bs) :: u32)) = bs"
  "length bs = 8 \<Longrightarrow> le_bytes 8 (unat (of_nat (of_le bs) :: u64)) = bs"
  by (simp_all add: unat_of_le)

end
