(* ===== verification/ITCH5.thy ===== *)
theory ITCH5
  imports Wire_Bytes Order_Book
begin

text \<open>
  The ITCH 5.0 messages, parser and message builder of \<open>include/ITCH5Parser.hpp\<close> and
  \<open>src/ITCH5Parser.cpp\<close>. The packed structs are records with the members as the host reads them;
  \<open>_bytes\<close> and \<open>_view\<close> are their object representation and the \<open>reinterpret_cast\<close> of a buffer.
\<close>

unbundle bit_operations_syntax

section \<open>The packed messages\<close>

record AddOrderMsg =
  ao_msg_type :: u8
  ao_stock_locate :: u16
  ao_tracking_number :: u16
  ao_timestamp :: "u8 list"
  ao_order_ref_number :: u64
  ao_buy_sell_indicator :: u8
  ao_shares :: u32
  ao_stock :: "u8 list"
  ao_price :: u32

definition AddOrderMsg_bytes :: "AddOrderMsg \<Rightarrow> u8 list" where
  "AddOrderMsg_bytes m = [ao_msg_type m] @ le_bytes 2 (unat (ao_stock_locate m)) @
     le_bytes 2 (unat (ao_tracking_number m)) @ ao_timestamp m @
     le_bytes 8 (unat (ao_order_ref_number m)) @ [ao_buy_sell_indicator m] @
     le_bytes 4 (unat (ao_shares m)) @ ao_stock m @ le_bytes 4 (unat (ao_price m))"

definition AddOrderMsg_view :: "u8 list \<Rightarrow> AddOrderMsg option" where
  "AddOrderMsg_view b = (if length b < 36 then None else Some
     \<lparr>ao_msg_type = b ! 0, ao_stock_locate = of_nat (of_le (bslice b 1 2)),
      ao_tracking_number = of_nat (of_le (bslice b 3 2)), ao_timestamp = bslice b 5 6,
      ao_order_ref_number = of_nat (of_le (bslice b 11 8)), ao_buy_sell_indicator = b ! 19,
      ao_shares = of_nat (of_le (bslice b 20 4)), ao_stock = bslice b 24 8,
      ao_price = of_nat (of_le (bslice b 32 4))\<rparr>)"

definition AddOrderMsg_wf :: "AddOrderMsg \<Rightarrow> bool" where
  "AddOrderMsg_wf m \<longleftrightarrow> length (ao_timestamp m) = 6 \<and> length (ao_stock m) = 8"

interpretation add_order_msg: packed_struct AddOrderMsg_bytes AddOrderMsg_view 36 AddOrderMsg_wf
proof
  fix s :: AddOrderMsg and b rest :: "u8 list"
  note defs = AddOrderMsg_view_def AddOrderMsg_bytes_def AddOrderMsg_wf_def
  show "AddOrderMsg_view (AddOrderMsg_bytes s @ rest) = Some s" if "AddOrderMsg_wf s"
    using that by (cases s) (simp add: defs wire_simps nth_append)
  show "\<exists>s. AddOrderMsg_view b = Some s \<and> AddOrderMsg_wf s \<and> AddOrderMsg_bytes s = take 36 b" if "36 \<le> length b"
    using that by (simp add: defs wire_simps)
  show "length (AddOrderMsg_bytes s) = 36" if "AddOrderMsg_wf s" using that by (simp add: defs)
  show "AddOrderMsg_view b = None" if "length b < 36" using that by (simp add: defs)
qed

record OrderCancelMsg =
  oc_msg_type :: u8
  oc_stock_locate :: u16
  oc_tracking_number :: u16
  oc_timestamp :: "u8 list"
  oc_order_ref_number :: u64
  oc_canceled_shares :: u32

definition OrderCancelMsg_bytes :: "OrderCancelMsg \<Rightarrow> u8 list" where
  "OrderCancelMsg_bytes m = [oc_msg_type m] @ le_bytes 2 (unat (oc_stock_locate m)) @
     le_bytes 2 (unat (oc_tracking_number m)) @ oc_timestamp m @
     le_bytes 8 (unat (oc_order_ref_number m)) @ le_bytes 4 (unat (oc_canceled_shares m))"

definition OrderCancelMsg_view :: "u8 list \<Rightarrow> OrderCancelMsg option" where
  "OrderCancelMsg_view b = (if length b < 23 then None else Some
     \<lparr>oc_msg_type = b ! 0, oc_stock_locate = of_nat (of_le (bslice b 1 2)),
      oc_tracking_number = of_nat (of_le (bslice b 3 2)), oc_timestamp = bslice b 5 6,
      oc_order_ref_number = of_nat (of_le (bslice b 11 8)),
      oc_canceled_shares = of_nat (of_le (bslice b 19 4))\<rparr>)"

definition OrderCancelMsg_wf :: "OrderCancelMsg \<Rightarrow> bool" where
  "OrderCancelMsg_wf m \<longleftrightarrow> length (oc_timestamp m) = 6"

interpretation order_cancel_msg: packed_struct OrderCancelMsg_bytes OrderCancelMsg_view 23 OrderCancelMsg_wf
proof
  fix s :: OrderCancelMsg and b rest :: "u8 list"
  note defs = OrderCancelMsg_view_def OrderCancelMsg_bytes_def OrderCancelMsg_wf_def
  show "OrderCancelMsg_view (OrderCancelMsg_bytes s @ rest) = Some s" if "OrderCancelMsg_wf s"
    using that by (cases s) (simp add: defs wire_simps nth_append)
  show "\<exists>s. OrderCancelMsg_view b = Some s \<and> OrderCancelMsg_wf s \<and> OrderCancelMsg_bytes s = take 23 b" if "23 \<le> length b"
    using that by (simp add: defs wire_simps)
  show "length (OrderCancelMsg_bytes s) = 23" if "OrderCancelMsg_wf s" using that by (simp add: defs)
  show "OrderCancelMsg_view b = None" if "length b < 23" using that by (simp add: defs)
qed

record OrderDeleteMsg =
  od_msg_type :: u8
  od_stock_locate :: u16
  od_tracking_number :: u16
  od_timestamp :: "u8 list"
  od_order_ref_number :: u64

definition OrderDeleteMsg_bytes :: "OrderDeleteMsg \<Rightarrow> u8 list" where
  "OrderDeleteMsg_bytes m = [od_msg_type m] @ le_bytes 2 (unat (od_stock_locate m)) @
     le_bytes 2 (unat (od_tracking_number m)) @ od_timestamp m @
     le_bytes 8 (unat (od_order_ref_number m))"

definition OrderDeleteMsg_view :: "u8 list \<Rightarrow> OrderDeleteMsg option" where
  "OrderDeleteMsg_view b = (if length b < 19 then None else Some
     \<lparr>od_msg_type = b ! 0, od_stock_locate = of_nat (of_le (bslice b 1 2)),
      od_tracking_number = of_nat (of_le (bslice b 3 2)), od_timestamp = bslice b 5 6,
      od_order_ref_number = of_nat (of_le (bslice b 11 8))\<rparr>)"

definition OrderDeleteMsg_wf :: "OrderDeleteMsg \<Rightarrow> bool" where
  "OrderDeleteMsg_wf m \<longleftrightarrow> length (od_timestamp m) = 6"

interpretation order_delete_msg: packed_struct OrderDeleteMsg_bytes OrderDeleteMsg_view 19 OrderDeleteMsg_wf
proof
  fix s :: OrderDeleteMsg and b rest :: "u8 list"
  note defs = OrderDeleteMsg_view_def OrderDeleteMsg_bytes_def OrderDeleteMsg_wf_def
  show "OrderDeleteMsg_view (OrderDeleteMsg_bytes s @ rest) = Some s" if "OrderDeleteMsg_wf s"
    using that by (cases s) (simp add: defs wire_simps nth_append)
  show "\<exists>s. OrderDeleteMsg_view b = Some s \<and> OrderDeleteMsg_wf s \<and> OrderDeleteMsg_bytes s = take 19 b" if "19 \<le> length b"
    using that by (simp add: defs wire_simps)
  show "length (OrderDeleteMsg_bytes s) = 19" if "OrderDeleteMsg_wf s" using that by (simp add: defs)
  show "OrderDeleteMsg_view b = None" if "length b < 19" using that by (simp add: defs)
qed

record OrderExecutedMsg =
  oe_msg_type :: u8
  oe_stock_locate :: u16
  oe_tracking_number :: u16
  oe_timestamp :: "u8 list"
  oe_order_ref_number :: u64
  oe_executed_shares :: u32
  oe_match_number :: u64

definition OrderExecutedMsg_bytes :: "OrderExecutedMsg \<Rightarrow> u8 list" where
  "OrderExecutedMsg_bytes m = [oe_msg_type m] @ le_bytes 2 (unat (oe_stock_locate m)) @
     le_bytes 2 (unat (oe_tracking_number m)) @ oe_timestamp m @
     le_bytes 8 (unat (oe_order_ref_number m)) @ le_bytes 4 (unat (oe_executed_shares m)) @
     le_bytes 8 (unat (oe_match_number m))"

definition OrderExecutedMsg_view :: "u8 list \<Rightarrow> OrderExecutedMsg option" where
  "OrderExecutedMsg_view b = (if length b < 31 then None else Some
     \<lparr>oe_msg_type = b ! 0, oe_stock_locate = of_nat (of_le (bslice b 1 2)),
      oe_tracking_number = of_nat (of_le (bslice b 3 2)), oe_timestamp = bslice b 5 6,
      oe_order_ref_number = of_nat (of_le (bslice b 11 8)),
      oe_executed_shares = of_nat (of_le (bslice b 19 4)),
      oe_match_number = of_nat (of_le (bslice b 23 8))\<rparr>)"

definition OrderExecutedMsg_wf :: "OrderExecutedMsg \<Rightarrow> bool" where
  "OrderExecutedMsg_wf m \<longleftrightarrow> length (oe_timestamp m) = 6"

interpretation order_executed_msg: packed_struct OrderExecutedMsg_bytes OrderExecutedMsg_view 31 OrderExecutedMsg_wf
proof
  fix s :: OrderExecutedMsg and b rest :: "u8 list"
  note defs = OrderExecutedMsg_view_def OrderExecutedMsg_bytes_def OrderExecutedMsg_wf_def
  show "OrderExecutedMsg_view (OrderExecutedMsg_bytes s @ rest) = Some s" if "OrderExecutedMsg_wf s"
    using that by (cases s) (simp add: defs wire_simps nth_append)
  show "\<exists>s. OrderExecutedMsg_view b = Some s \<and> OrderExecutedMsg_wf s \<and> OrderExecutedMsg_bytes s = take 31 b" if "31 \<le> length b"
    using that by (simp add: defs wire_simps)
  show "length (OrderExecutedMsg_bytes s) = 31" if "OrderExecutedMsg_wf s" using that by (simp add: defs)
  show "OrderExecutedMsg_view b = None" if "length b < 31" using that by (simp add: defs)
qed

record OrderExecutedWithPriceMsg =
  op_msg_type :: u8
  op_stock_locate :: u16
  op_tracking_number :: u16
  op_timestamp :: "u8 list"
  op_order_ref_number :: u64
  op_executed_shares :: u32
  op_match_number :: u64
  op_printable :: u8
  op_execution_price :: u32

definition OrderExecutedWithPriceMsg_bytes :: "OrderExecutedWithPriceMsg \<Rightarrow> u8 list" where
  "OrderExecutedWithPriceMsg_bytes m = [op_msg_type m] @ le_bytes 2 (unat (op_stock_locate m)) @
     le_bytes 2 (unat (op_tracking_number m)) @ op_timestamp m @
     le_bytes 8 (unat (op_order_ref_number m)) @ le_bytes 4 (unat (op_executed_shares m)) @
     le_bytes 8 (unat (op_match_number m)) @ [op_printable m] @
     le_bytes 4 (unat (op_execution_price m))"

definition OrderExecutedWithPriceMsg_view :: "u8 list \<Rightarrow> OrderExecutedWithPriceMsg option" where
  "OrderExecutedWithPriceMsg_view b = (if length b < 36 then None else Some
     \<lparr>op_msg_type = b ! 0, op_stock_locate = of_nat (of_le (bslice b 1 2)),
      op_tracking_number = of_nat (of_le (bslice b 3 2)), op_timestamp = bslice b 5 6,
      op_order_ref_number = of_nat (of_le (bslice b 11 8)),
      op_executed_shares = of_nat (of_le (bslice b 19 4)),
      op_match_number = of_nat (of_le (bslice b 23 8)), op_printable = b ! 31,
      op_execution_price = of_nat (of_le (bslice b 32 4))\<rparr>)"

definition OrderExecutedWithPriceMsg_wf :: "OrderExecutedWithPriceMsg \<Rightarrow> bool" where
  "OrderExecutedWithPriceMsg_wf m \<longleftrightarrow> length (op_timestamp m) = 6"

interpretation order_executed_price_msg: packed_struct OrderExecutedWithPriceMsg_bytes OrderExecutedWithPriceMsg_view 36 OrderExecutedWithPriceMsg_wf
proof
  fix s :: OrderExecutedWithPriceMsg and b rest :: "u8 list"
  note defs = OrderExecutedWithPriceMsg_view_def OrderExecutedWithPriceMsg_bytes_def OrderExecutedWithPriceMsg_wf_def
  show "OrderExecutedWithPriceMsg_view (OrderExecutedWithPriceMsg_bytes s @ rest) = Some s" if "OrderExecutedWithPriceMsg_wf s"
    using that by (cases s) (simp add: defs wire_simps nth_append)
  show "\<exists>s. OrderExecutedWithPriceMsg_view b = Some s \<and> OrderExecutedWithPriceMsg_wf s \<and> OrderExecutedWithPriceMsg_bytes s = take 36 b" if "36 \<le> length b"
    using that by (simp add: defs wire_simps)
  show "length (OrderExecutedWithPriceMsg_bytes s) = 36" if "OrderExecutedWithPriceMsg_wf s" using that by (simp add: defs)
  show "OrderExecutedWithPriceMsg_view b = None" if "length b < 36" using that by (simp add: defs)
qed

section \<open>The parser\<close>

record InternalMessage =
  im_type :: u8
  im_id :: u64
  im_price :: u64
  im_quantity :: u64
  im_side :: Side

definition parse_timestamp :: "u8 list \<Rightarrow> u64 option" where
  "parse_timestamp ts = do {
     t0 \<leftarrow> aread ts 0; t1 \<leftarrow> aread ts 1; t2 \<leftarrow> aread ts 2;
     t3 \<leftarrow> aread ts 3; t4 \<leftarrow> aread ts 4; t5 \<leftarrow> aread ts 5;
     Some (push_bit 40 (ucast t0) OR push_bit 32 (ucast t1) OR push_bit 24 (ucast t2) OR
           push_bit 16 (ucast t3) OR push_bit 8 (ucast t4) OR ucast t5) }"

text \<open>
  \<open>length\<close> is the second argument of the call; the buffer may be longer. The result is the return
  value, the out parameter and the calls to the logger.
\<close>

definition parse :: "u8 list \<Rightarrow> nat \<Rightarrow> InternalMessage \<Rightarrow> (bool \<times> InternalMessage \<times> log_call list) option" where
  "parse buffer len out_msg0 =
    (if len = 0 then Some (False, out_msg0, []) else do {
       t \<leftarrow> aread buffer 0;
       let out_msg = out_msg0\<lparr>im_type := t\<rparr>;
       if t = ch (CHR ''A'') then
         (if len < 36 then Some (False, out_msg, []) else do {
            msg \<leftarrow> AddOrderMsg_view buffer;
            Some (True, out_msg\<lparr>im_id := bswap64 (ao_order_ref_number msg),
                    im_quantity := ucast (bswap32 (ao_shares msg)),
                    im_price := ucast (bswap32 (ao_price msg)),
                    im_side := (if ao_buy_sell_indicator msg = ch (CHR ''B'') then BUY else SELL)\<rparr>, []) })
       else if t = ch (CHR ''X'') then
         (if len < 23 then Some (False, out_msg, []) else do {
            msg \<leftarrow> OrderCancelMsg_view buffer;
            Some (True, out_msg\<lparr>im_id := bswap64 (oc_order_ref_number msg),
                    im_quantity := ucast (bswap32 (oc_canceled_shares msg))\<rparr>, []) })
       else if t = ch (CHR ''D'') then
         (if len < 19 then Some (False, out_msg, []) else do {
            msg \<leftarrow> OrderDeleteMsg_view buffer;
            Some (True, out_msg\<lparr>im_id := bswap64 (od_order_ref_number msg)\<rparr>, []) })
       else if t = ch (CHR ''E'') then
         (if len < 31 then Some (False, out_msg, []) else do {
            msg \<leftarrow> OrderExecutedMsg_view buffer;
            Some (True, out_msg\<lparr>im_id := bswap64 (oe_order_ref_number msg),
                    im_quantity := ucast (bswap32 (oe_executed_shares msg))\<rparr>, []) })
       else if t = ch (CHR ''C'') then
         (if len < 36 then Some (False, out_msg, []) else do {
            msg \<leftarrow> OrderExecutedWithPriceMsg_view buffer;
            Some (True, out_msg\<lparr>im_id := bswap64 (op_order_ref_number msg),
                    im_quantity := ucast (bswap32 (op_executed_shares msg)),
                    im_price := ucast (bswap32 (op_execution_price msg))\<rparr>, []) })
       else Some (False, out_msg,
              [log_msg WARN ''ITCH5Parser: Unsupported message type %c'' [ArgU (unat t)]])
     })"

section \<open>The builder\<close>

definition write_timestamp :: "u8 list \<Rightarrow> u64 \<Rightarrow> u8 list option" where
  "write_timestamp dest ts = do {
     d \<leftarrow> awrite dest 0 (ucast (drop_bit 40 ts AND 0xFF));
     d \<leftarrow> awrite d 1 (ucast (drop_bit 32 ts AND 0xFF));
     d \<leftarrow> awrite d 2 (ucast (drop_bit 24 ts AND 0xFF));
     d \<leftarrow> awrite d 3 (ucast (drop_bit 16 ts AND 0xFF));
     d \<leftarrow> awrite d 4 (ucast (drop_bit 8 ts AND 0xFF));
     awrite d 5 (ucast (ts AND 0xFF)) }"

definition build_add_order :: "u8 list \<Rightarrow> nat \<Rightarrow> u16 \<Rightarrow> u16 \<Rightarrow> u64 \<Rightarrow> u64 \<Rightarrow> u8 \<Rightarrow> u32 \<Rightarrow>
    cstr \<Rightarrow> u32 \<Rightarrow> (bool \<times> u8 list) option" where
  "build_add_order buffer len stock_locate tracking_number timestamp order_ref_number buy_sell
      shares stock price =
    (if len < 36 then Some (False, buffer) else do {
       msg \<leftarrow> AddOrderMsg_view buffer;
       ts \<leftarrow> write_timestamp (ao_timestamp msg) timestamp;
       stk \<leftarrow> copy_string_padded (ao_stock msg) stock 8;
       let msg = msg\<lparr>ao_msg_type := ch (CHR ''A''),
         ao_stock_locate := bswap16 stock_locate,
         ao_tracking_number := bswap16 tracking_number,
         ao_timestamp := ts,
         ao_order_ref_number := bswap64 order_ref_number,
         ao_buy_sell_indicator := buy_sell,
         ao_shares := bswap32 shares,
         ao_stock := stk,
         ao_price := bswap32 price\<rparr>;
       Some (True, AddOrderMsg_bytes msg @ drop 36 buffer) })"

section \<open>Timestamps\<close>

lemma mask_8: "(mask 8 :: u64) = 0xFF"
  by (simp add: mask_eq_exp_minus_1)

lemma write_timestamp_eq:
  assumes "length dest = 6"
  shows "write_timestamp dest ts = Some (map (\<lambda>k. ucast (drop_bit k ts)) [40, 32, 24, 16, 8, 0])"
proof -
  obtain a b c d e f where "dest = [a, b, c, d, e, f]"
    using assms by (auto simp: numeral_eq_Suc length_Suc_conv)
  moreover have m: "ucast (drop_bit k ts AND 0xFF) = (ucast (drop_bit k ts) :: u8)" for k
    by (rule bit_eqI) (auto simp: bit_simps simp flip: mask_8)
  ultimately show ?thesis using m [of 0] by (simp add: write_timestamp_def)
qed

lemma bit_byte_of:
  fixes ts :: u64
  assumes "k + 8 \<le> 64"
  shows "bit (push_bit k (ucast (ucast (drop_bit k ts) :: u8)) :: u64) n \<longleftrightarrow> k \<le> n \<and> n < k + 8 \<and> bit ts n"
  using assms by (cases "k \<le> n") (auto simp: bit_simps)

lemma parse_write_timestamp:
  "parse_timestamp (map (\<lambda>k. ucast (drop_bit k ts)) [40, 32, 24, 16, 8, 0]) = Some (take_bit 48 ts)"
proof -
  let ?p = "\<lambda>k. push_bit k (ucast (ucast (drop_bit k ts) :: u8)) :: u64"
  have "?p 40 OR ?p 32 OR ?p 24 OR ?p 16 OR ?p 8 OR ?p 0 = take_bit 48 ts"
  proof (rule bit_eqI)
    fix n
    show "bit (?p 40 OR ?p 32 OR ?p 24 OR ?p 16 OR ?p 8 OR ?p 0) n \<longleftrightarrow> bit (take_bit 48 ts) n"
      by (simp only: bit_or_iff bit_byte_of bit_take_bit_iff) (cases "bit ts n"; simp; arith)
  qed
  then show ?thesis by (simp add: parse_timestamp_def)
qed

section \<open>The parser decodes big-endian fields\<close>

text \<open>The number of bytes of each message type the book uses.\<close>

definition message_size :: "u8 \<Rightarrow> nat option" where
  "message_size t = (if t = ch (CHR ''A'') then Some 36 else if t = ch (CHR ''X'') then Some 23
     else if t = ch (CHR ''D'') then Some 19 else if t = ch (CHR ''E'') then Some 31
     else if t = ch (CHR ''C'') then Some 36 else None)"

text \<open>The fields of a message by their position in the ITCH 5.0 layout, as numbers.\<close>

definition decoded :: "u8 list \<Rightarrow> InternalMessage \<Rightarrow> InternalMessage" where
  "decoded b out =
    (let t = b ! 0;
         ref = of_nat (of_be (bslice b 11 8));
         base = out\<lparr>im_type := t, im_id := ref\<rparr>
     in if t = ch (CHR ''A'') then base\<lparr>im_quantity := of_nat (of_be (bslice b 20 4)),
            im_price := of_nat (of_be (bslice b 32 4)),
            im_side := (if b ! 19 = ch (CHR ''B'') then BUY else SELL)\<rparr>
        else if t = ch (CHR ''D'') then base
        else if t = ch (CHR ''C'') then base\<lparr>im_quantity := of_nat (of_be (bslice b 19 4)),
            im_price := of_nat (of_be (bslice b 32 4))\<rparr>
        else base\<lparr>im_quantity := of_nat (of_be (bslice b 19 4))\<rparr>)"

lemma ucast_of_be:
  assumes "length bs = 4"
  shows "(ucast (of_nat (of_be bs) :: u32) :: u64) = of_nat (of_be bs)"
  using unat_of_le(2) [of "rev bs"] assms
  by (metis length_rev of_be_def of_nat_unat)

lemma parse_known:
  assumes "len \<le> length b" "message_size (b ! 0) = Some n" "0 < len"
  shows "parse b len out = Some (if n \<le> len then (True, decoded b out, []) else (False, out\<lparr>im_type := b ! 0\<rparr>, []))"
proof -
  have b: "b \<noteq> []" using assms(1,3) by auto
  note views = AddOrderMsg_view_def OrderCancelMsg_view_def OrderDeleteMsg_view_def
    OrderExecutedMsg_view_def OrderExecutedWithPriceMsg_view_def
  show ?thesis
    using assms b unfolding message_size_def parse_def
    by (auto simp: views decoded_def Let_def wire_simps ucast_of_be ch_def split: if_splits)
qed

lemma parse_unknown:
  assumes "len \<le> length b" "message_size (b ! 0) = None" "0 < len"
  shows "parse b len out = Some (False, out\<lparr>im_type := b ! 0\<rparr>,
    [log_msg WARN ''ITCH5Parser: Unsupported message type %c'' [ArgU (unat (b ! 0))]])"
proof -
  have b: "b \<noteq> []" using assms(1,3) by auto
  show ?thesis using assms b unfolding message_size_def parse_def
    by (auto simp: Let_def split: if_splits)
qed

section \<open>The builder produces what the parser reads\<close>

definition built_msg :: "u16 \<Rightarrow> u16 \<Rightarrow> u64 \<Rightarrow> u64 \<Rightarrow> u8 \<Rightarrow> u32 \<Rightarrow> u8 list \<Rightarrow> u32 \<Rightarrow> AddOrderMsg" where
  "built_msg loc trk ts ref bs sh t pr =
    \<lparr>ao_msg_type = ch (CHR ''A''), ao_stock_locate = bswap16 loc, ao_tracking_number = bswap16 trk,
     ao_timestamp = map (\<lambda>k. ucast (drop_bit k ts)) [40, 32, 24, 16, 8, 0],
     ao_order_ref_number = bswap64 ref, ao_buy_sell_indicator = bs, ao_shares = bswap32 sh,
     ao_stock = padded t 8, ao_price = bswap32 pr\<rparr>"

lemma built_msg_wf: "AddOrderMsg_wf (built_msg loc trk ts ref bs sh t pr)"
  by (simp add: AddOrderMsg_wf_def built_msg_def)

lemma build_add_order_eq:
  assumes "36 \<le> len" "len \<le> length b" "ctext stock = Some t"
  shows "build_add_order b len loc trk ts ref bs sh stock pr =
    Some (True, AddOrderMsg_bytes (built_msg loc trk ts ref bs sh t pr) @ drop 36 b)"
proof -
  have "36 \<le> length b" using assms by simp
  from add_order_msg.bytes_view [OF this] obtain m where m: "AddOrderMsg_view b = Some m" "AddOrderMsg_wf m"
    by auto
  then have "length (ao_timestamp m) = 6" "length (ao_stock m) = 8" by (auto simp: AddOrderMsg_wf_def)
  with m assms show ?thesis
    by (cases m) (simp add: build_add_order_def write_timestamp_eq copy_string_padded_eq built_msg_def)
qed

lemma parse_built:
  assumes "36 \<le> len" "len \<le> length b"
    and b: "b = AddOrderMsg_bytes (built_msg loc trk ts ref bs sh t pr) @ rest"
  shows "parse b len out = Some (True, out\<lparr>im_type := ch (CHR ''A''), im_id := ref,
     im_quantity := ucast sh, im_price := ucast pr, im_side := (if bs = ch (CHR ''B'') then BUY else SELL)\<rparr>, [])"
proof -
  have v: "AddOrderMsg_view b = Some (built_msg loc trk ts ref bs sh t pr)"
    unfolding b using built_msg_wf by (rule add_order_msg.view_bytes)
  have ne: "b \<noteq> []" using assms(1,2) by auto
  moreover have "b ! 0 = ch (CHR ''A'')" by (simp add: b AddOrderMsg_bytes_def built_msg_def)
  ultimately show ?thesis using v assms(1) by (simp add: parse_def Let_def built_msg_def)
qed

section \<open>Properties\<close>

text \<open>
  C13. Building an add-order message and parsing it gives the order back: for a buffer of at least
  36 bytes and a stock symbol that is a C string, \<open>build_add_order\<close> succeeds, writes nothing behind
  the message, and \<open>parse\<close> of the buffer succeeds with the reference number, shares, price and
  side that were given, while the timestamp field reads back modulo 2^48.
\<close>

theorem itch_build_parse:
  assumes "36 \<le> len" "len \<le> length b" "ctext stock = Some t"
  shows "\<exists>b'. build_add_order b len loc trk ts ref bs sh stock pr = Some (True, b') \<and>
     length b' = length b \<and> drop 36 b' = drop 36 b \<and>
     parse b' len out = Some (True, out\<lparr>im_type := ch (CHR ''A''), im_id := ref,
       im_quantity := ucast sh, im_price := ucast pr,
       im_side := (if bs = ch (CHR ''B'') then BUY else SELL)\<rparr>, []) \<and>
     parse_timestamp (bslice b' 5 6) = Some (take_bit 48 ts)"
proof -
  let ?m = "built_msg loc trk ts ref bs sh t pr"
  let ?b = "AddOrderMsg_bytes ?m @ drop 36 b"
  have "36 \<le> length b" using assms(1,2) by simp
  then obtain s where s: "AddOrderMsg_view b = Some s" using add_order_msg.bytes_view by blast
  note ov = add_order_msg.overlay [OF s built_msg_wf [of loc trk ts ref bs sh t pr]]
  have "bslice ?b 5 6 = map (\<lambda>k. ucast (drop_bit k ts)) [40, 32, 24, 16, 8, 0]"
    by (simp add: AddOrderMsg_bytes_def built_msg_def wire_simps)
  with parse_write_timestamp have "parse_timestamp (bslice ?b 5 6) = Some (take_bit 48 ts)" by simp
  with build_add_order_eq [OF assms] ov(2,3) parse_built [OF assms(1) _ refl] assms(2)
  show ?thesis by auto
qed

theorem itch_build_parse_witness:
  "\<exists>b'. build_add_order (replicate 40 0) 40 1 2 3 9999 (ch (CHR ''B'')) 1500 (Some [65, 65, 0]) 10050 =
      Some (True, b') \<and>
    parse b' 40 \<lparr>im_type = 0, im_id = 0, im_price = 0, im_quantity = 0, im_side = SELL\<rparr> =
      Some (True, \<lparr>im_type = ch (CHR ''A''), im_id = 9999, im_price = 10050, im_quantity = 1500,
        im_side = BUY\<rparr>, [])"
  using itch_build_parse [of 40 "replicate 40 0" "Some [65, 65, 0]" "[65, 65]" 1 2 3 9999 "ch (CHR ''B'')"
      1500 10050 "\<lparr>im_type = 0, im_id = 0, im_price = 0, im_quantity = 0, im_side = SELL\<rparr>"]
  by (auto simp: ctext_def)

text \<open>
  The bytes of an add-order message on the wire: type, locate, tracking number, a 48-bit
  timestamp, reference number, side, shares, the stock symbol padded with spaces to eight
  characters and the price, every integer in network byte order.
\<close>

lemma itch_wire_layout:
  assumes "36 \<le> len" "len \<le> length b" "ctext stock = Some t"
  shows "map_option (\<lambda>(ok, b'). (ok, take 36 b'))
      (build_add_order b len loc trk ts ref bs sh stock pr) =
    Some (True, [ch (CHR ''A'')] @ be_bytes 2 (unat loc) @ be_bytes 2 (unat trk) @
      map (\<lambda>k. ucast (drop_bit k ts)) [40, 32, 24, 16, 8, 0] @ be_bytes 8 (unat ref) @ [bs] @
      be_bytes 4 (unat sh) @ padded t 8 @ be_bytes 4 (unat pr))"
proof -
  let ?m = "built_msg loc trk ts ref bs sh t pr"
  have "take 36 (AddOrderMsg_bytes ?m @ drop 36 b) = AddOrderMsg_bytes ?m"
    using add_order_msg.length_bytes [OF built_msg_wf, of loc trk ts ref bs sh t pr] by simp
  then show ?thesis
    using build_add_order_eq [OF assms] by (simp add: AddOrderMsg_bytes_def built_msg_def wire_simps)
qed

text \<open>
  C14. \<open>parse\<close> never reads outside the buffer and decodes exactly the known messages: for a length
  that does not exceed the buffer it returns; it returns true exactly when the first byte is a
  known message type and the length covers that message, and then the out parameter holds the
  big-endian fields of the message, the price and the side only where the message has them; an
  unknown type is logged.
\<close>

theorem itch_parse_decodes:
  assumes "len \<le> length b"
  shows "parse b len out = Some
    (if len = 0 then (False, out, [])
     else case message_size (b ! 0) of
       None \<Rightarrow> (False, out\<lparr>im_type := b ! 0\<rparr>,
         [log_msg WARN ''ITCH5Parser: Unsupported message type %c'' [ArgU (unat (b ! 0))]])
     | Some n \<Rightarrow> if n \<le> len then (True, decoded b out, []) else (False, out\<lparr>im_type := b ! 0\<rparr>, []))"
proof (cases "len = 0")
  case True
  then show ?thesis by (simp add: parse_def)
next
  case False
  then show ?thesis
    using parse_known [OF assms] parse_unknown [OF assms] by (auto split: option.splits)
qed

theorem itch_parse_decodes_witness:
  "parse ([88] @ replicate 17 0 @ [42, 0, 0, 1, 44]) 23
     \<lparr>im_type = 0, im_id = 0, im_price = 7, im_quantity = 0, im_side = SELL\<rparr> =
   Some (True, \<lparr>im_type = 88, im_id = 42, im_price = 7, im_quantity = 300, im_side = SELL\<rparr>, [])"
  by (subst itch_parse_decodes) code_simp+

end
