(* ===== verification/OUCH42.thy ===== *)
theory OUCH42
  imports Wire_Bytes
begin

text \<open>
  The OUCH 4.2 order entry messages of \<open>include/OUCH42.hpp\<close> and \<open>src/OUCH42.cpp\<close>: the packed
  structs, the three builders and the parser of the exchange side.
\<close>

section \<open>The packed messages\<close>

record EnterOrderMsg =
  eo_msg_type :: u8
  eo_order_token :: "u8 list"
  eo_buy_sell_indicator :: u8
  eo_shares :: u32
  eo_stock :: "u8 list"
  eo_price :: u32
  eo_time_in_force :: u32
  eo_firm :: "u8 list"
  eo_display :: u8
  eo_capacity :: u8
  eo_intermarket_sweep_eligibility :: u8
  eo_minimum_quantity :: u32
  eo_cross_type :: u8
  eo_customer_type :: u8

definition EnterOrderMsg_bytes :: "EnterOrderMsg \<Rightarrow> u8 list" where
  "EnterOrderMsg_bytes m = [eo_msg_type m] @ eo_order_token m @ [eo_buy_sell_indicator m] @
     le_bytes 4 (unat (eo_shares m)) @ eo_stock m @ le_bytes 4 (unat (eo_price m)) @
     le_bytes 4 (unat (eo_time_in_force m)) @ eo_firm m @ [eo_display m] @
     [eo_capacity m] @ [eo_intermarket_sweep_eligibility m] @
     le_bytes 4 (unat (eo_minimum_quantity m)) @ [eo_cross_type m] @ [eo_customer_type m]"

definition EnterOrderMsg_view :: "u8 list \<Rightarrow> EnterOrderMsg option" where
  "EnterOrderMsg_view b = (if length b < 49 then None else Some
     \<lparr>eo_msg_type = b ! 0, eo_order_token = bslice b 1 14, eo_buy_sell_indicator = b ! 15,
      eo_shares = of_nat (of_le (bslice b 16 4)), eo_stock = bslice b 20 8,
      eo_price = of_nat (of_le (bslice b 28 4)),
      eo_time_in_force = of_nat (of_le (bslice b 32 4)), eo_firm = bslice b 36 4,
      eo_display = b ! 40, eo_capacity = b ! 41, eo_intermarket_sweep_eligibility = b ! 42,
      eo_minimum_quantity = of_nat (of_le (bslice b 43 4)), eo_cross_type = b ! 47,
      eo_customer_type = b ! 48\<rparr>)"

definition EnterOrderMsg_wf :: "EnterOrderMsg \<Rightarrow> bool" where
  "EnterOrderMsg_wf m \<longleftrightarrow> length (eo_order_token m) = 14 \<and> length (eo_stock m) = 8 \<and>
     length (eo_firm m) = 4"

interpretation enter_order_msg: packed_struct EnterOrderMsg_bytes EnterOrderMsg_view 49 EnterOrderMsg_wf
proof
  fix s :: EnterOrderMsg and b rest :: "u8 list"
  note defs = EnterOrderMsg_view_def EnterOrderMsg_bytes_def EnterOrderMsg_wf_def
  show "EnterOrderMsg_view (EnterOrderMsg_bytes s @ rest) = Some s" if "EnterOrderMsg_wf s"
    using that by (cases s) (simp add: defs wire_simps nth_append)
  show "\<exists>s. EnterOrderMsg_view b = Some s \<and> EnterOrderMsg_wf s \<and> EnterOrderMsg_bytes s = take 49 b" if "49 \<le> length b"
    using that by (simp add: defs wire_simps)
  show "length (EnterOrderMsg_bytes s) = 49" if "EnterOrderMsg_wf s" using that by (simp add: defs)
  show "EnterOrderMsg_view b = None" if "length b < 49" using that by (simp add: defs)
qed

record ReplaceOrderMsg =
  ro_msg_type :: u8
  ro_existing_order_token :: "u8 list"
  ro_replacement_order_token :: "u8 list"
  ro_shares :: u32
  ro_price :: u32
  ro_time_in_force :: u32
  ro_display :: u8
  ro_intermarket_sweep_eligibility :: u8
  ro_minimum_quantity :: u32

definition ReplaceOrderMsg_bytes :: "ReplaceOrderMsg \<Rightarrow> u8 list" where
  "ReplaceOrderMsg_bytes m = [ro_msg_type m] @ ro_existing_order_token m @ ro_replacement_order_token m @
     le_bytes 4 (unat (ro_shares m)) @ le_bytes 4 (unat (ro_price m)) @
     le_bytes 4 (unat (ro_time_in_force m)) @ [ro_display m] @
     [ro_intermarket_sweep_eligibility m] @ le_bytes 4 (unat (ro_minimum_quantity m))"

definition ReplaceOrderMsg_view :: "u8 list \<Rightarrow> ReplaceOrderMsg option" where
  "ReplaceOrderMsg_view b = (if length b < 47 then None else Some
     \<lparr>ro_msg_type = b ! 0, ro_existing_order_token = bslice b 1 14,
      ro_replacement_order_token = bslice b 15 14,
      ro_shares = of_nat (of_le (bslice b 29 4)),
      ro_price = of_nat (of_le (bslice b 33 4)),
      ro_time_in_force = of_nat (of_le (bslice b 37 4)), ro_display = b ! 41,
      ro_intermarket_sweep_eligibility = b ! 42,
      ro_minimum_quantity = of_nat (of_le (bslice b 43 4))\<rparr>)"

definition ReplaceOrderMsg_wf :: "ReplaceOrderMsg \<Rightarrow> bool" where
  "ReplaceOrderMsg_wf m \<longleftrightarrow> length (ro_existing_order_token m) = 14 \<and>
     length (ro_replacement_order_token m) = 14"

interpretation replace_order_msg: packed_struct ReplaceOrderMsg_bytes ReplaceOrderMsg_view 47 ReplaceOrderMsg_wf
proof
  fix s :: ReplaceOrderMsg and b rest :: "u8 list"
  note defs = ReplaceOrderMsg_view_def ReplaceOrderMsg_bytes_def ReplaceOrderMsg_wf_def
  show "ReplaceOrderMsg_view (ReplaceOrderMsg_bytes s @ rest) = Some s" if "ReplaceOrderMsg_wf s"
    using that by (cases s) (simp add: defs wire_simps nth_append)
  show "\<exists>s. ReplaceOrderMsg_view b = Some s \<and> ReplaceOrderMsg_wf s \<and> ReplaceOrderMsg_bytes s = take 47 b" if "47 \<le> length b"
    using that by (simp add: defs wire_simps)
  show "length (ReplaceOrderMsg_bytes s) = 47" if "ReplaceOrderMsg_wf s" using that by (simp add: defs)
  show "ReplaceOrderMsg_view b = None" if "length b < 47" using that by (simp add: defs)
qed

record CancelOrderMsg =
  co_msg_type :: u8
  co_order_token :: "u8 list"
  co_shares :: u32

definition CancelOrderMsg_bytes :: "CancelOrderMsg \<Rightarrow> u8 list" where
  "CancelOrderMsg_bytes m = [co_msg_type m] @ co_order_token m @ le_bytes 4 (unat (co_shares m))"

definition CancelOrderMsg_view :: "u8 list \<Rightarrow> CancelOrderMsg option" where
  "CancelOrderMsg_view b = (if length b < 19 then None else Some
     \<lparr>co_msg_type = b ! 0, co_order_token = bslice b 1 14,
      co_shares = of_nat (of_le (bslice b 15 4))\<rparr>)"

definition CancelOrderMsg_wf :: "CancelOrderMsg \<Rightarrow> bool" where
  "CancelOrderMsg_wf m \<longleftrightarrow> length (co_order_token m) = 14"

interpretation cancel_order_msg: packed_struct CancelOrderMsg_bytes CancelOrderMsg_view 19 CancelOrderMsg_wf
proof
  fix s :: CancelOrderMsg and b rest :: "u8 list"
  note defs = CancelOrderMsg_view_def CancelOrderMsg_bytes_def CancelOrderMsg_wf_def
  show "CancelOrderMsg_view (CancelOrderMsg_bytes s @ rest) = Some s" if "CancelOrderMsg_wf s"
    using that by (cases s) (simp add: defs wire_simps nth_append)
  show "\<exists>s. CancelOrderMsg_view b = Some s \<and> CancelOrderMsg_wf s \<and> CancelOrderMsg_bytes s = take 19 b" if "19 \<le> length b"
    using that by (simp add: defs wire_simps)
  show "length (CancelOrderMsg_bytes s) = 19" if "CancelOrderMsg_wf s" using that by (simp add: defs)
  show "CancelOrderMsg_view b = None" if "length b < 19" using that by (simp add: defs)
qed

section \<open>The builders\<close>

definition build_enter_order :: "u8 list \<Rightarrow> nat \<Rightarrow> cstr \<Rightarrow> u8 \<Rightarrow> u32 \<Rightarrow> cstr \<Rightarrow> u32 \<Rightarrow> u32 \<Rightarrow> cstr \<Rightarrow>
    u8 \<Rightarrow> u8 \<Rightarrow> u8 \<Rightarrow> u32 \<Rightarrow> u8 \<Rightarrow> u8 \<Rightarrow> (bool \<times> u8 list) option" where
  "build_enter_order buffer len order_token buy_sell shares stock price time_in_force firm
      display capacity iso_flag min_qty cross_type customer_type =
    (if len < 49 then Some (False, buffer) else do {
       msg \<leftarrow> EnterOrderMsg_view buffer;
       token \<leftarrow> copy_string_padded (eo_order_token msg) order_token 14;
       stk \<leftarrow> copy_string_padded (eo_stock msg) stock 8;
       frm \<leftarrow> copy_string_padded (eo_firm msg) firm 4;
       let msg = msg\<lparr>eo_msg_type := ch (CHR ''O''),
         eo_order_token := token,
         eo_buy_sell_indicator := buy_sell,
         eo_shares := bswap32 shares,
         eo_stock := stk,
         eo_price := bswap32 price,
         eo_time_in_force := bswap32 time_in_force,
         eo_firm := frm,
         eo_display := display,
         eo_capacity := capacity,
         eo_intermarket_sweep_eligibility := iso_flag,
         eo_minimum_quantity := bswap32 min_qty,
         eo_cross_type := cross_type,
         eo_customer_type := customer_type\<rparr>;
       Some (True, EnterOrderMsg_bytes msg @ drop 49 buffer) })"

text \<open>The call with the default arguments of the declaration.\<close>

definition build_enter_order_default :: "u8 list \<Rightarrow> nat \<Rightarrow> cstr \<Rightarrow> u8 \<Rightarrow> u32 \<Rightarrow> cstr \<Rightarrow> u32 \<Rightarrow>
    (bool \<times> u8 list) option" where
  "build_enter_order_default buffer len order_token buy_sell shares stock price =
    build_enter_order buffer len order_token buy_sell shares stock price 99998
      (Some (map ch ''TEST'' @ [0])) (ch (CHR ''Y'')) (ch (CHR ''O'')) (ch (CHR ''N'')) 0
      (ch (CHR ''N'')) (ch (CHR ''N''))"

definition build_replace_order :: "u8 list \<Rightarrow> nat \<Rightarrow> cstr \<Rightarrow> cstr \<Rightarrow> u32 \<Rightarrow> u32 \<Rightarrow> u32 \<Rightarrow> u8 \<Rightarrow> u8 \<Rightarrow>
    u32 \<Rightarrow> (bool \<times> u8 list) option" where
  "build_replace_order buffer len existing_token replacement_token shares price time_in_force
      display iso_flag min_qty =
    (if len < 47 then Some (False, buffer) else do {
       msg \<leftarrow> ReplaceOrderMsg_view buffer;
       old \<leftarrow> copy_string_padded (ro_existing_order_token msg) existing_token 14;
       new \<leftarrow> copy_string_padded (ro_replacement_order_token msg) replacement_token 14;
       let msg = msg\<lparr>ro_msg_type := ch (CHR ''U''),
         ro_existing_order_token := old,
         ro_replacement_order_token := new,
         ro_shares := bswap32 shares,
         ro_price := bswap32 price,
         ro_time_in_force := bswap32 time_in_force,
         ro_display := display,
         ro_intermarket_sweep_eligibility := iso_flag,
         ro_minimum_quantity := bswap32 min_qty\<rparr>;
       Some (True, ReplaceOrderMsg_bytes msg @ drop 47 buffer) })"

definition build_cancel_order :: "u8 list \<Rightarrow> nat \<Rightarrow> cstr \<Rightarrow> u32 \<Rightarrow> (bool \<times> u8 list) option" where
  "build_cancel_order buffer len order_token shares =
    (if len < 19 then Some (False, buffer) else do {
       msg \<leftarrow> CancelOrderMsg_view buffer;
       token \<leftarrow> copy_string_padded (co_order_token msg) order_token 14;
       let msg = msg\<lparr>co_msg_type := ch (CHR ''X''),
         co_order_token := token,
         co_shares := bswap32 shares\<rparr>;
       Some (True, CancelOrderMsg_bytes msg @ drop 19 buffer) })"

section \<open>The parser\<close>

definition parse_enter_order :: "u8 list \<Rightarrow> nat \<Rightarrow> EnterOrderMsg \<Rightarrow> (bool \<times> EnterOrderMsg) option" where
  "parse_enter_order buffer len out_msg =
    (if len < 49 then Some (False, out_msg) else do {
       in_msg \<leftarrow> EnterOrderMsg_view buffer;
       if eo_msg_type in_msg \<noteq> ch (CHR ''O'') then Some (False, out_msg)
       else Some (True, in_msg\<lparr>eo_shares := bswap32 (eo_shares in_msg),
              eo_price := bswap32 (eo_price in_msg),
              eo_time_in_force := bswap32 (eo_time_in_force in_msg),
              eo_minimum_quantity := bswap32 (eo_minimum_quantity in_msg)\<rparr>) })"

section \<open>The builders in closed form\<close>

definition enter_order :: "u8 list \<Rightarrow> u8 \<Rightarrow> u32 \<Rightarrow> u8 list \<Rightarrow> u32 \<Rightarrow> u32 \<Rightarrow> u8 list \<Rightarrow>
    u8 \<Rightarrow> u8 \<Rightarrow> u8 \<Rightarrow> u32 \<Rightarrow> u8 \<Rightarrow> u8 \<Rightarrow> EnterOrderMsg" where
  "enter_order tok bs sh stk pr tif frm dsp cap iso_flag mq ct cust =
    \<lparr>eo_msg_type = ch (CHR ''O''), eo_order_token = padded tok 14, eo_buy_sell_indicator = bs,
     eo_shares = sh, eo_stock = padded stk 8, eo_price = pr, eo_time_in_force = tif,
     eo_firm = padded frm 4, eo_display = dsp, eo_capacity = cap,
     eo_intermarket_sweep_eligibility = iso_flag, eo_minimum_quantity = mq, eo_cross_type = ct,
     eo_customer_type = cust\<rparr>"

text \<open>The same members with the integers in network byte order.\<close>

definition to_wire :: "EnterOrderMsg \<Rightarrow> EnterOrderMsg" where
  "to_wire m = m\<lparr>eo_shares := bswap32 (eo_shares m), eo_price := bswap32 (eo_price m),
     eo_time_in_force := bswap32 (eo_time_in_force m),
     eo_minimum_quantity := bswap32 (eo_minimum_quantity m)\<rparr>"

lemma to_wire_to_wire: "to_wire (to_wire m) = m"
  by (cases m) (simp add: to_wire_def)

lemma to_wire_wf: "EnterOrderMsg_wf (to_wire (enter_order tok bs sh stk pr tif frm dsp cap iso_flag mq ct cust))"
  by (simp add: EnterOrderMsg_wf_def to_wire_def enter_order_def)

lemma build_enter_order_eq:
  assumes "49 \<le> len" "len \<le> length b"
    and "ctext order_token = Some tok" "ctext stock = Some stk" "ctext firm = Some frm"
  shows "build_enter_order b len order_token bs sh stock pr tif firm dsp cap iso_flag mq ct cust =
    Some (True, EnterOrderMsg_bytes (to_wire (enter_order tok bs sh stk pr tif frm dsp cap iso_flag mq ct cust))
      @ drop 49 b)"
proof -
  have "49 \<le> length b" using assms by simp
  from enter_order_msg.bytes_view [OF this] obtain m
    where m: "EnterOrderMsg_view b = Some m" "EnterOrderMsg_wf m" by auto
  then have "length (eo_order_token m) = 14" "length (eo_stock m) = 8" "length (eo_firm m) = 4"
    by (auto simp: EnterOrderMsg_wf_def)
  with m assms show ?thesis
    by (cases m) (simp add: build_enter_order_def copy_string_padded_eq to_wire_def enter_order_def)
qed

lemma parse_enter_order_eq:
  "parse_enter_order b len out =
    (if len < 49 then Some (False, out) else
     map_option (\<lambda>m. if eo_msg_type m = ch (CHR ''O'') then (True, to_wire m) else (False, out))
       (EnterOrderMsg_view b))"
  by (cases "EnterOrderMsg_view b") (auto simp: parse_enter_order_def to_wire_def)

section \<open>Properties\<close>

text \<open>
  C15. What \<open>build_enter_order\<close> writes, \<open>parse_enter_order\<close> reads: for a buffer of at least 49 bytes
  and three C strings the builder succeeds, leaves the bytes behind the message alone, and the
  parser returns the given values, with the token, symbol and firm cut or padded with spaces to
  the lengths of their fields.
\<close>

theorem ouch_build_parse:
  assumes "49 \<le> len" "len \<le> length b"
    and "ctext order_token = Some tok" "ctext stock = Some stk" "ctext firm = Some frm"
  shows "\<exists>b'. build_enter_order b len order_token bs sh stock pr tif firm dsp cap iso_flag mq ct cust =
       Some (True, b') \<and> length b' = length b \<and> drop 49 b' = drop 49 b \<and>
     parse_enter_order b' len out =
       Some (True, \<lparr>eo_msg_type = ch (CHR ''O''), eo_order_token = padded tok 14,
         eo_buy_sell_indicator = bs, eo_shares = sh, eo_stock = padded stk 8, eo_price = pr,
         eo_time_in_force = tif, eo_firm = padded frm 4, eo_display = dsp, eo_capacity = cap,
         eo_intermarket_sweep_eligibility = iso_flag, eo_minimum_quantity = mq, eo_cross_type = ct,
         eo_customer_type = cust\<rparr>)"
proof -
  let ?e = "enter_order tok bs sh stk pr tif frm dsp cap iso_flag mq ct cust"
  have "49 \<le> length b" using assms(1,2) by simp
  then obtain s where s: "EnterOrderMsg_view b = Some s" using enter_order_msg.bytes_view by blast
  note ov = enter_order_msg.overlay [OF s to_wire_wf [of tok bs sh stk pr tif frm dsp cap iso_flag mq ct cust]]
  have "eo_msg_type (to_wire ?e) = ch (CHR ''O'')" by (simp add: to_wire_def enter_order_def)
  then have "parse_enter_order (EnterOrderMsg_bytes (to_wire ?e) @ drop 49 b) len out = Some (True, ?e)"
    using assms(1) ov(1) by (simp add: parse_enter_order_eq to_wire_to_wire)
  with build_enter_order_eq [OF assms] ov(2,3) show ?thesis by (auto simp: enter_order_def)
qed

theorem ouch_build_parse_witness:
  "\<exists>b'. build_enter_order (replicate 64 0) 64 (Some [79, 49, 0]) 66 100 (Some [73, 66, 77, 0]) 5000
       99998 (Some [84, 0]) 89 79 78 0 78 78 = Some (True, b') \<and>
     map_option (\<lambda>(ok, m). (ok, eo_stock m, eo_shares m, eo_price m))
       (parse_enter_order b' 64 (enter_order [] 0 0 [] 0 0 [] 0 0 0 0 0 0)) =
     Some (True, [73, 66, 77, 32, 32, 32, 32, 32], 100, 5000)"
proof -
  have p: "padded [73, 66, 77] 8 = [73, 66, 77, 32, 32, 32, 32, 32]" by code_simp
  show ?thesis
    using ouch_build_parse [of 64 "replicate 64 0" "Some [79, 49, 0]" "[79, 49]" "Some [73, 66, 77, 0]"
        "[73, 66, 77]" "Some [84, 0]" "[84]" 66 100 5000 99998 89 79 78 0 78 78
        "enter_order [] 0 0 [] 0 0 [] 0 0 0 0 0 0"]
    by (auto simp: ctext_def p)
qed

text \<open>
  The replace and cancel messages on the wire: for buffers that are long enough and C-string
  tokens, \<open>build_replace_order\<close> and \<open>build_cancel_order\<close> write exactly their 47 and 19 bytes, the
  tokens padded to fourteen characters and the integers in network byte order, and a buffer that
  is declared shorter is refused and left alone.
\<close>

lemma ouch_replace_cancel_layout:
  assumes "47 \<le> length b" "ctext t1 = Some x" "ctext t2 = Some y"
  shows "build_replace_order b len t1 t2 sh pr tif dsp sweep mq =
      Some (if len < 47 then (False, b) else (True,
        [ch (CHR ''U'')] @ padded x 14 @ padded y 14 @ be_bytes 4 (unat sh) @ be_bytes 4 (unat pr) @
        be_bytes 4 (unat tif) @ [dsp, sweep] @ be_bytes 4 (unat mq) @ drop 47 b)) \<and>
    build_cancel_order b len t1 sh =
      Some (if len < 19 then (False, b) else (True,
        [ch (CHR ''X'')] @ padded x 14 @ be_bytes 4 (unat sh) @ drop 19 b))"
proof -
  from replace_order_msg.bytes_view [OF assms(1)] obtain m
    where m: "ReplaceOrderMsg_view b = Some m" "ReplaceOrderMsg_wf m" by auto
  have "19 \<le> length b" using assms(1) by simp
  from cancel_order_msg.bytes_view [OF this] obtain k
    where k: "CancelOrderMsg_view b = Some k" "CancelOrderMsg_wf k" by auto
  have "length (ro_existing_order_token m) = 14" "length (ro_replacement_order_token m) = 14"
    "length (co_order_token k) = 14"
    using m(2) k(2) by (auto simp: ReplaceOrderMsg_wf_def CancelOrderMsg_wf_def)
  with m k assms(2,3) show ?thesis
    by (auto simp: build_replace_order_def build_cancel_order_def copy_string_padded_eq
        ReplaceOrderMsg_bytes_def CancelOrderMsg_bytes_def wire_simps Let_def)
qed

text \<open>
  \<open>parse_enter_order\<close> of any buffer that covers its length argument returns; it accepts exactly
  the buffers whose length argument is at least 49 and whose first byte is \<open>O\<close>, it otherwise
  leaves the out parameter as it was, and an accepted message has the big-endian integers of the
  buffer.
\<close>

lemma ouch_parse_accepts:
  assumes "len \<le> length b"
  shows "\<exists>m. parse_enter_order b len out = Some (49 \<le> len \<and> b ! 0 = ch (CHR ''O''), m) \<and>
    (if 49 \<le> len \<and> b ! 0 = ch (CHR ''O'') then
       eo_order_token m = bslice b 1 14 \<and> eo_buy_sell_indicator m = b ! 15 \<and>
       eo_shares m = of_nat (of_be (bslice b 16 4)) \<and> eo_stock m = bslice b 20 8 \<and>
       eo_price m = of_nat (of_be (bslice b 28 4)) \<and>
       eo_time_in_force m = of_nat (of_be (bslice b 32 4)) \<and>
       eo_minimum_quantity m = of_nat (of_be (bslice b 43 4))
     else m = out)"
  using assms by (auto simp: parse_enter_order_def EnterOrderMsg_view_def wire_simps)

end
