(* ===== verification/EMS.thy ===== *)
theory EMS
  imports Probe_Table
begin

text \<open>
  The execution management system of \<open>include/EMS.hpp\<close> and \<open>src/EMS.cpp\<close>: the orders the
  strategy has sent, in an open-addressing hash table without deletion, and the handlers for the
  messages of the order gateway. A handler returns its boolean, the new state and its log calls;
  \<open>None\<close> is a probing loop that never returns. This theory holds the definitions and shows that
  the table is a \<open>keyed_store\<close>; \<open>EMS_Props\<close> has the handlers' properties.
\<close>

section \<open>Data\<close>

datatype OrderState = NONE | PENDING_NEW | NEW | PARTIALLY_FILLED | FILLED | CANCELED | REJECTED

record EMSOrder =
  em_order_id :: u64
  em_price :: u32
  em_original_quantity :: u32
  em_executed_quantity :: u32
  em_state :: OrderState

record EMSEntry =
  em_key :: u64
  em_value :: EMSOrder

record ExecutionManagementSystem =
  ems_max_orders :: nat
  ems_map :: "EMSEntry list"

section \<open>Construction\<close>

datatype ems_error = EmsMmapFailed | EmsSizeOverflow

definition zero_entry :: EMSEntry where
  "zero_entry = \<lparr>em_key = 0, em_value = \<lparr>em_order_id = 0, em_price = 0, em_original_quantity = 0,
     em_executed_quantity = 0, em_state = NONE\<rparr>\<rparr>"

text \<open>
  \<open>EMSOrder\<close> is aligned to 32 bytes, so \<open>sizeof (HashEntry) = 64\<close>. The kernel's answer to the
  request for \<open>map_size\<close> zeroed bytes is the parameter \<open>mmap_ok\<close>. When the size wraps around,
  the table would lie outside the mapping; the model reports it.
\<close>

definition new_ems :: "(u64 \<Rightarrow> bool) \<Rightarrow> u64 \<Rightarrow> ems_error + ExecutionManagementSystem" where
  "new_ems mmap_ok mo =
     (let map_capacity = mo * 2; map_size = 64 * map_capacity
      in if \<not> mmap_ok map_size then Inl EmsMmapFailed
         else if 2 ^ 64 \<le> 128 * unat mo then Inl EmsSizeOverflow
         else Inr \<lparr>ems_max_orders = unat mo, ems_map = replicate (unat map_capacity) zero_entry\<rparr>)"

section \<open>The hash table\<close>

partial_function (option) ems_map_insert_loop :: "EMSEntry list \<Rightarrow> EMSOrder \<Rightarrow> nat \<Rightarrow> EMSEntry list option" where
  "ems_map_insert_loop t order index =
     (if em_key (t ! index) = 0 \<and> em_state (em_value (t ! index)) = NONE
      then Some (t[index := \<lparr>em_key = em_order_id order, em_value = order\<rparr>])
      else if em_key (t ! index) = em_order_id order
      then Some (t[index := (t ! index)\<lparr>em_value := order\<rparr>])
      else ems_map_insert_loop t order ((index + 1) mod length t))"

definition ems_map_insert :: "EMSEntry list \<Rightarrow> EMSOrder \<Rightarrow> EMSEntry list option" where
  "ems_map_insert t order =
     (if length t = 0 then None else ems_map_insert_loop t order (unat (em_order_id order) mod length t))"

text \<open>\<open>map_find\<close> returns the address of the value in its slot, or the null pointer.\<close>

partial_function (option) ems_map_find_loop :: "EMSEntry list \<Rightarrow> u64 \<Rightarrow> nat \<Rightarrow> ptr option" where
  "ems_map_find_loop t oid index =
     (if em_key (t ! index) = 0 \<and> em_state (em_value (t ! index)) = NONE then Some None
      else if em_key (t ! index) = oid then Some (Some index)
      else ems_map_find_loop t oid ((index + 1) mod length t))"

definition ems_map_find :: "EMSEntry list \<Rightarrow> u64 \<Rightarrow> ptr option" where
  "ems_map_find t oid =
     (if length t = 0 then None else ems_map_find_loop t oid (unat oid mod length t))"

section \<open>The handlers\<close>

text \<open>A write through the pointer \<open>EMSOrder* order\<close>.\<close>

definition write_order :: "ExecutionManagementSystem \<Rightarrow> nat \<Rightarrow> EMSOrder \<Rightarrow> ExecutionManagementSystem option" where
  "write_order s i order = do {
     e \<leftarrow> aread (ems_map s) i;
     t \<leftarrow> awrite (ems_map s) i (e\<lparr>em_value := order\<rparr>);
     Some (s\<lparr>ems_map := t\<rparr>) }"

definition read_order :: "ExecutionManagementSystem \<Rightarrow> nat \<Rightarrow> EMSOrder option" where
  "read_order s i = do { e \<leftarrow> aread (ems_map s) i; Some (em_value e) }"

type_synonym ems_result = "((bool \<times> log_call list) \<times> ExecutionManagementSystem) option"

definition onOrderSent :: "ExecutionManagementSystem \<Rightarrow> u64 \<Rightarrow> u32 \<Rightarrow> u32 \<Rightarrow> ems_result" where
  "onOrderSent s oid price quantity = do {
     p \<leftarrow> ems_map_find (ems_map s) oid;
     if p \<noteq> None then
       Some ((False, [log_msg ERROR ''EMS: Order %lu already exists'' [ArgU (unat oid)]]), s)
     else do {
       let order = \<lparr>em_order_id = oid, em_price = price, em_original_quantity = quantity,
                    em_executed_quantity = 0, em_state = PENDING_NEW\<rparr>;
       t \<leftarrow> ems_map_insert (ems_map s) order;
       Some ((True, [log_msg INFO ''EMS: Order %lu sent (PENDING_NEW)'' [ArgU (unat oid)]]),
             s\<lparr>ems_map := t\<rparr>) } }"

definition onOrderAccepted :: "ExecutionManagementSystem \<Rightarrow> u64 \<Rightarrow> ems_result" where
  "onOrderAccepted s oid = do {
     p \<leftarrow> ems_map_find (ems_map s) oid;
     case p of
       None \<Rightarrow> Some ((False, []), s)
     | Some i \<Rightarrow> do {
         order \<leftarrow> read_order s i;
         if em_state order \<noteq> PENDING_NEW then
           Some ((False, [log_msg WARN ''EMS: Order %lu accepted from invalid state'' [ArgU (unat oid)]]), s)
         else do {
           s \<leftarrow> write_order s i (order\<lparr>em_state := NEW\<rparr>);
           Some ((True, [log_msg INFO ''EMS: Order %lu accepted (NEW)'' [ArgU (unat oid)]]), s) } } }"

definition onOrderRejected :: "ExecutionManagementSystem \<Rightarrow> u64 \<Rightarrow> ems_result" where
  "onOrderRejected s oid = do {
     p \<leftarrow> ems_map_find (ems_map s) oid;
     case p of
       None \<Rightarrow> Some ((False, []), s)
     | Some i \<Rightarrow> do {
         order \<leftarrow> read_order s i;
         s \<leftarrow> write_order s i (order\<lparr>em_state := REJECTED\<rparr>);
         Some ((True, [log_msg INFO ''EMS: Order %lu REJECTED'' [ArgU (unat oid)]]), s) } }"

definition onOrderExecuted :: "ExecutionManagementSystem \<Rightarrow> u64 \<Rightarrow> u32 \<Rightarrow> u32 \<Rightarrow> ems_result" where
  "onOrderExecuted s oid fill_quantity fill_price = do {
     p \<leftarrow> ems_map_find (ems_map s) oid;
     case p of
       None \<Rightarrow> Some ((False, []), s)
     | Some i \<Rightarrow> do {
         order \<leftarrow> read_order s i;
         if em_state order = CANCELED \<or> em_state order = REJECTED then
           Some ((False, [log_msg WARN ''EMS: Fill received on dead order %lu'' [ArgU (unat oid)]]), s)
         else do {
           let order = order\<lparr>em_executed_quantity := em_executed_quantity order + fill_quantity\<rparr>;
           if em_original_quantity order \<le> em_executed_quantity order then do {
             s \<leftarrow> write_order s i (order\<lparr>em_state := FILLED\<rparr>);
             Some ((True, [log_msg INFO ''EMS: Order %lu fully FILLED'' [ArgU (unat oid)]]), s) }
           else do {
             s \<leftarrow> write_order s i (order\<lparr>em_state := PARTIALLY_FILLED\<rparr>);
             Some ((True, [log_msg INFO ''EMS: Order %lu PARTIALLY_FILLED (%u/%u)''
               [ArgU (unat oid), ArgU (unat (em_executed_quantity order)),
                ArgU (unat (em_original_quantity order))]]), s) } } } }"

definition onOrderCanceled :: "ExecutionManagementSystem \<Rightarrow> u64 \<Rightarrow> ems_result" where
  "onOrderCanceled s oid = do {
     p \<leftarrow> ems_map_find (ems_map s) oid;
     case p of
       None \<Rightarrow> Some ((False, []), s)
     | Some i \<Rightarrow> do {
         order \<leftarrow> read_order s i;
         s \<leftarrow> write_order s i (order\<lparr>em_state := CANCELED\<rparr>);
         Some ((True, [log_msg INFO ''EMS: Order %lu CANCELED'' [ArgU (unat oid)]]), s) } }"

definition getOrderState :: "ExecutionManagementSystem \<Rightarrow> u64 \<Rightarrow> OrderState option" where
  "getOrderState s oid = do {
     p \<leftarrow> ems_map_find (ems_map s) oid;
     case p of
       None \<Rightarrow> Some NONE
     | Some i \<Rightarrow> do { order \<leftarrow> read_order s i; Some (em_state order) } }"

text \<open>\<open>getOrder\<close> returns the pointer; the caller reads the order it points to.\<close>

definition getOrder :: "ExecutionManagementSystem \<Rightarrow> u64 \<Rightarrow> ptr option" where
  "getOrder s oid = ems_map_find (ems_map s) oid"

section \<open>Invariant and abstraction of the table\<close>

definition em_nul :: "EMSEntry \<Rightarrow> bool" where
  "em_nul e \<longleftrightarrow> em_key e = 0 \<and> em_state (em_value e) = NONE"

definition em_live :: "EMSEntry \<Rightarrow> bool" where
  "em_live e \<longleftrightarrow> \<not> em_nul e"

text \<open>Every stored order carries its key as id and has left the state \<open>NONE\<close>.\<close>

definition ems_inv :: "EMSEntry list \<Rightarrow> bool" where
  "ems_inv t \<longleftrightarrow> table_inv em_nul em_live em_key t \<and>
     (\<forall>e \<in> set t. em_live e \<longrightarrow> em_order_id (em_value e) = em_key e \<and> em_state (em_value e) \<noteq> NONE)"

definition ems_abs :: "EMSEntry list \<Rightarrow> u64 \<Rightarrow> EMSOrder option" where
  "ems_abs t oid = map_option em_value (table_abs em_live em_key t oid)"

definition ems_room :: "EMSEntry list \<Rightarrow> nat" where
  "ems_room t = room em_nul t"

definition ems_ok :: "u64 \<Rightarrow> EMSOrder \<Rightarrow> bool" where
  "ems_ok oid order \<longleftrightarrow> em_order_id order = oid \<and> em_state order \<noteq> NONE"

interpretation em: probe_table em_nul em_live em_key
  by unfold_locales (simp add: em_live_def)

section \<open>The two loops satisfy the contract of a probing loop\<close>

definition em_stop :: "u64 \<Rightarrow> EMSEntry \<Rightarrow> bool" where
  "em_stop oid e \<longleftrightarrow> em_nul e \<or> em_key e = oid"

lemma em_stop_alt:
  "em_stop oid = (\<lambda>e. em_nul e \<or> em_live e \<and> em_key e = oid)"
  "em_stop oid = (\<lambda>e. \<not> em_live e \<or> em_key e = oid)"
  by (auto simp: em_stop_def em_live_def fun_eq_iff)

definition em_find_result :: "EMSEntry list \<Rightarrow> nat \<Rightarrow> ptr" where
  "em_find_result t j = (if em_nul (t ! j) then None else Some j)"

definition em_insert_result :: "EMSOrder \<Rightarrow> EMSEntry list \<Rightarrow> nat \<Rightarrow> EMSEntry list" where
  "em_insert_result order t j =
     (if em_nul (t ! j) then t[j := \<lparr>em_key = em_order_id order, em_value = order\<rparr>]
      else t[j := (t ! j)\<lparr>em_value := order\<rparr>])"

lemma ems_map_find_loop_stops:
  assumes "ems_map_find_loop t oid i = Some r"
  shows "i < length t \<longrightarrow> (\<exists>j < length t. em_stop oid (t ! j))"
proof (rule ems_map_find_loop.raw_induct
    [where P = "\<lambda>t oid i r. i < length t \<longrightarrow> (\<exists>j < length t. em_stop oid (t ! j))", OF _ assms],
    goal_cases)
  case (1 f t oid i r)
  show ?case
  proof (cases "em_stop oid (t ! i)")
    case False
    with 1(2) have "f t oid ((i + 1) mod length t) = Some r"
      by (auto simp: em_stop_def em_nul_def split: if_splits)
    from 1(1) [OF this] show ?thesis using Suc_mod_less [of i "length t"] by simp
  qed auto
qed

lemma ems_map_insert_loop_stops:
  assumes "ems_map_insert_loop t order i = Some r"
  shows "i < length t \<longrightarrow> (\<exists>j < length t. em_stop (em_order_id order) (t ! j))"
proof (rule ems_map_insert_loop.raw_induct
    [where P = "\<lambda>t order i r. i < length t \<longrightarrow> (\<exists>j < length t. em_stop (em_order_id order) (t ! j))",
      OF _ assms], goal_cases)
  case (1 f t order i r)
  show ?case
  proof (cases "em_stop (em_order_id order) (t ! i)")
    case False
    with 1(2) have "f t order ((i + 1) mod length t) = Some r"
      by (auto simp: em_stop_def em_nul_def split: if_splits)
    from 1(1) [OF this] show ?thesis using Suc_mod_less [of i "length t"] by simp
  qed auto
qed

interpretation ems_find_loop: probe_loop "em_stop oid" em_find_result "\<lambda>t. ems_map_find_loop t oid" for oid
proof (unfold_locales, goal_cases)
  case (1 i t)
  then show ?case
    by (subst ems_map_find_loop.simps) (auto simp: em_stop_def em_nul_def em_find_result_def)
next
  case (2 i t)
  then show ?case using ems_map_find_loop_stops [of t oid i] by (cases "ems_map_find_loop t oid i") auto
qed

interpretation ems_insert_loop: probe_loop "em_stop (em_order_id order)" "em_insert_result order"
    "\<lambda>t. ems_map_insert_loop t order" for order
proof (unfold_locales, goal_cases)
  case (1 i t)
  then show ?case
    by (subst ems_map_insert_loop.simps) (auto simp: em_stop_def em_nul_def em_insert_result_def)
next
  case (2 i t)
  then show ?case
    using ems_map_insert_loop_stops [of t order i] by (cases "ems_map_insert_loop t order i") auto
qed

section \<open>Lookup, insertion and update\<close>

lemma ems_home: "ems_inv t \<Longrightarrow> unat (oid :: u64) mod length t < length t"
  by (simp add: ems_inv_def table_inv_def)

lemma ems_abs_None_iff: "ems_abs t oid = None \<longleftrightarrow> table_abs em_live em_key t oid = None"
  by (simp add: ems_abs_def)

lemma ems_find_present:
  assumes "ems_inv t" "ems_abs t oid = Some order"
  obtains i where "ems_map_find t oid = Some (Some i)" "i < length t" "em_live (t ! i)"
    "em_key (t ! i) = oid" "em_value (t ! i) = order" "ems_ok oid order"
proof -
  from assms(2) obtain e where e: "table_abs em_live em_key t oid = Some e" "em_value e = order"
    by (auto simp: ems_abs_def)
  from em.find_present [of t oid e] assms(1) e(1) obtain j
    where j: "first_stop (em_stop oid) t (unat oid mod length t) j" "t ! j = e" "em_live e" "em_key e = oid"
    by (auto simp: ems_inv_def em_stop_alt(1))
  have jl: "j < length t" using j(1) by (simp add: first_stop_def)
  from ems_find_loop.loop_first [OF j(1) ems_home [OF assms(1)]] assms(1) j
  have "ems_map_find t oid = Some (Some j)"
    by (auto simp: ems_map_find_def ems_inv_def table_inv_def em_find_result_def em_live_def)
  moreover have "ems_ok oid order" using assms(1) j jl e(2) nth_mem [OF jl]
    by (auto simp: ems_inv_def ems_ok_def)
  ultimately show thesis using that j jl e(2) by auto
qed

lemma ems_find_absent:
  assumes "ems_inv t" "ems_abs t oid = None" "0 < ems_room t"
  shows "ems_map_find t oid = Some None"
proof -
  note h = ems_home [OF assms(1), of oid]
  from assms(3) obtain i where "i < length t" "em_stop oid (t ! i)"
    by (auto simp: ems_room_def room_pos_iff em_stop_def)
  from first_stop_exists [where stop = "em_stop oid", OF h this]
  obtain j where j: "first_stop (em_stop oid) t (unat oid mod length t) j" by auto
  with em.find_absent [of t oid] assms(2) have "em_nul (t ! j)"
    by (auto simp: em_stop_alt(1) ems_abs_None_iff)
  with ems_find_loop.loop_first [OF j h] assms(1) show ?thesis
    by (auto simp: ems_map_find_def em_find_result_def ems_inv_def table_inv_def)
qed

lemma ems_find_stuck:
  assumes "ems_inv t" "ems_abs t oid = None" "ems_room t = 0"
  shows "ems_map_find t oid = None"
proof -
  have "\<forall>j < length t. \<not> em_stop oid (t ! j)"
    using assms(2,3) room_pos_iff [of em_nul t]
    by (auto simp: ems_abs_None_iff table_abs_None_iff em_stop_def em_live_def ems_room_def)
  with ems_find_loop.stuck [OF ems_home [OF assms(1)]] show ?thesis by (simp add: ems_map_find_def)
qed

lemma ems_insert_law:
  assumes "ems_inv t" "ems_abs t (em_order_id order) = None" "0 < ems_room t" "em_state order \<noteq> NONE"
  shows "\<exists>t'. ems_map_insert t order = Some t' \<and> ems_inv t' \<and>
     ems_abs t' = (ems_abs t)(em_order_id order \<mapsto> order) \<and> ems_room t = Suc (ems_room t') \<and> length t' = length t"
proof -
  let ?k = "em_order_id order" and ?e = "\<lparr>em_key = em_order_id order, em_value = order\<rparr>"
  note h = ems_home [OF assms(1), of ?k]
  from assms(3) obtain i where "i < length t" "em_stop ?k (t ! i)"
    by (auto simp: ems_room_def room_pos_iff em_stop_def)
  from first_stop_exists [where stop = "em_stop ?k", OF h this]
  obtain j where j: "first_stop (em_stop ?k) t (unat ?k mod length t) j" by auto
  have jl: "j < length t" using j by (simp add: first_stop_def)
  have e: "em_live ?e" using assms(4) by (simp add: em_live_def em_nul_def)
  have fs: "first_stop (\<lambda>x. \<not> em_live x \<or> em_key x = em_key ?e) t (unat (em_key ?e) mod length t) j"
    using j by (simp add: em_stop_alt(2))
  have inv: "table_inv em_nul em_live em_key t" using assms(1) by (simp add: ems_inv_def)
  have none: "table_abs em_live em_key t (em_key ?e) = None" using assms(2) by (simp add: ems_abs_None_iff)
  note ins = em.insert_absent [OF inv none fs e]
  have nul: "em_nul (t ! j)" using ins(4) by (simp add: em_live_def)
  have "ems_map_insert t order = Some (t[j := ?e])"
    using ems_insert_loop.loop_first [OF j h] nul inv
    by (auto simp: ems_map_insert_def em_insert_result_def table_inv_def)
  moreover have "ems_inv (t[j := ?e])"
    using ins(1) assms(1,4) set_update_subset_insert [of t j ?e] by (auto simp: ems_inv_def)
  moreover have "ems_abs (t[j := ?e]) = (ems_abs t)(?k \<mapsto> order)"
    using ins(2) by (auto simp: ems_abs_def fun_eq_iff)
  moreover have "ems_room t = Suc (ems_room (t[j := ?e]))"
    using length_filter_list_update [OF jl, of em_nul ?e] nul e by (simp add: ems_room_def room_def em_live_def)
  ultimately show ?thesis by auto
qed

lemma ems_update_law:
  assumes "ems_inv t" "i < length t" "em_live (t ! i)" "ems_ok (em_key (t ! i)) order"
  shows "ems_inv (t[i := (t ! i)\<lparr>em_value := order\<rparr>])"
    and "ems_abs (t[i := (t ! i)\<lparr>em_value := order\<rparr>]) = (ems_abs t)(em_key (t ! i) \<mapsto> order)"
    and "ems_room (t[i := (t ! i)\<lparr>em_value := order\<rparr>]) = ems_room t"
proof -
  let ?e = "(t ! i)\<lparr>em_value := order\<rparr>"
  have inv: "table_inv em_nul em_live em_key t" using assms(1) by (simp add: ems_inv_def)
  have e: "em_live ?e" "em_key ?e = em_key (t ! i)"
    using assms(4) by (auto simp: em_live_def em_nul_def ems_ok_def)
  note ow = em.overwrite_present [OF inv assms(2,3) e]
  show "ems_inv (t[i := ?e])"
    using ow(1) assms(1,4) set_update_subset_insert [of t i ?e] by (auto simp: ems_inv_def ems_ok_def)
  show "ems_abs (t[i := ?e]) = (ems_abs t)(em_key (t ! i) \<mapsto> order)"
    using ow(2) by (auto simp: ems_abs_def fun_eq_iff)
  show "ems_room (t[i := ?e]) = ems_room t" using ow(3) by (simp add: ems_room_def)
qed

text \<open>Dereferencing the result of \<open>map_find\<close>, the table is a keyed store of orders.\<close>

definition ems_lookup :: "EMSEntry list \<Rightarrow> u64 \<Rightarrow> EMSOrder option option" where
  "ems_lookup t oid = map_option (map_option (\<lambda>i. em_value (t ! i))) (ems_map_find t oid)"

interpretation ems_store: keyed_store ems_lookup "\<lambda>t k order. ems_map_insert t order" ems_abs ems_inv ems_room ems_ok
proof (unfold_locales, goal_cases)
  case (1 t k)
  show ?case
  proof (cases "ems_abs t k")
    case None
    with 1 ems_find_absent [of t k] show ?thesis by (simp add: ems_lookup_def)
  next
    case (Some order)
    then show ?thesis by (rule ems_find_present [OF 1(1)]) (simp add: ems_lookup_def Some)
  qed
next
  case (2 t k)
  then show ?case using ems_find_stuck [of t k] by (simp add: ems_lookup_def)
next
  case (3 t k v)
  then show ?case using ems_insert_law [of t v] by (auto simp: ems_ok_def)
qed

lemma new_table:
  assumes "0 < n"
  shows "ems_inv (replicate n zero_entry)" "ems_abs (replicate n zero_entry) = Map.empty"
    "ems_room (replicate n zero_entry) = n"
  using assms
  by (auto simp: ems_inv_def table_inv_def chains_def unique_keys_def em_live_def em_nul_def zero_entry_def
      fun_eq_iff ems_abs_None_iff table_abs_None_iff ems_room_def room_def)

end
