(* ===== verification/EMS_Props.thy ===== *)
theory EMS_Props
  imports EMS Bounded_Sim
begin

text \<open>
  The handlers of the execution management system against their contract: a map from order ids
  to orders on which every gateway message acts by a transition of the one order it names. The
  table follows the contract as long as it has an empty slot; the properties at the end state
  the life cycle of an order, the accounting of fills, and what happens when the table is full.
\<close>

section \<open>The contract\<close>

datatype ems_event =
    Sent u64 u32 u32
  | Accepted u64
  | Rejected u64
  | Executed u64 u32 u32
  | Canceled u64

definition handle :: "ExecutionManagementSystem \<Rightarrow> ems_event \<Rightarrow> ems_result" where
  "handle s ev = (case ev of
     Sent oid p q \<Rightarrow> onOrderSent s oid p q
   | Accepted oid \<Rightarrow> onOrderAccepted s oid
   | Rejected oid \<Rightarrow> onOrderRejected s oid
   | Executed oid q p \<Rightarrow> onOrderExecuted s oid q p
   | Canceled oid \<Rightarrow> onOrderCanceled s oid)"

fun event_id :: "ems_event \<Rightarrow> u64" where
  "event_id (Sent oid p q) = oid"
| "event_id (Accepted oid) = oid"
| "event_id (Rejected oid) = oid"
| "event_id (Executed oid q p) = oid"
| "event_id (Canceled oid) = oid"

definition fresh_order :: "u64 \<Rightarrow> u32 \<Rightarrow> u32 \<Rightarrow> EMSOrder" where
  "fresh_order oid p q = \<lparr>em_order_id = oid, em_price = p, em_original_quantity = q,
     em_executed_quantity = 0, em_state = PENDING_NEW\<rparr>"

text \<open>The effect of one event on the order it names.\<close>

definition filled :: "EMSOrder \<Rightarrow> u32 \<Rightarrow> EMSOrder" where
  "filled r q = (let ex = em_executed_quantity r + q in
     r\<lparr>em_executed_quantity := ex,
       em_state := (if em_original_quantity r \<le> ex then FILLED else PARTIALLY_FILLED)\<rparr>)"

definition dead :: "EMSOrder \<Rightarrow> bool" where
  "dead r \<longleftrightarrow> em_state r = CANCELED \<or> em_state r = REJECTED"

fun transition :: "ems_event \<Rightarrow> EMSOrder \<Rightarrow> bool \<times> EMSOrder" where
  "transition (Sent oid p q) r = (False, r)"
| "transition (Accepted oid) r =
     (if em_state r = PENDING_NEW then (True, r\<lparr>em_state := NEW\<rparr>) else (False, r))"
| "transition (Rejected oid) r = (True, r\<lparr>em_state := REJECTED\<rparr>)"
| "transition (Executed oid q p) r = (if dead r then (False, r) else (True, filled r q))"
| "transition (Canceled oid) r = (True, r\<lparr>em_state := CANCELED\<rparr>)"

fun event_log :: "ems_event \<Rightarrow> bool \<Rightarrow> EMSOrder \<Rightarrow> log_call list" where
  "event_log (Sent oid p q) ok r =
     [if ok then log_msg INFO ''EMS: Order %lu sent (PENDING_NEW)'' [ArgU (unat oid)]
      else log_msg ERROR ''EMS: Order %lu already exists'' [ArgU (unat oid)]]"
| "event_log (Accepted oid) ok r =
     [if ok then log_msg INFO ''EMS: Order %lu accepted (NEW)'' [ArgU (unat oid)]
      else log_msg WARN ''EMS: Order %lu accepted from invalid state'' [ArgU (unat oid)]]"
| "event_log (Rejected oid) ok r = [log_msg INFO ''EMS: Order %lu REJECTED'' [ArgU (unat oid)]]"
| "event_log (Executed oid q p) ok r =
     [if \<not> ok then log_msg WARN ''EMS: Fill received on dead order %lu'' [ArgU (unat oid)]
      else if em_state r = FILLED then log_msg INFO ''EMS: Order %lu fully FILLED'' [ArgU (unat oid)]
      else log_msg INFO ''EMS: Order %lu PARTIALLY_FILLED (%u/%u)''
        [ArgU (unat oid), ArgU (unat (em_executed_quantity r)), ArgU (unat (em_original_quantity r))]]"
| "event_log (Canceled oid) ok r = [log_msg INFO ''EMS: Order %lu CANCELED'' [ArgU (unat oid)]]"

type_synonym orders = "u64 \<Rightarrow> EMSOrder option"

definition ems_spec :: "orders \<Rightarrow> ems_event \<Rightarrow> (bool \<times> log_call list) \<times> orders" where
  "ems_spec b ev = (case b (event_id ev) of
     None \<Rightarrow> (case ev of
         Sent oid p q \<Rightarrow> ((True, event_log ev True (fresh_order oid p q)), b(oid \<mapsto> fresh_order oid p q))
       | _ \<Rightarrow> ((False, []), b))
   | Some r \<Rightarrow> (let (ok, r') = transition ev r
       in ((ok, event_log ev ok r'), b(event_id ev \<mapsto> r'))))"

section \<open>The handlers follow the contract\<close>

definition ems_rel :: "ExecutionManagementSystem \<Rightarrow> orders \<Rightarrow> bool" where
  "ems_rel s b \<longleftrightarrow> ems_inv (ems_map s) \<and> ems_abs (ems_map s) = b"

definition ems_left :: "ExecutionManagementSystem \<Rightarrow> nat" where
  "ems_left s = ems_room (ems_map s)"

fun ems_cost :: "ems_event \<Rightarrow> nat" where
  "ems_cost (Sent oid p q) = 1"
| "ems_cost ev = 0"

lemma transition_ok: "ems_ok oid r \<Longrightarrow> ems_ok oid (snd (transition ev r))"
  by (cases ev) (auto simp: ems_ok_def filled_def Let_def)

lemma write_order_law:
  assumes "ems_rel s b" "i < length (ems_map s)" "em_live (ems_map s ! i)" "em_key (ems_map s ! i) = oid"
    and "ems_ok oid r"
  shows "\<exists>s'. write_order s i r = Some s' \<and> ems_rel s' (b(oid \<mapsto> r)) \<and> ems_left s' = ems_left s"
  using assms ems_update_law [of "ems_map s" i r]
  by (auto simp: write_order_def ems_rel_def ems_left_def)

lemma handle_known:
  assumes rel: "ems_rel s b" and r: "b (event_id ev) = Some r"
  shows "\<exists>s'. handle s ev = Some (fst (ems_spec b ev), s') \<and> ems_rel s' (snd (ems_spec b ev)) \<and>
           ems_left s' = ems_left s"
proof -
  let ?oid = "event_id ev"
  from rel r obtain i where i: "ems_map_find (ems_map s) ?oid = Some (Some i)" "i < length (ems_map s)"
    "em_live (ems_map s ! i)" "em_key (ems_map s ! i) = ?oid" "em_value (ems_map s ! i) = r" "ems_ok ?oid r"
    by (auto simp: ems_rel_def elim: ems_find_present)
  have rd: "read_order s i = Some r" using i by (simp add: read_order_def)
  note w = write_order_law [OF rel i(2-4)]
  have same: "b(?oid \<mapsto> r) = b" using r by (simp add: map_upd_triv)
  have spec: "ems_spec b ev = (let (ok, r') = transition ev r in ((ok, event_log ev ok r'), b(?oid \<mapsto> r')))"
    using r by (simp add: ems_spec_def)
  obtain s' where s': "write_order s i (snd (transition ev r)) = Some s'"
    "ems_rel s' (b(?oid \<mapsto> snd (transition ev r)))" "ems_left s' = ems_left s"
    using w [OF transition_ok [OF i(6)], of ev] by blast
  note defs = handle_def onOrderSent_def onOrderAccepted_def onOrderRejected_def onOrderExecuted_def
    onOrderCanceled_def
  show ?thesis
    using i(1) rd s' rel same spec
    by (cases ev) (auto simp: defs dead_def filled_def Let_def split: if_splits)
qed

lemma handle_unknown:
  assumes rel: "ems_rel s b" and r: "b (event_id ev) = None" and left: "0 < ems_left s"
  shows "\<exists>s'. handle s ev = Some (fst (ems_spec b ev), s') \<and> ems_rel s' (snd (ems_spec b ev)) \<and>
           ems_left s = ems_left s' + ems_cost ev"
proof -
  let ?t = "ems_map s"
  have f: "ems_map_find ?t (event_id ev) = Some None"
    using rel r left by (intro ems_find_absent) (auto simp: ems_rel_def ems_left_def)
  note defs = handle_def onOrderSent_def onOrderAccepted_def onOrderRejected_def onOrderExecuted_def
    onOrderCanceled_def
  show ?thesis
  proof (cases ev)
    case (Sent oid p q)
    have "\<exists>t'. ems_map_insert ?t (fresh_order oid p q) = Some t' \<and> ems_inv t' \<and>
       ems_abs t' = (ems_abs ?t)(oid \<mapsto> fresh_order oid p q) \<and> ems_room ?t = Suc (ems_room t') \<and> length t' = length ?t"
      using ems_insert_law [of ?t "fresh_order oid p q"] rel r left Sent
      by (simp add: ems_rel_def ems_left_def fresh_order_def)
    with Sent f r rel show ?thesis
      by (auto simp: defs ems_spec_def fresh_order_def ems_rel_def ems_left_def)
  qed (use f r rel in \<open>auto simp: defs ems_spec_def\<close>)
qed

lemma handle_stuck:
  assumes "ems_rel s b" "b (event_id ev) = None" "ems_left s = 0"
  shows "handle s ev = None"
proof -
  have "ems_map_find (ems_map s) (event_id ev) = None"
    using assms by (intro ems_find_stuck) (auto simp: ems_rel_def ems_left_def)
  then show ?thesis
    by (cases ev) (simp_all add: handle_def onOrderSent_def onOrderAccepted_def onOrderRejected_def
        onOrderExecuted_def onOrderCanceled_def)
qed

interpretation ems: bounded_sim handle ems_spec ems_rel ems_left ems_cost
proof
  fix s b ev assume "ems_rel s b" "0 < ems_left s"
  then show "\<exists>s'. handle s ev = Some (fst (ems_spec b ev), s') \<and> ems_rel s' (snd (ems_spec b ev)) \<and>
      ems_left s \<le> ems_left s' + ems_cost ev"
    using handle_known [of s b ev] handle_unknown [of s b ev] by (cases "b (event_id ev)") fastforce+
qed

lemma new_ems_rel:
  assumes "new_ems mmap_ok mo = Inr s" "mo \<noteq> 0"
  shows "ems_rel s Map.empty" "ems_left s = 2 * unat mo"
proof -
  from assms(1) have fit: "128 * unat mo < 2 ^ 64" and s: "ems_map s = replicate (unat (mo * 2)) zero_entry"
    by (auto simp: new_ems_def Let_def split: if_splits)
  have "unat (mo * 2) = 2 * unat mo"
    using fit by (simp add: unat_word_ariths take_bit_eq_mod)
  moreover have "0 < unat mo" using assms(2) by (simp add: unat_gt_0)
  ultimately show "ems_rel s Map.empty" "ems_left s = 2 * unat mo"
    using new_table [of "2 * unat mo"] s by (auto simp: ems_rel_def ems_left_def)
qed

lemma ems_queries:
  assumes "ems_rel s b" "b oid \<noteq> None \<or> 0 < ems_left s"
  shows "getOrderState s oid = Some (case b oid of None \<Rightarrow> NONE | Some r \<Rightarrow> em_state r)"
    and "map_option (map_option (\<lambda>i. em_value (ems_map s ! i))) (getOrder s oid) = Some (b oid)"
proof -
  have inv: "ems_inv (ems_map s)" "ems_abs (ems_map s) oid = b oid" using assms(1) by (auto simp: ems_rel_def)
  have "getOrderState s oid = Some (case b oid of None \<Rightarrow> NONE | Some r \<Rightarrow> em_state r) \<and>
    map_option (map_option (\<lambda>i. em_value (ems_map s ! i))) (getOrder s oid) = Some (b oid)"
  proof (cases "b oid")
    case None
    with ems_find_absent [OF inv(1), of oid] inv(2) assms(2) show ?thesis
      by (simp add: getOrderState_def getOrder_def ems_left_def)
  next
    case (Some r)
    with inv(2) have "ems_abs (ems_map s) oid = Some r" by simp
    then show ?thesis
      by (rule ems_find_present [OF inv(1)]) (simp add: getOrderState_def getOrder_def read_order_def Some)
  qed
  then show "getOrderState s oid = Some (case b oid of None \<Rightarrow> NONE | Some r \<Rightarrow> em_state r)"
    "map_option (map_option (\<lambda>i. em_value (ems_map s ! i))) (getOrder s oid) = Some (b oid)" by auto
qed

section \<open>Runs\<close>

text \<open>Whatever a run of the handlers returns, it is what the contract says.\<close>

lemma handle_returns:
  assumes "ems_rel s b" "handle s ev = Some (r, s')"
  shows "r = fst (ems_spec b ev) \<and> ems_rel s' (snd (ems_spec b ev))"
proof (cases "b (event_id ev)")
  case None
  with assms handle_stuck [of s b ev] have "0 < ems_left s" by (cases "ems_left s") auto
  from handle_unknown [OF assms(1) None this] assms(2) show ?thesis by auto
next
  case (Some o')
  from handle_known [OF assms(1) Some] assms(2) show ?thesis by auto
qed

lemma run_returns:
  assumes "ems_rel s b" "run_steps handle s evs = Some (rs, s')"
  shows "rs = fst (run_spec ems_spec b evs) \<and> ems_rel s' (snd (run_spec ems_spec b evs))"
  using assms
proof (induction evs arbitrary: s b rs)
  case (Cons ev evs)
  from Cons.prems(2) obtain r s1 rs1 where 1: "handle s ev = Some (r, s1)"
    "run_steps handle s1 evs = Some (rs1, s')" "rs = r # rs1"
    by (auto simp: bind_eq_Some_conv)
  from handle_returns [OF Cons.prems(1) 1(1)] Cons.IH [OF _ 1(2)] 1(3) show ?case
    by (auto simp: case_prod_beta Let_def)
qed simp

text \<open>An order depends only on the events that name it.\<close>

fun order_events :: "ems_event list \<Rightarrow> EMSOrder option \<Rightarrow> EMSOrder option" where
  "order_events [] r = r"
| "order_events (ev # evs) r = order_events evs (case r of
     None \<Rightarrow> (case ev of Sent oid p q \<Rightarrow> Some (fresh_order oid p q) | _ \<Rightarrow> None)
   | Some r \<Rightarrow> Some (snd (transition ev r)))"

lemma ems_spec_at:
  "snd (ems_spec b ev) oid = (if event_id ev = oid then order_events [ev] (b oid) else b oid)"
  by (cases ev; cases "b (event_id ev)") (auto simp: ems_spec_def case_prod_beta Let_def)

lemma run_spec_at:
  "snd (run_spec ems_spec b evs) oid = order_events (filter (\<lambda>ev. event_id ev = oid) evs) (b oid)"
proof (induction evs arbitrary: b)
  case (Cons ev evs)
  have "snd (run_spec ems_spec b (ev # evs)) = snd (run_spec ems_spec (snd (ems_spec b ev)) evs)"
    by (simp add: case_prod_beta Let_def)
  then have "snd (run_spec ems_spec b (ev # evs)) oid =
      order_events (filter (\<lambda>ev. event_id ev = oid) evs) (snd (ems_spec b ev) oid)"
    using Cons.IH [of "snd (ems_spec b ev)"] by metis
  then show ?case by (simp add: ems_spec_at)
qed simp

lemma state_of_rel:
  assumes "ems_rel s b" "getOrderState s oid = Some st" "st \<noteq> NONE"
  shows "\<exists>r. b oid = Some r \<and> em_state r = st"
proof (cases "b oid \<noteq> None \<or> 0 < ems_left s")
  case True
  with ems_queries(1) [OF assms(1), of oid] assms(2,3) show ?thesis by (auto split: option.splits)
next
  case False
  with assms(1) have "ems_map_find (ems_map s) oid = None"
    by (intro ems_find_stuck) (auto simp: ems_rel_def ems_left_def)
  with assms(2) show ?thesis by (simp add: getOrderState_def)
qed

lemma dead_step: "dead r \<Longrightarrow> dead (snd (transition ev r)) \<and>
    em_executed_quantity (snd (transition ev r)) = em_executed_quantity r"
  by (cases ev) (auto simp: dead_def)

lemma dead_run:
  assumes "b oid = Some r" "dead r"
  shows "\<exists>r'. snd (run_spec ems_spec b evs) oid = Some r' \<and> dead r' \<and>
     em_executed_quantity r' = em_executed_quantity r \<and>
     (\<forall>i < length evs. \<forall>q p. evs ! i = Executed oid q p \<longrightarrow> \<not> fst (fst (run_spec ems_spec b evs) ! i))"
  using assms
proof (induction evs arbitrary: b r)
  case (Cons ev evs)
  let ?b = "snd (ems_spec b ev)"
  obtain r1 where r1: "?b oid = Some r1" "dead r1" "em_executed_quantity r1 = em_executed_quantity r"
    using Cons.prems dead_step [of r ev] ems_spec_at [of b ev oid] by (cases "event_id ev = oid") auto
  have now: "\<not> fst (fst (ems_spec b ev))" if "ev = Executed oid q p" for q p
    using that Cons.prems by (simp add: ems_spec_def)
  from Cons.IH [of ?b r1, OF r1(1,2)] r1(3) now show ?case
    by (auto simp: case_prod_beta Let_def less_Suc_eq_0_disj)
qed simp

lemma sends_fill:
  assumes "ems_rel s b" "distinct ids" "\<forall>oid \<in> set ids. b oid = None" "length ids \<le> ems_left s"
  shows "\<exists>rs s' b'. run_steps handle s (map (\<lambda>oid. Sent oid p q) ids) = Some (rs, s') \<and>
     ems_rel s' b' \<and> dom b' = dom b \<union> set ids \<and> ems_left s = ems_left s' + length ids \<and> list_all fst rs"
  using assms
proof (induction ids arbitrary: s b)
  case Nil
  then show ?case by auto
next
  case (Cons oid ids)
  have n: "b (event_id (Sent oid p q)) = None" and l: "0 < ems_left s" using Cons.prems by auto
  have spec: "ems_spec b (Sent oid p q) =
      ((True, event_log (Sent oid p q) True (fresh_order oid p q)), b(oid \<mapsto> fresh_order oid p q))"
    using n by (simp add: ems_spec_def)
  from handle_unknown [OF Cons.prems(1) n l] obtain s1 where
    s1: "handle s (Sent oid p q) = Some ((True, event_log (Sent oid p q) True (fresh_order oid p q)), s1)"
    "ems_rel s1 (b(oid \<mapsto> fresh_order oid p q))" "ems_left s = Suc (ems_left s1)"
    by (auto simp: spec simp del: event_log.simps)
  have "\<forall>x \<in> set ids. (b(oid \<mapsto> fresh_order oid p q)) x = None" using Cons.prems by auto
  moreover have "dom (b(oid \<mapsto> fresh_order oid p q)) = insert oid (dom b)" by simp
  moreover have "distinct ids" "length ids \<le> ems_left s1" using Cons.prems(2,4) s1(3) by auto
  ultimately obtain rs s' b' where
    "run_steps handle s1 (map (\<lambda>oid. Sent oid p q) ids) = Some (rs, s')" "ems_rel s' b'"
    "dom b' = insert oid (dom b) \<union> set ids" "ems_left s1 = ems_left s' + length ids" "list_all fst rs"
    using Cons.IH [OF s1(2)] by metis
  with s1 show ?case by (auto simp del: event_log.simps)
qed

section \<open>Fills\<close>

definition fill_events :: "u64 \<Rightarrow> (u32 \<times> u32) list \<Rightarrow> ems_event list" where
  "fill_events oid fills = map (\<lambda>(f, fp). Executed oid f fp) fills"

lemma fills_run:
  assumes "\<not> dead r"
  shows "order_events (fill_events oid fills) (Some r) = Some (
    let ex = em_executed_quantity r + sum_list (map fst fills)
    in r\<lparr>em_executed_quantity := ex,
         em_state := (if fills = [] then em_state r
           else if em_original_quantity r \<le> ex then FILLED else PARTIALLY_FILLED)\<rparr>)"
  using assms
proof (induction fills arbitrary: r)
  case (Cons f fills)
  have "\<not> dead (filled r (fst f))" by (simp add: filled_def dead_def Let_def)
  from Cons.IH [OF this] Cons.prems show ?case
    by (simp add: fill_events_def case_prod_beta filled_def Let_def add.assoc)
qed (simp add: fill_events_def)

lemma sum_list_unat:
  fixes ws :: "u32 list"
  assumes "sum_list (map unat ws) < 2 ^ 32"
  shows "unat (sum_list ws) = sum_list (map unat ws)"
proof -
  have "sum_list ws = of_nat (sum_list (map unat ws))" by (induction ws) simp_all
  with assms show ?thesis by (simp add: unat_of_nat take_bit_eq_mod)
qed

section \<open>Properties\<close>



text \<open>
  C19. The table is never emptied and \<open>max_orders\<close> is never enforced: after sends of \<open>2 * max_orders\<close>
  distinct ids, all of which succeed, every handler and both queries loop forever on any id that
  has not been sent.
\<close>

theorem ems_hangs_when_full:
  assumes "new_ems mmap_ok mo = Inr s" "mo \<noteq> 0" "distinct ids" "length ids = 2 * unat mo"
  shows "\<exists>rs s'. run_steps handle s (map (\<lambda>oid. Sent oid p q) ids) = Some (rs, s') \<and> list_all fst rs \<and>
    (\<forall>ev. event_id ev \<notin> set ids \<longrightarrow> handle s' ev = None) \<and>
    (\<forall>oid. oid \<notin> set ids \<longrightarrow> getOrderState s' oid = None \<and> getOrder s' oid = None)"
proof -
  note n = new_ems_rel [OF assms(1,2)]
  from sends_fill [OF n(1) assms(3), of p q] n(2) assms(4) obtain rs s' b' where
    r: "run_steps handle s (map (\<lambda>oid. Sent oid p q) ids) = Some (rs, s')" "ems_rel s' b'"
    "dom b' = set ids" "ems_left s' = 0" "list_all fst rs" by auto
  have unknown: "b' oid = None" if "oid \<notin> set ids" for oid using that r(3) by auto
  have "ems_map_find (ems_map s') oid = None" if "oid \<notin> set ids" for oid
    using ems_find_stuck r(2,4) unknown [OF that] by (auto simp: ems_rel_def ems_left_def)
  then have "getOrderState s' oid = None \<and> getOrder s' oid = None" if "oid \<notin> set ids" for oid
    using that by (simp add: getOrderState_def getOrder_def)
  with r handle_stuck [OF r(2)] unknown show ?thesis by blast
qed

theorem ems_hangs_when_full_witness:
  "\<exists>s rs s'. new_ems (\<lambda>_. True) 1 = Inr s \<and>
     run_steps handle s [Sent 10 5 5, Sent 11 5 5] = Some (rs, s') \<and> onOrderAccepted s' 12 = None"
proof -
  obtain s where s: "new_ems (\<lambda>_. True) 1 = Inr s" by (auto simp: new_ems_def)
  have "\<exists>rs s'. run_steps handle s (map (\<lambda>oid. Sent oid 5 5) [10, 11]) = Some (rs, s') \<and> list_all fst rs \<and>
    (\<forall>ev. event_id ev \<notin> set [10, 11] \<longrightarrow> handle s' ev = None) \<and>
    (\<forall>oid. oid \<notin> set [10, 11] \<longrightarrow> getOrderState s' oid = None \<and> getOrder s' oid = None)"
    by (rule ems_hangs_when_full [OF s]) auto
  then obtain rs s' where r: "run_steps handle s [Sent 10 5 5, Sent 11 5 5] = Some (rs, s')"
    "\<forall>ev. event_id ev \<notin> set [10, 11] \<longrightarrow> handle s' ev = None" by auto
  have "handle s' (Accepted 12) = None" using r(2) by simp
  with s r(1) show ?thesis by (auto simp: handle_def)
qed

text \<open>
  C18. A dead order stays dead: once an order is canceled or rejected, whatever events follow, it
  remains canceled or rejected with the executed quantity it had, and every fill for it is
  refused.
\<close>

theorem ems_dead_stays_dead:
  assumes "new_ems mmap_ok mo = Inr s0" "mo \<noteq> 0"
    and "run_steps handle s0 evs = Some (rs, s)" "run_steps handle s evs' = Some (rs', s')"
    and "getOrderState s oid = Some st" "st = CANCELED \<or> st = REJECTED"
  shows "(getOrderState s' oid = Some CANCELED \<or> getOrderState s' oid = Some REJECTED) \<and>
    map_option (map_option (\<lambda>i. em_executed_quantity (em_value (ems_map s' ! i)))) (getOrder s' oid) =
      map_option (map_option (\<lambda>i. em_executed_quantity (em_value (ems_map s ! i)))) (getOrder s oid) \<and>
    (\<forall>i < length evs'. \<forall>q p. evs' ! i = Executed oid q p \<longrightarrow> \<not> fst (rs' ! i))"
proof -
  let ?b = "snd (run_spec ems_spec Map.empty evs)"
  have b: "ems_rel s ?b" using run_returns [OF new_ems_rel(1) [OF assms(1,2)] assms(3)] by simp
  from state_of_rel [OF b assms(5)] assms(6) obtain r where r: "?b oid = Some r" "dead r"
    by (auto simp: dead_def)
  from run_returns [OF b assms(4)] have b': "ems_rel s' (snd (run_spec ems_spec ?b evs'))"
    and rs': "rs' = fst (run_spec ems_spec ?b evs')" by auto
  from dead_run [of ?b, OF r] obtain r' where r': "snd (run_spec ems_spec ?b evs') oid = Some r'" "dead r'"
    "em_executed_quantity r' = em_executed_quantity r"
    "\<forall>i < length evs'. \<forall>q p. evs' ! i = Executed oid q p \<longrightarrow> \<not> fst (rs' ! i)"
    using rs' by metis
  obtain i where i: "getOrder s oid = Some (Some i)" "em_value (ems_map s ! i) = r"
    using ems_queries(2) [OF b, of oid] r(1) by auto
  obtain j where j: "getOrder s' oid = Some (Some j)" "em_value (ems_map s' ! j) = r'"
    using ems_queries(2) [OF b', of oid] r'(1) by auto
  have "getOrderState s' oid = Some (em_state r')" using ems_queries(1) [OF b', of oid] r'(1) by simp
  with r' i j show ?thesis by (auto simp: dead_def)
qed

theorem ems_dead_stays_dead_witness:
  "\<exists>s s'. getOrderState s 2 = Some REJECTED \<and>
     handle s (Executed 2 10 100) = Some ((False, [log_msg WARN ''EMS: Fill received on dead order %lu'' [ArgU 2]]), s') \<and>
     (getOrderState s' 2 = Some CANCELED \<or> getOrderState s' 2 = Some REJECTED)"
proof -
  let ?evs = "[Sent 2 100 10, Rejected 2]"
  obtain s0 where s0: "new_ems (\<lambda>_. True) 100 = Inr s0" by (auto simp: new_ems_def)
  note n = new_ems_rel [OF s0]
  from ems.run_sim [of s0 Map.empty ?evs] n obtain s rs where s: "run_steps handle s0 ?evs = Some (rs, s)"
    "ems_rel s (snd (run_spec ems_spec Map.empty ?evs))" "0 < ems_left s" by force
  from ems.run_sim [of s _ "[Executed 2 10 100]"] s(2,3) obtain s' where
    s': "run_steps handle s [Executed 2 10 100] = Some
       (fst (run_spec ems_spec (snd (run_spec ems_spec Map.empty ?evs)) [Executed 2 10 100]), s')"
    by force
  have g: "getOrderState s 2 = Some REJECTED"
    using ems_queries(1) [OF s(2), of 2] s(3) by (simp add: ems_spec_def fresh_order_def)
  have "handle s (Executed 2 10 100) =
      Some ((False, [log_msg WARN ''EMS: Fill received on dead order %lu'' [ArgU 2]]), s')"
    using s' by (auto simp: ems_spec_def fresh_order_def dead_def bind_eq_Some_conv)
  with g ems_dead_stays_dead [OF s0 _ s(1) s' g] show ?thesis by auto
qed

text \<open>
  C17. Fills are accounted exactly: for an order that was sent once, accepted, and then received the
  given fills, interleaved with any events for other orders, as long as the fills add up to less
  than 2^32 the executed quantity is their sum, and the order is filled exactly when the sum
  reaches the original quantity and partially filled before.
\<close>

theorem ems_fill_accounting:
  assumes "new_ems mmap_ok mo = Inr s0" "mo \<noteq> 0" "run_steps handle s0 evs = Some (rs, s)"
    and "filter (\<lambda>ev. event_id ev = oid) evs = [Sent oid p q, Accepted oid] @ map (\<lambda>(f, fp). Executed oid f fp) fills"
    and "fills \<noteq> []" "sum_list (map (\<lambda>(f, fp). unat f) fills) < 2 ^ 32"
  shows "\<exists>i. getOrder s oid = Some (Some i) \<and>
    unat (em_executed_quantity (em_value (ems_map s ! i))) = sum_list (map (\<lambda>(f, fp). unat f) fills) \<and>
    em_original_quantity (em_value (ems_map s ! i)) = q \<and>
    getOrderState s oid =
      Some (if unat q \<le> sum_list (map (\<lambda>(f, fp). unat f) fills) then FILLED else PARTIALLY_FILLED)"
proof -
  let ?b = "snd (run_spec ems_spec Map.empty evs)" and ?sum = "sum_list (map fst fills)"
  have b: "ems_rel s ?b" using run_returns [OF new_ems_rel(1) [OF assms(1,2)] assms(3)] by simp
  have nat: "unat ?sum = sum_list (map (\<lambda>(f, fp). unat f) fills)"
  proof -
    have "map (\<lambda>(f, fp). unat f) fills = map unat (map fst fills)" by auto
    with assms(6) show ?thesis using sum_list_unat [of "map fst fills"] by metis
  qed
  let ?r = "(fresh_order oid p q)\<lparr>em_state := NEW\<rparr>"
  have "?b oid = order_events (fill_events oid fills) (Some ?r)"
    unfolding run_spec_at assms(4) by (simp add: fill_events_def fresh_order_def)
  also have "\<dots> = Some (?r\<lparr>em_executed_quantity := ?sum,
      em_state := (if q \<le> ?sum then FILLED else PARTIALLY_FILLED)\<rparr>)"
    using fills_run [of ?r oid fills] assms(5) by (simp add: dead_def fresh_order_def Let_def)
  finally have r: "?b oid = Some (?r\<lparr>em_executed_quantity := ?sum,
      em_state := (if q \<le> ?sum then FILLED else PARTIALLY_FILLED)\<rparr>)" .
  obtain i where i: "getOrder s oid = Some (Some i)" "Some (em_value (ems_map s ! i)) = ?b oid"
    using ems_queries(2) [OF b, of oid] r by auto
  with r ems_queries(1) [OF b, of oid] nat show ?thesis
    by (auto simp: fresh_order_def word_le_nat_alt)
qed

theorem ems_fill_accounting_witness:
  "\<exists>s0 rs s i. new_ems (\<lambda>_. True) 10 = Inr s0 \<and>
     run_steps handle s0 [Sent 1 50 100, Sent 2 50 9, Accepted 1, Executed 1 40 50, Canceled 2, Executed 1 59 50] = Some (rs, s) \<and>
     getOrder s 1 = Some (Some i) \<and> unat (em_executed_quantity (em_value (ems_map s ! i))) = 99 \<and>
     getOrderState s 1 = Some PARTIALLY_FILLED"
proof -
  let ?evs = "[Sent 1 50 100, Sent 2 50 9, Accepted 1, Executed 1 40 50, Canceled 2, Executed 1 59 50]"
  obtain s0 where s0: "new_ems (\<lambda>_. True) 10 = Inr s0" by (auto simp: new_ems_def)
  from ems.run_sim [of s0 Map.empty ?evs] new_ems_rel [OF s0] obtain s rs
    where s: "run_steps handle s0 ?evs = Some (rs, s)" by force
  have "filter (\<lambda>ev. event_id ev = 1) ?evs = [Sent 1 50 100, Accepted 1] @
      map (\<lambda>(f, fp). Executed 1 f fp) [(40, 50), (59, 50)]" by simp
  from ems_fill_accounting [OF s0 _ s this] s0 s show ?thesis by auto
qed

text \<open>
  A filled order is not final: a further fill is accepted, and when the 32-bit executed
  quantity wraps around below the original quantity the order goes back to partially filled.
\<close>

lemma ems_filled_reopens:
  assumes "new_ems mmap_ok mo = Inr s0" "mo \<noteq> 0" "q \<noteq> 0"
  shows "\<exists>rs s rs' s'. run_steps handle s0 [Sent oid p q, Accepted oid, Executed oid q p] = Some (rs, s) \<and>
    getOrderState s oid = Some FILLED \<and>
    run_steps handle s [Executed oid (- q) p] = Some (rs', s') \<and> list_all fst rs' \<and>
    getOrderState s' oid = Some PARTIALLY_FILLED"
proof -
  let ?evs = "[Sent oid p q, Accepted oid, Executed oid q p]"
  let ?b = "snd (run_spec ems_spec Map.empty ?evs)"
  note n = new_ems_rel [OF assms(1,2)]
  have "0 < unat mo" using assms(2) by (simp add: unat_gt_0)
  with ems.run_sim [of s0 Map.empty ?evs] n obtain s rs
    where s: "run_steps handle s0 ?evs = Some (rs, s)" "ems_rel s ?b" "0 < ems_left s" by force
  have b: "?b oid = Some ((fresh_order oid p q)\<lparr>em_executed_quantity := q, em_state := FILLED\<rparr>)"
    by (simp add: ems_spec_def fresh_order_def filled_def dead_def Let_def)
  have g: "getOrderState s oid = Some FILLED" using ems_queries(1) [OF s(2), of oid] b by simp
  from ems.run_sim [of s ?b "[Executed oid (- q) p]"] s(2,3) obtain s' where
    s': "run_steps handle s [Executed oid (- q) p] =
      Some (fst (run_spec ems_spec ?b [Executed oid (- q) p]), s')"
      "ems_rel s' (snd (run_spec ems_spec ?b [Executed oid (- q) p]))" by force
  have "0 < q" using assms(3) by (simp add: word_neq_0_conv)
  then have "snd (run_spec ems_spec ?b [Executed oid (- q) p]) oid =
      Some ((fresh_order oid p q)\<lparr>em_executed_quantity := 0, em_state := PARTIALLY_FILLED\<rparr>)"
    unfolding run_spec_at [of ?b] b
    by (simp add: fresh_order_def filled_def dead_def Let_def)
  moreover have "list_all fst (fst (run_spec ems_spec ?b [Executed oid (- q) p]))"
    using b by (simp add: ems_spec_def dead_def Let_def)
  ultimately show ?thesis
    using s(1) g s' ems_queries(1) [OF s'(2), of oid] by auto
qed

end
