(* ===== verification/Double_Arith.thy ===== *)
theory Double_Arith
  imports Complex_Main HFT_Prelude
begin

text \<open>
  The double precision arithmetic the program uses: division and multiplication rounded to the
  nearest of the numbers with 53 significant bits (ties to even), with gradual underflow below
  2^-1022 and overflow to an infinity. Finite doubles are rational numbers; the two zeros are one
  value, since no operation of the program divides by a negative zero or looks at its sign. The
  lemmas bound the error of an operation by one part in 2^53.
\<close>

section \<open>Rounding a quotient of integers\<close>

text \<open>
  The number of binary places with which the quotient \<open>a / b\<close> has a 53-bit integer part, for a
  quotient below 2^52, and the number of bits above the 53rd for a larger one.
\<close>

function norm_shift :: "nat \<Rightarrow> nat \<Rightarrow> nat \<Rightarrow> nat" where
  "norm_shift a b s = (if 0 < a \<and> a * 2 ^ s < 2 ^ 52 * b then norm_shift a b (s + 1) else s)"
  by pat_completeness auto
termination
proof (relation "measure (\<lambda>(a, b, s). 2 ^ 52 * b - a * 2 ^ s)", simp, clarsimp)
  fix a b s :: nat
  assume "0 < a" "a * 2 ^ s < 4503599627370496 * b"
  moreover have "a * 2 ^ s < a * (2 * 2 ^ s)" using \<open>0 < a\<close> by simp
  ultimately show "4503599627370496 * b - a * (2 * 2 ^ s) < 4503599627370496 * b - a * 2 ^ s"
    by (intro diff_less_mono2)
qed

declare norm_shift.simps [simp del]

function excess_bits :: "nat \<Rightarrow> nat \<Rightarrow> nat \<Rightarrow> nat" where
  "excess_bits a b k = (if 0 < b \<and> 2 ^ 53 * (b * 2 ^ k) \<le> a then excess_bits a b (k + 1) else k)"
  by pat_completeness auto
termination
  by (relation "measure (\<lambda>(a, b, k). Suc a - 2 ^ 53 * (b * 2 ^ k))") (auto intro!: diff_less_mono2)


declare excess_bits.simps [simp del]

definition round_half_even :: "nat \<Rightarrow> nat \<Rightarrow> nat" where
  "round_half_even n d = (let q = n div d; r = n mod d in
     if 2 * r > d \<or> 2 * r = d \<and> odd q then q + 1 else q)"

text \<open>The smallest positive double is 2^-1074.\<close>

definition min_places :: nat where
  "min_places = 1074"

text \<open>The number with 53 significant bits nearest to \<open>a / b\<close>.\<close>

definition double_div :: "nat \<Rightarrow> nat \<Rightarrow> rat" where
  "double_div a b =
    (if a = 0 then 0
     else if a < 2 ^ 52 * b then
       let s = min (norm_shift a b 0) min_places in of_nat (round_half_even (a * 2 ^ s) b) / 2 ^ s
     else let k = excess_bits a b 0 in of_nat (round_half_even a (b * 2 ^ k)) * 2 ^ k)"

section \<open>Doubles\<close>

text \<open>\<open>Infinity True\<close> is the negative infinity.\<close>

datatype double = Num rat | Infinity bool | NaN

definition round_double :: "rat \<Rightarrow> double" where
  "round_double x = (let (n, d) = quotient_of x; r = double_div (nat \<bar>n\<bar>) (nat d) in
     if 2 ^ 1024 \<le> r then Infinity (n < 0) else Num (if n < 0 then - r else r))"

definition double_of_int :: "int \<Rightarrow> double" where
  "double_of_int i = round_double (of_int i)"

fun dbl_div :: "double \<Rightarrow> double \<Rightarrow> double" where
  "dbl_div (Num x) (Num y) =
     (if y = 0 then (if x = 0 then NaN else Infinity (x < 0)) else round_double (x / y))"
| "dbl_div (Num x) (Infinity s) = Num 0"
| "dbl_div (Infinity s) (Num y) = Infinity (s \<noteq> (y < 0))"
| "dbl_div x y = NaN"

fun dbl_mul :: "double \<Rightarrow> double \<Rightarrow> double" where
  "dbl_mul (Num x) (Num y) = round_double (x * y)"
| "dbl_mul (Num x) (Infinity s) = (if x = 0 then NaN else Infinity (s \<noteq> (x < 0)))"
| "dbl_mul (Infinity s) (Num y) = (if y = 0 then NaN else Infinity (s \<noteq> (y < 0)))"
| "dbl_mul (Infinity s) (Infinity t) = Infinity (s \<noteq> t)"
| "dbl_mul x y = NaN"

section \<open>The shifts\<close>

lemma norm_shift_normalises:
  assumes "0 < a" "a * 2 ^ s < 2 ^ 52 * b"
  shows "2 ^ 52 * b \<le> a * 2 ^ norm_shift a b s \<and> a * 2 ^ norm_shift a b s < 2 ^ 53 * b"
  using assms
proof (induction a b s rule: norm_shift.induct)
  case (1 a b s)
  have eq: "norm_shift a b s = norm_shift a b (s + 1)" using 1(2,3) by (subst norm_shift.simps) simp
  show ?case
  proof (cases "a * 2 ^ (s + 1) < 2 ^ 52 * b")
    case True
    with 1 show ?thesis unfolding eq by simp
  next
    case False
    then have "norm_shift a b (s + 1) = s + 1" by (subst norm_shift.simps) simp
    with False 1(3) show ?thesis unfolding eq by simp
  qed
qed

lemma norm_shift_unique:
  assumes "0 < a" "a * 2 ^ s < 2 ^ 52 * b" "2 ^ 52 * b \<le> a * 2 ^ k" "a * 2 ^ k < 2 ^ 53 * b"
  shows "norm_shift a b s = k"
proof -
  let ?n = "norm_shift a b s"
  from norm_shift_normalises [OF assms(1,2)]
  have n: "2 ^ 52 * b \<le> a * 2 ^ ?n" "a * 2 ^ ?n < 2 ^ 53 * b" by auto
  have less: "False" if "i < j" "2 ^ 52 * b \<le> a * 2 ^ i" "a * 2 ^ j < 2 ^ 53 * b" for i j :: nat
  proof -
    have "(2 :: nat) * 2 ^ i \<le> 2 ^ j" using that(1) by (metis Suc_leI one_le_numeral power_Suc power_increasing)
    then have "a * (2 * 2 ^ i) \<le> a * 2 ^ j" by (rule mult_le_mono2)
    with that(2,3) show False by simp
  qed
  show ?thesis using less [of ?n k] less [of k ?n] n assms(3,4) by (cases ?n k rule: linorder_cases) auto
qed

lemma norm_shift_le:
  assumes "2 ^ 52 * b \<le> a * 2 ^ k" "s \<le> k"
  shows "norm_shift a b s \<le> k"
  using assms
proof (induction a b s rule: norm_shift.induct)
  case (1 a b s)
  show ?case
  proof (cases "0 < a \<and> a * 2 ^ s < 2 ^ 52 * b")
    case True
    then have "s \<noteq> k" using 1(2) by auto
    with 1 True show ?thesis by (subst norm_shift.simps) simp
  next
    case False
    then have "norm_shift a b s = s" by (subst norm_shift.simps) auto
    with 1(3) show ?thesis by simp
  qed
qed

lemma excess_bits_normalises:
  assumes "0 < b" "2 ^ 52 * (b * 2 ^ k) \<le> a"
  shows "2 ^ 52 * (b * 2 ^ excess_bits a b k) \<le> a"
  using assms
proof (induction a b k rule: excess_bits.induct)
  case (1 a b k)
  show ?case
  proof (cases "2 ^ 53 * (b * 2 ^ k) \<le> a")
    case True
    then have "2 ^ 52 * (b * 2 ^ (k + 1)) \<le> a" by simp
    with 1 True show ?thesis by (subst excess_bits.simps) simp
  next
    case False
    then have "excess_bits a b k = k" by (subst excess_bits.simps) simp
    with 1(3) show ?thesis by simp
  qed
qed

section \<open>The error of a rounded operation\<close>

lemma round_half_even_error:
  assumes "0 < d"
  shows "2 * \<bar>int (round_half_even n d) * int d - int n\<bar> \<le> int d"
proof -
  let ?q = "n div d" and ?r = "n mod d"
  have n: "int n = int ?q * int d + int ?r"
    by (metis div_mult_mod_eq of_nat_add of_nat_mult)
  have r: "?r < d" using assms by simp
  show ?thesis
  proof (cases "2 * ?r > d \<or> 2 * ?r = d \<and> odd ?q")
    case True
    then have eq: "int (round_half_even n d) * int d - int n = int d - int ?r"
      by (simp add: round_half_even_def Let_def n algebra_simps)
    have "int d \<le> 2 * int ?r" "int ?r < int d" using True r by linarith+
    moreover have "2 * \<bar>y - x\<bar> \<le> y" if "y \<le> 2 * x" "x < y" for x y :: int using that by (simp add: abs_if)
    ultimately show ?thesis unfolding eq by blast
  next
    case False
    then have eq: "int (round_half_even n d) * int d - int n = - int ?r"
      by (auto simp: round_half_even_def Let_def n)
    have "2 * int ?r \<le> int d" using False by linarith
    moreover have "2 * \<bar>- x\<bar> \<le> y" if "2 * x \<le> y" "0 \<le> x" for x y :: int using that by (simp add: abs_if)
    ultimately show ?thesis unfolding eq by (metis of_nat_0_le_iff)
  qed
qed

text \<open>\<open>rounds_to x r\<close>: the relative error of \<open>r\<close> as a value for \<open>x\<close> is at most one part in 2^53.\<close>

definition rounds_to :: "rat \<Rightarrow> rat \<Rightarrow> bool" where
  "rounds_to x r \<longleftrightarrow> \<bar>r - x\<bar> \<le> x / 2 ^ 53"

lemma rounds_to_bounds:
  "rounds_to x r \<Longrightarrow> (1 - 1 / 2 ^ 53) * x \<le> r" "rounds_to x r \<Longrightarrow> r \<le> (1 + 1 / 2 ^ 53) * x"
  unfolding rounds_to_def abs_le_iff by (simp_all add: left_diff_distrib distrib_right)

lemma rounds_to_pos: "rounds_to x r \<Longrightarrow> 0 < x \<Longrightarrow> 0 < r"
  using rounds_to_bounds(1) [of x r] by simp

lemma rounds_to_scale: "rounds_to x r \<Longrightarrow> 0 \<le> c \<Longrightarrow> rounds_to (c * x) (c * r)"
  unfolding rounds_to_def by (simp add: right_diff_distrib [symmetric] abs_mult mult_left_mono flip: times_divide_eq_right)

lemma round_half_even_rounds:
  assumes "0 < d" "2 ^ 52 * d \<le> n"
  shows "rounds_to (of_nat n / of_nat d) (of_nat (round_half_even n d))"
proof -
  let ?m = "round_half_even n d"
  have d: "(0 :: rat) < of_nat d" using assms(1) by simp
  have "of_int (2 * \<bar>int ?m * int d - int n\<bar>) \<le> (of_int (int d) :: rat)"
    using round_half_even_error [OF assms(1)] by (rule of_int_le_iff [THEN iffD2])
  then have e: "2 * \<bar>rat_of_nat ?m * of_nat d - of_nat n\<bar> \<le> of_nat d" by simp
  have "rat_of_nat (2 ^ 52 * d) \<le> of_nat n" using assms(2) by (simp only: of_nat_le_iff)
  then have "2 ^ 52 * rat_of_nat d \<le> of_nat n" by (simp only: of_nat_mult of_nat_power of_nat_numeral)
  with e have le: "\<bar>rat_of_nat ?m * of_nat d - of_nat n\<bar> \<le> of_nat n / 2 ^ 53" by simp
  have "rat_of_nat ?m - of_nat n / of_nat d = (of_nat ?m * of_nat d - of_nat n) / of_nat d"
    using d by (simp add: field_simps)
  then have "\<bar>rat_of_nat ?m - of_nat n / of_nat d\<bar> = \<bar>of_nat ?m * of_nat d - of_nat n\<bar> / of_nat d"
    using d by simp
  also have "\<dots> \<le> (of_nat n / 2 ^ 53) / of_nat d" using le d by (intro divide_right_mono) auto
  finally show ?thesis by (simp add: rounds_to_def)
qed

text \<open>
  The rounded quotient differs from the exact one by at most one part in 2^53, unless the quotient
  is below 2^-1022.
\<close>

lemma double_div_rounds:
  assumes "0 < b" "2 ^ 52 * b \<le> a * 2 ^ min_places"
  shows "rounds_to (of_nat a / of_nat b) (double_div a b)"
proof (cases "a < 2 ^ 52 * b")
  case True
  have a: "0 < a" using assms by (cases a) auto
  let ?s = "norm_shift a b 0"
  have "?s \<le> min_places" by (rule norm_shift_le [OF assms(2)]) simp
  then have d: "double_div a b = of_nat (round_half_even (a * 2 ^ ?s) b) / 2 ^ ?s"
    using True a by (simp add: double_div_def min_absorb1 Let_def)
  have "2 ^ 52 * b \<le> a * 2 ^ ?s" using norm_shift_normalises [of a 0 b] True a by simp
  from rounds_to_scale [OF round_half_even_rounds [OF assms(1) this], of "1 / 2 ^ ?s"]
  show ?thesis unfolding d by simp
next
  case False
  have a: "0 < a" using assms by (cases a) auto
  let ?k = "excess_bits a b 0"
  have d: "double_div a b = of_nat (round_half_even a (b * 2 ^ ?k)) * 2 ^ ?k"
    using False a by (simp add: double_div_def Let_def)
  have "2 ^ 52 * (b * 2 ^ ?k) \<le> a" using False assms(1) by (intro excess_bits_normalises) simp_all
  from rounds_to_scale [OF round_half_even_rounds [OF _ this], of "2 ^ ?k"] assms(1)
  show ?thesis unfolding d by (simp add: mult.commute)
qed

lemma double_div_0 [simp]: "double_div 0 b = 0"
  by (simp add: double_div_def)

lemma double_div_error:
  assumes "0 < b" "b < 2 ^ 64"
  shows "rounds_to (of_nat a / of_nat b) (double_div a b)"
proof (cases "a = 0")
  case False
  have "(2 ^ 52 * 2 ^ 64 :: nat) \<le> 2 ^ min_places"
    unfolding power_add [symmetric] by (rule power_increasing) (simp_all add: min_places_def)
  moreover have "2 ^ 52 * b \<le> 2 ^ 52 * (2 ^ 64 :: nat)" using assms(2) by (intro mult_le_mono2) simp
  moreover have "1 * 2 ^ min_places \<le> a * 2 ^ min_places" using False by (intro mult_le_mono1) simp
  ultimately have "2 ^ 52 * b \<le> a * 2 ^ min_places" unfolding mult_1 by (meson order_trans)
  with assms(1) show ?thesis by (rule double_div_rounds)
qed (simp add: rounds_to_def)

section \<open>Rounding in the normal range\<close>

text \<open>A non-negative number between 2^-200 and 2^1000 is rounded to a finite double.\<close>

definition normal_range :: "rat \<Rightarrow> bool" where
  "normal_range x \<longleftrightarrow> 1 / 2 ^ 200 \<le> x \<and> x < 2 ^ 1000"

lemma round_double_0 [simp]: "round_double 0 = Num 0"
  by (simp add: round_double_def)

lemma round_double_rounds:
  assumes "normal_range x"
  obtains r where "round_double x = Num r" "rounds_to x r" "0 < r"
proof -
  obtain n d where q: "quotient_of x = (n, d)" by fastforce
  have x: "x = of_int n / of_int d" "0 < d" using quotient_of_div [OF q] quotient_of_denom_pos [OF q] by simp_all
  have pos: "0 < x" using assms by (auto simp: normal_range_def intro: less_le_trans [of _ "1 / 2 ^ 200"])
  then have n: "0 < n" using x by (simp add: zero_less_divide_iff)
  have r: "rat_of_nat (nat n) = of_int n" "rat_of_nat (nat d) = of_int d" using n x(2) by simp_all
  have "rat_of_int d \<le> of_int n * 2 ^ 200" using assms x by (simp add: normal_range_def field_simps)
  then have "rat_of_int d \<le> of_int (n * 2 ^ 200)" by simp
  then have "d \<le> n * 2 ^ 200" by (simp only: of_int_le_iff)
  then have "nat d \<le> nat n * 2 ^ 200" using n by (simp add: nat_le_iff)
  then have "2 ^ 52 * nat d \<le> nat n * (2 ^ 52 * 2 ^ 200)" by simp
  moreover have "nat n * (2 ^ 52 * 2 ^ 200) \<le> nat n * 2 ^ min_places"
    unfolding power_add [symmetric] by (intro mult_le_mono2 power_increasing) (simp_all add: min_places_def)
  ultimately have "2 ^ 52 * nat d \<le> nat n * 2 ^ min_places" by (rule order_trans)
  from double_div_rounds [OF _ this] x have rt: "rounds_to x (double_div (nat n) (nat d))" by (simp add: r)
  have "double_div (nat n) (nat d) \<le> 2 * x" using rounds_to_bounds(2) [OF rt] pos by simp
  also have "\<dots> < 2 * 2 ^ 1000" using assms by (intro mult_strict_left_mono) (simp_all only: normal_range_def)
  also have "(2 :: rat) * 2 ^ 1000 = 2 ^ 1001" by simp
  also have "\<dots> \<le> 2 ^ 1024" by (rule power_increasing) simp_all
  finally have "\<not> 2 ^ 1024 \<le> double_div (nat n) (nat d)" by (simp only: not_le)
  then have "round_double x = Num (double_div (nat n) (nat d))"
    unfolding round_double_def q Let_def prod.case using n by (simp only: abs_of_pos if_False not_less_iff_gr_or_eq) simp
  with rt that rounds_to_pos [OF rt pos] show thesis by blast
qed

end
