(* ===== verification/Pre_Trade_Risk.thy ===== *)
theory Pre_Trade_Risk
  imports Double_Arith
begin

text \<open>
  The pre-trade risk engine of \<open>include/PreTradeRisk.hpp\<close> and \<open>src/PreTradeRisk.cpp\<close>. The position
  is an \<open>int64_t\<close>: arithmetic that overflows has no defined result in \<open>check_order\<close>, while the
  atomic addition wraps around. The price deviation is computed in double precision: the operands
  are 32-bit integers and their difference is exact, so the only rounding is the one of the
  division (\<open>double_div\<close>). The theorems compare it with exact arithmetic.
\<close>

section \<open>The risk engine\<close>

datatype RiskCheckStatus = APPROVED | REJECTED_FAT_FINGER | REJECTED_MAX_ORDER_SIZE | REJECTED_MAX_POSITION

text \<open>The configured percentage is a finite double, a rational number.\<close>

record RiskConfig =
  max_order_size :: u32
  max_position :: int
  max_price_deviation_pct :: rat

record PreTradeRiskEngine =
  config :: RiskConfig
  current_position :: int

definition new_risk_engine :: "RiskConfig \<Rightarrow> PreTradeRiskEngine" where
  "new_risk_engine c = \<lparr>config = c, current_position = 0\<rparr>"

text \<open>The result of a signed 64-bit operation: no defined result on overflow.\<close>

definition i64 :: "int \<Rightarrow> int option" where
  "i64 x = (if - (2 ^ 63) \<le> x \<and> x < 2 ^ 63 then Some x else None)"

definition abs_i64 :: "int \<Rightarrow> int option" where
  "abs_i64 x = i64 \<bar>x\<bar>"

definition check_order :: "PreTradeRiskEngine \<Rightarrow> u8 \<Rightarrow> u32 \<Rightarrow> u32 \<Rightarrow> u32 \<Rightarrow> RiskCheckStatus option" where
  "check_order e side shares price reference_price =
    (if max_order_size (config e) < shares then Some REJECTED_MAX_ORDER_SIZE
     else if 0 < reference_price \<and> max_price_deviation_pct (config e) <
         double_div (nat \<bar>int (unat price) - int (unat reference_price)\<bar>) (unat reference_price)
     then Some REJECTED_FAT_FINGER
     else do {
       let current_pos = current_position e;
       new_pos \<leftarrow> (if side = of_char (CHR ''B'') then i64 (current_pos + int (unat shares))
                   else i64 (current_pos - int (unat shares)));
       a \<leftarrow> abs_i64 new_pos;
       if max_position (config e) < a then Some REJECTED_MAX_POSITION else Some APPROVED })"

text \<open>\<open>fetch_add\<close> on \<open>std::atomic<int64_t>\<close> wraps around in two's complement.\<close>

definition wrap64 :: "int \<Rightarrow> int" where
  "wrap64 x = (x + 2 ^ 63) mod 2 ^ 64 - 2 ^ 63"

definition update_position :: "PreTradeRiskEngine \<Rightarrow> int \<Rightarrow> PreTradeRiskEngine" where
  "update_position e executed_qty = e\<lparr>current_position := wrap64 (current_position e + executed_qty)\<rparr>"

definition get_current_position :: "PreTradeRiskEngine \<Rightarrow> int" where
  "get_current_position e = current_position e"

definition reset_position :: "PreTradeRiskEngine \<Rightarrow> PreTradeRiskEngine" where
  "reset_position e = e\<lparr>current_position := 0\<rparr>"

section \<open>The limit of five percent\<close>

text \<open>The double nearest to 0.05, the configured limit of the program.\<close>

definition pct_5 :: rat where
  "pct_5 = 7205759403792794 / 2 ^ 57"

lemma double_div_twentieth:
  assumes "0 < d"
  shows "double_div d (20 * d) = pct_5"
proof -
  have "norm_shift d (20 * d) 0 = 57" by (rule norm_shift_unique) (use assms in auto)
  moreover have "round_half_even (d * 2 ^ 57) (20 * d) = 7205759403792794"
  proof -
    have "d * 2 ^ 57 = 7205759403792793 * (20 * d) + 12 * d" by simp
    moreover have "12 * d < 20 * d" using assms by simp
    ultimately have "(d * 2 ^ 57) div (20 * d) = 7205759403792793" "(d * 2 ^ 57) mod (20 * d) = 12 * d"
      using assms by simp_all
    then show ?thesis using assms by (simp add: round_half_even_def)
  qed
  ultimately show ?thesis using assms by (simp add: double_div_def pct_5_def min_places_def)
qed

text \<open>
  With that limit the test on doubles is the exact one: no order within five percent is refused
  and none outside is admitted.
\<close>

lemma double_div_pct_5:
  assumes "0 < b" "b < 2 ^ 32" "a < 2 ^ 32"
  shows "pct_5 < double_div a b \<longleftrightarrow> b < 20 * a"
proof -
  let ?x = "of_nat a / of_nat b :: rat"
  have "rounds_to ?x (double_div a b)" using assms(1,2) by (intro double_div_error) simp_all
  then have err: "\<bar>double_div a b - ?x\<bar> \<le> ?x / 2 ^ 53" by (simp only: rounds_to_def)
  have bpos: "(0 :: rat) < of_nat b" using assms(1) by simp
  have b32: "(of_nat b :: rat) \<le> 2 ^ 32" using assms(2) by (metis less_imp_le of_nat_le_iff of_nat_numeral of_nat_power)
  show ?thesis
  proof (cases "20 * a" b rule: linorder_cases)
    case equal
    then have "0 < a" using assms(1) by (cases a) auto
    from double_div_twentieth [OF this] equal show ?thesis by simp
  next
    case less
    then have "20 * rat_of_nat a + 1 \<le> of_nat b"
      by (metis Suc_eq_plus1 Suc_leI of_nat_1 of_nat_add of_nat_le_iff of_nat_mult of_nat_numeral)
    then have x: "20 * ?x + 1 / of_nat b \<le> 1" using bpos by (simp add: field_simps)
    have "1 / 2 ^ 32 \<le> 1 / rat_of_nat b" using b32 bpos by (intro divide_left_mono) auto
    with x have "20 * ?x \<le> 1 - 1 / 2 ^ 32" by linarith
    moreover have "double_div a b \<le> ?x + ?x / 2 ^ 53" using err by (simp add: abs_le_iff)
    ultimately have "double_div a b \<le> pct_5" by (simp add: pct_5_def field_simps)
    with less show ?thesis by simp
  next
    case greater
    then have "of_nat b + 1 \<le> 20 * rat_of_nat a"
      by (metis Suc_eq_plus1 Suc_leI of_nat_1 of_nat_add of_nat_le_iff of_nat_mult of_nat_numeral)
    then have "(of_nat b + 1) / of_nat b \<le> 20 * rat_of_nat a / of_nat b"
      by (rule divide_right_mono) simp
    then have x: "1 + 1 / of_nat b \<le> 20 * ?x" using bpos by (simp add: add_divide_distrib)
    have "1 / 2 ^ 32 \<le> 1 / rat_of_nat b" using b32 bpos by (intro divide_left_mono) auto
    with x have "1 + 1 / 2 ^ 32 \<le> 20 * ?x" by linarith
    moreover have "?x - ?x / 2 ^ 53 \<le> double_div a b" using err by (simp add: abs_le_iff)
    ultimately have "pct_5 < double_div a b" by (simp add: pct_5_def field_simps)
    with greater show ?thesis by simp
  qed
qed

section \<open>The position\<close>

definition signed_qty :: "u8 \<Rightarrow> u32 \<Rightarrow> int" where
  "signed_qty side shares = (if side = of_char (CHR ''B'') then int (unat shares) else - int (unat shares))"

lemma unat_u32_less: "int (unat (x :: u32)) < 2 ^ 32"
  using unsigned_less [of x, where ?'a = int] by simp

lemma price_distance: "nat \<bar>int (unat (p :: u32)) - int (unat (r :: u32))\<bar> < 2 ^ 32"
proof -
  have "nat \<bar>x - y\<bar> < 2 ^ 32" if "0 \<le> x" "x < 2 ^ 32" "0 \<le> y" "y < 2 ^ 32" for x y :: int
    using that by (auto simp: nat_less_iff abs_if)
  then show ?thesis using unat_u32_less by (meson of_nat_0_le_iff)
qed

lemma check_order_position:
  assumes "\<bar>current_position e\<bar> \<le> 2 ^ 62"
  shows "check_order e side shares price ref = Some
    (if max_order_size (config e) < shares then REJECTED_MAX_ORDER_SIZE
     else if 0 < ref \<and> max_price_deviation_pct (config e) <
         double_div (nat \<bar>int (unat price) - int (unat ref)\<bar>) (unat ref)
     then REJECTED_FAT_FINGER
     else if max_position (config e) < \<bar>current_position e + signed_qty side shares\<bar>
     then REJECTED_MAX_POSITION else APPROVED)"
proof -
  have r: "\<bar>signed_qty side shares\<bar> < 2 ^ 32" using unat_u32_less [of shares] by (simp add: signed_qty_def)
  then have "\<bar>current_position e + signed_qty side shares\<bar> < 2 ^ 63" using assms by (simp add: abs_if split: if_splits)
  then have i: "i64 (current_position e + signed_qty side shares) = Some (current_position e + signed_qty side shares)"
    "abs_i64 (current_position e + signed_qty side shares) = Some \<bar>current_position e + signed_qty side shares\<bar>"
    by (auto simp: i64_def abs_i64_def)
  have "(if side = of_char (CHR ''B'') then i64 (current_position e + int (unat shares))
      else i64 (current_position e - int (unat shares))) = i64 (current_position e + signed_qty side shares)"
    by (simp add: signed_qty_def)
  then show ?thesis unfolding check_order_def Let_def by (simp only: i bind.bind_lunit split: if_split) simp
qed

lemma approved_position:
  assumes "check_order e side shares price ref = Some APPROVED"
  shows "\<bar>current_position e + signed_qty side shares\<bar> \<le> max_position (config e)"
    and "current_position (update_position e (signed_qty side shares)) = current_position e + signed_qty side shares"
    and "shares \<le> max_order_size (config e)"
proof -
  let ?n = "current_position e + signed_qty side shares"
  from assms have r: "- (2 ^ 63) \<le> ?n" "?n < 2 ^ 63" "\<bar>?n\<bar> \<le> max_position (config e)"
    by (auto simp: check_order_def signed_qty_def abs_i64_def i64_def Let_def split: if_splits)
  then show "\<bar>?n\<bar> \<le> max_position (config e)" by simp
  have "wrap64 ?n = ?n" using r(1,2) by (simp add: wrap64_def)
  then show "current_position (update_position e (signed_qty side shares)) = ?n"
    by (simp add: update_position_def)
  show "shares \<le> max_order_size (config e)" using assms by (auto simp: check_order_def split: if_splits)
qed

section \<open>Properties\<close>

text \<open>
  C21. The decision of \<open>check_order\<close> in exact arithmetic: with the limit of five percent and a
  position within 2^62, the check returns, and it refuses, in this order, an order larger than the
  maximal order size, a price that is more than five percent away from a non-zero reference price
  (exactly: twenty times the distance exceeds the reference, in spite of the double arithmetic of
  the code), and a position that would exceed the maximal position in absolute value.
\<close>

theorem risk_check_decides:
  assumes "\<bar>current_position e\<bar> \<le> 2 ^ 62" "max_price_deviation_pct (config e) = pct_5"
  shows "check_order e side shares price ref = Some
    (if max_order_size (config e) < shares then REJECTED_MAX_ORDER_SIZE
     else if ref \<noteq> 0 \<and> int (unat ref) < 20 * \<bar>int (unat price) - int (unat ref)\<bar>
     then REJECTED_FAT_FINGER
     else if max_position (config e) < \<bar>current_position e +
         (if side = of_char (CHR ''B'') then int (unat shares) else - int (unat shares))\<bar>
     then REJECTED_MAX_POSITION else APPROVED)"
proof -
  let ?d = "nat \<bar>int (unat price) - int (unat ref)\<bar>"
  have d: "?d < 2 ^ 32" by (rule price_distance)
  have r: "unat ref < 2 ^ 32" using unsigned_less [of ref, where ?'a = nat] by simp
  have "0 < ref \<and> pct_5 < double_div ?d (unat ref) \<longleftrightarrow>
      ref \<noteq> 0 \<and> int (unat ref) < 20 * \<bar>int (unat price) - int (unat ref)\<bar>"
  proof (cases "ref = 0")
    case False
    then have "0 < unat ref" by (simp add: unat_gt_0)
    from double_div_pct_5 [OF this r d] have "pct_5 < double_div ?d (unat ref) \<longleftrightarrow> unat ref < 20 * ?d" .
    also have "\<dots> \<longleftrightarrow> int (unat ref) < int (20 * ?d)" by (simp only: of_nat_less_iff)
    also have "int (20 * ?d) = 20 * \<bar>int (unat price) - int (unat ref)\<bar>" by simp
    finally show ?thesis using False by (simp add: word_neq_0_conv)
  qed simp
  with check_order_position [OF assms(1)] assms(2) show ?thesis by (simp add: signed_qty_def)
qed

theorem risk_check_decides_witness:
  "check_order (new_risk_engine \<lparr>max_order_size = 500, max_position = 10000, max_price_deviation_pct = pct_5\<rparr>)
     66 100 10500 10000 = Some APPROVED \<and>
   check_order (new_risk_engine \<lparr>max_order_size = 500, max_position = 10000, max_price_deviation_pct = pct_5\<rparr>)
     66 100 10501 10000 = Some REJECTED_FAT_FINGER"
  using risk_check_decides [of "new_risk_engine \<lparr>max_order_size = 500, max_position = 10000,
     max_price_deviation_pct = pct_5\<rparr>"]
  by (simp add: new_risk_engine_def)

text \<open>
  For an arbitrary percentage the rounding of the division matters only within one part in 2^53 of
  the limit.
\<close>

lemma risk_deviation_accuracy:
  assumes "ref \<noteq> 0" "\<bar>current_position e\<bar> \<le> 2 ^ 62" "shares \<le> max_order_size (config e)"
    and "x = of_int \<bar>int (unat price) - int (unat ref)\<bar> / of_nat (unat ref)"
  shows "(max_price_deviation_pct (config e) < x - x / 2 ^ 53 \<longrightarrow>
           check_order e side shares price ref = Some REJECTED_FAT_FINGER) \<and>
         (x + x / 2 ^ 53 \<le> max_price_deviation_pct (config e) \<longrightarrow>
           check_order e side shares price ref \<noteq> Some REJECTED_FAT_FINGER)"
proof -
  let ?d = "nat \<bar>int (unat price) - int (unat ref)\<bar>"
  have "0 < unat ref" "unat ref < 2 ^ 64" using assms(1) unsigned_less [of ref, where ?'a = nat] by (simp_all add: unat_gt_0)
  from double_div_error [OF this, of ?d] have err: "\<bar>double_div ?d (unat ref) - x\<bar> \<le> x / 2 ^ 53"
    using assms(4) by (simp add: rounds_to_def)
  have lo: "x - x / 2 ^ 53 \<le> double_div ?d (unat ref)" and hi: "double_div ?d (unat ref) \<le> x + x / 2 ^ 53"
    using err unfolding abs_le_iff by linarith+
  have r: "0 < ref" "\<not> max_order_size (config e) < shares" using assms(1,3) by (simp_all add: word_neq_0_conv not_less)
  show ?thesis
    unfolding check_order_position [OF assms(2)]
  proof (intro conjI impI)
    assume "max_price_deviation_pct (config e) < x - x / 2 ^ 53"
    with lo have "max_price_deviation_pct (config e) < double_div ?d (unat ref)" by (rule less_le_trans [rotated])
    with r show "Some (if max_order_size (config e) < shares then REJECTED_MAX_ORDER_SIZE
      else if 0 < ref \<and> max_price_deviation_pct (config e) < double_div ?d (unat ref) then REJECTED_FAT_FINGER
      else if max_position (config e) < \<bar>current_position e + signed_qty side shares\<bar>
      then REJECTED_MAX_POSITION else APPROVED) = Some REJECTED_FAT_FINGER" by simp
  next
    assume "x + x / 2 ^ 53 \<le> max_price_deviation_pct (config e)"
    with hi have "\<not> max_price_deviation_pct (config e) < double_div ?d (unat ref)" by (meson not_le order_trans)
    then show "Some (if max_order_size (config e) < shares then REJECTED_MAX_ORDER_SIZE
      else if 0 < ref \<and> max_price_deviation_pct (config e) < double_div ?d (unat ref) then REJECTED_FAT_FINGER
      else if max_position (config e) < \<bar>current_position e + signed_qty side shares\<bar>
      then REJECTED_MAX_POSITION else APPROVED) \<noteq> Some REJECTED_FAT_FINGER" by simp
  qed
qed

end
