(* ===== verification/TCP_Egress.thy ===== *)
theory TCP_Egress
  imports HFT_Prelude
begin

text \<open>
  The outbound gateway of \<open>include/TCPEgress.hpp\<close> and \<open>src/TCPEgress.cpp\<close>. The system call
  \<open>::send\<close> is a parameter: a function from the state of the outside world, the descriptor and the
  bytes offered to the new state, the return value and \<open>errno\<close>. \<open>posix_stream\<close> states what the code
  relies on: a call with bytes to send fails and takes none of them, or takes a non-empty prefix.
\<close>

type_synonym 'w sys_send = "'w \<Rightarrow> int \<Rightarrow> u8 list \<Rightarrow> 'w \<times> int \<times> int"

record TCPEgressGateway =
  fd :: int

definition new_gateway :: TCPEgressGateway where
  "new_gateway = \<lparr>fd = -1\<rparr>"

definition new_gateway_fd :: "int \<Rightarrow> TCPEgressGateway" where
  "new_gateway_fd f = \<lparr>fd = f\<rparr>"

definition setSocketFd :: "TCPEgressGateway \<Rightarrow> int \<Rightarrow> TCPEgressGateway" where
  "setSocketFd g f = g\<lparr>fd := f\<rparr>"

text \<open>On Linux \<open>EAGAIN\<close> and \<open>EWOULDBLOCK\<close> are both 11.\<close>

definition EAGAIN :: int where
  "EAGAIN = 11"

partial_function (option) send_loop ::
    "'w sys_send \<Rightarrow> int \<Rightarrow> u8 list \<Rightarrow> nat \<Rightarrow> nat \<Rightarrow> 'w \<Rightarrow> ((bool \<times> log_call list) \<times> 'w) option" where
  "send_loop sys f buffer len total_sent w =
    (if total_sent < len then
       (case sys w f (take (len - total_sent) (drop total_sent buffer)) of (w', bytes_sent, errno) \<Rightarrow>
         if bytes_sent < 0 then
           (if errno = EAGAIN then
              Some ((False, [log_msg WARN ''TCPEgressGateway: TCP socket buffer full (EAGAIN)'' []]), w')
            else
              Some ((False, [log_msg ERROR ''TCPEgressGateway: TCP send failed, errno=%d'' [ArgI errno]]), w'))
         else send_loop sys f buffer len (total_sent + nat bytes_sent) w')
     else Some ((True, []), w))"

definition tcp_send :: "'w sys_send \<Rightarrow> TCPEgressGateway \<Rightarrow> u8 list \<Rightarrow> nat \<Rightarrow> 'w \<Rightarrow>
    ((bool \<times> log_call list) \<times> 'w) option" where
  "tcp_send sys g buffer len w =
    (if fd g < 0 then
       Some ((False, [log_msg ERROR ''TCPEgressGateway: Cannot send, invalid socket FD'' []]), w)
     else send_loop sys (fd g) buffer len 0 w)"

section \<open>What the kernel promises\<close>

text \<open>\<open>out w\<close> is the sequence of bytes that the connection has taken.\<close>

definition posix_stream :: "'w sys_send \<Rightarrow> ('w \<Rightarrow> u8 list) \<Rightarrow> bool" where
  "posix_stream sys out \<longleftrightarrow> (\<forall>w f buf w' n errno. buf \<noteq> [] \<longrightarrow> sys w f buf = (w', n, errno) \<longrightarrow>
     (n < 0 \<and> out w' = out w \<or> 0 < n \<and> nat n \<le> length buf \<and> out w' = out w @ take (nat n) buf))"

lemma send_loop_spec:
  assumes "posix_stream sys out" "len \<le> length buffer" "t \<le> len"
  shows "\<exists>ok logs w' k. send_loop sys f buffer len t w = Some ((ok, logs), w') \<and> t \<le> k \<and> k \<le> len \<and>
     out w' = out w @ take (k - t) (drop t buffer) \<and> (ok \<longleftrightarrow> k = len)"
  using assms(3)
proof (induction "len - t" arbitrary: t w rule: less_induct)
  case less
  show ?case
  proof (cases "t < len")
    case False
    then have "send_loop sys f buffer len t w = Some ((True, []), w)" by (subst send_loop.simps) simp
    with False less.prems show ?thesis by auto
  next
    case True
    let ?buf = "take (len - t) (drop t buffer)"
    obtain w' n e where s: "sys w f ?buf = (w', n, e)" by (metis prod_cases3)
    have ne: "?buf \<noteq> []" and l: "length ?buf = len - t" using True assms(2) by auto
    from assms(1) [unfolded posix_stream_def, rule_format, OF ne s]
    consider "n < 0" "out w' = out w" | "0 < n" "nat n \<le> len - t" "out w' = out w @ take (nat n) ?buf"
      unfolding l by blast
    then show ?thesis
    proof cases
      case 1
      then have "\<exists>logs. send_loop sys f buffer len t w = Some ((False, logs), w')"
        using True s by (subst send_loop.simps) simp
      then obtain logs where "send_loop sys f buffer len t w = Some ((False, logs), w')" ..
      with 1(2) True show ?thesis
        by (intro exI [of _ False] exI [of _ logs] exI [of _ w'] exI [of _ t]) simp
    next
      case 2
      let ?t = "t + nat n"
      have "len - ?t < len - t" "?t \<le> len" using 2 True by auto
      from less.hyps [OF this, of w'] obtain ok logs w2 k where
        k: "send_loop sys f buffer len ?t w' = Some ((ok, logs), w2)" "?t \<le> k" "k \<le> len"
        "out w2 = out w' @ take (k - ?t) (drop ?t buffer)" "ok \<longleftrightarrow> k = len" by auto
      have "take (nat n) ?buf @ take (k - ?t) (drop ?t buffer) = take (k - t) (drop t buffer)"
      proof -
        have "k - t = nat n + (k - ?t)" using k(2) by simp
        then have "take (k - t) (drop t buffer) =
            take (nat n) (drop t buffer) @ take (k - ?t) (drop (nat n) (drop t buffer))"
          by (simp only: take_add)
        then show ?thesis using 2(2) by (simp add: add.commute min_def)
      qed
      then have "out w2 = out w @ take (k - t) (drop t buffer)" using k(4) 2(3) by simp
      moreover have "send_loop sys f buffer len t w = Some ((ok, logs), w2)"
        using True s 2(1) k(1) by (subst send_loop.simps) simp
      ultimately show ?thesis using k by (intro exI [of _ ok] exI [of _ logs] exI [of _ w2] exI [of _ k]) auto
    qed
  qed
qed

lemma tcp_send_prefix_law:
  assumes "posix_stream sys out" "len \<le> length buffer"
  shows "\<exists>ok logs w' k. tcp_send sys g buffer len w = Some ((ok, logs), w') \<and> k \<le> len \<and>
    out w' = out w @ take k buffer \<and> (fd g < 0 \<longrightarrow> \<not> ok \<and> w' = w) \<and> (0 \<le> fd g \<longrightarrow> (ok \<longleftrightarrow> k = len))"
proof (cases "fd g < 0")
  case True
  then show ?thesis by (auto simp: tcp_send_def intro!: exI [of _ 0])
next
  case False
  with send_loop_spec [OF assms, of 0 "fd g" w] show ?thesis by (simp add: tcp_send_def)
qed

section \<open>Properties\<close>

text \<open>
  C23. \<open>send\<close> on a connected socket always returns, and what it has handed to the kernel is a prefix
  of the buffer, continued over partial sends without loss or repetition; it returns true exactly
  when the prefix is the whole message. Without a socket it returns false and sends nothing.
\<close>

theorem tcp_send_prefix:
  assumes "posix_stream sys out" "len \<le> length buffer"
  shows "\<exists>ok logs w' k. tcp_send sys g buffer len w = Some ((ok, logs), w') \<and> k \<le> len \<and>
    out w' = out w @ take k buffer \<and> (fd g < 0 \<longrightarrow> \<not> ok \<and> w' = w) \<and> (0 \<le> fd g \<longrightarrow> (ok \<longleftrightarrow> k = len))"
  using tcp_send_prefix_law [OF assms] .

text \<open>
  A socket for the witnesses: it takes the given numbers of bytes in turn (at least one, at most
  what is offered), and reports a full buffer where the script has none.
\<close>

definition scripted :: "(nat option list \<times> u8 list) sys_send" where
  "scripted w f buf = (case w of
     ([], s) \<Rightarrow> (([], s), - 1, EAGAIN)
   | (None # r, s) \<Rightarrow> ((r, s), - 1, EAGAIN)
   | (Some k # r, s) \<Rightarrow> (let n = max 1 (min k (length buf)) in ((r, s @ take n buf), int n, 0)))"

lemma scripted_posix: "posix_stream scripted snd"
  unfolding posix_stream_def
proof (intro allI impI, goal_cases)
  case (1 w f buf w' n e)
  obtain r s where w: "w = (r, s)" by (cases w)
  have "1 \<le> length buf" using 1(1) by (cases buf) auto
  with 1(2) w show ?case
    by (cases r; cases "hd r") (auto simp: scripted_def Let_def)
qed

theorem tcp_send_prefix_witness:
  "\<exists>ok logs w' k. tcp_send scripted \<lparr>fd = 5\<rparr> [1, 2, 3, 4] 4 ([Some 1, Some 1, None], []) = Some ((ok, logs), w') \<and>
     k \<le> 4 \<and> snd w' = take k [1, 2, 3, 4] \<and> (ok \<longleftrightarrow> k = 4)"
  using tcp_send_prefix [OF scripted_posix, of 4 "[1, 2, 3, 4]" "\<lparr>fd = 5\<rparr>" "([Some 1, Some 1, None], [])"]
  by auto

text \<open>
  A failed send leaves a truncated message in the stream: there is a socket with the promised
  behaviour on which a first message of any length above one is refused with \<open>EAGAIN\<close> after a part
  of it was taken, and the next message is then appended to that part and reported as sent.
\<close>

lemma tcp_partial_send_interleaves:
  assumes "0 < k" "k < length m1" "m2 \<noteq> []" "0 \<le> f"
  shows "\<exists>sys out (w :: nat option list \<times> u8 list) w1 w2. posix_stream sys out \<and> out w = [] \<and>
    tcp_send sys \<lparr>fd = f\<rparr> m1 (length m1) w =
      Some ((False, [log_msg WARN ''TCPEgressGateway: TCP socket buffer full (EAGAIN)'' []]), w1) \<and>
    tcp_send sys \<lparr>fd = f\<rparr> m2 (length m2) w1 = Some ((True, []), w2) \<and>
    out w2 = take k m1 @ m2"
proof -
  let ?w = "([Some k, None, Some (length m2)], [] :: u8 list)"
  let ?w1 = "([Some (length m2)], take k m1)" and ?w2 = "([] :: nat option list, take k m1 @ m2)"
  have n: "max 1 (min k (length m1)) = k" "max 1 (min (length m2) (length m2)) = length m2"
    using assms(1,2) Suc_leI [OF assms(3) [folded length_greater_0_conv]] by auto
  have "send_loop scripted f m1 (length m1) 0 ?w =
      Some ((False, [log_msg WARN ''TCPEgressGateway: TCP socket buffer full (EAGAIN)'' []]), ?w1)"
    using assms n(1) less_trans [OF assms(1,2)]
    by (subst send_loop.simps, subst send_loop.simps) (simp add: scripted_def Let_def)
  moreover have "send_loop scripted f m2 (length m2) 0 ?w1 = Some ((True, []), ?w2)"
    using assms n(2) by (subst send_loop.simps, subst send_loop.simps) (simp add: scripted_def Let_def)
  ultimately show ?thesis using scripted_posix assms(4)
    by (intro exI [of _ scripted] exI [of _ snd] exI [of _ ?w] exI [of _ ?w1] exI [of _ ?w2])
       (simp add: tcp_send_def)
qed

end
