(* ===== verification/Printf.thy ===== *)
theory Printf
  imports Wire_Bytes
begin

text \<open>
  Formatted output of the C library, as far as the program uses it: decimal numbers, the
  conversions \<open>%u\<close>, \<open>%lu\<close>, \<open>%d\<close>, \<open>%c\<close>, \<open>%s\<close> and \<open>%.8s\<close> of its format strings, and
  \<open>vsnprintf\<close> into a buffer, which truncates the text and returns its untruncated length.
\<close>

section \<open>Decimal numbers\<close>

fun dec_digits :: "nat \<Rightarrow> u8 list" where
  "dec_digits n = (if n < 10 then [of_nat (48 + n)] else dec_digits (n div 10) @ [of_nat (48 + n mod 10)])"

declare dec_digits.simps [simp del]

definition dec_value :: "u8 list \<Rightarrow> nat" where
  "dec_value bs = foldl (\<lambda>v b. 10 * v + (unat b - 48)) 0 bs"

lemma unat_digit: "d < 10 \<Longrightarrow> unat (of_nat (48 + d) :: u8) = 48 + d"
  by (simp only: unat_of_nat) (simp add: take_bit_eq_mod)

lemma dec_value_digits: "dec_value (dec_digits n) = n"
proof (induction n rule: dec_digits.induct)
  case (1 n)
  show ?case
  proof (cases "n < 10")
    case True
    then show ?thesis using unat_digit [of n] by (subst dec_digits.simps) (simp add: dec_value_def)
  next
    case False
    then show ?thesis using 1 [OF False] unat_digit [of "n mod 10"]
      by (subst dec_digits.simps) (simp add: dec_value_def)
  qed
qed

lemma dec_value_zeros: "dec_value (replicate k 48 @ bs) = dec_value bs"
  by (induction k) (simp_all add: dec_value_def)

lemma length_dec_digits: "0 < k \<Longrightarrow> n < 10 ^ k \<Longrightarrow> length (dec_digits n) \<le> k"
proof (induction k arbitrary: n)
  case (Suc k)
  show ?case
  proof (cases "n < 10")
    case True
    then show ?thesis by (subst dec_digits.simps) simp
  next
    case False
    then have "0 < k" using Suc.prems(2) by (cases k) auto
    moreover have "n div 10 < 10 ^ k" using Suc.prems(2) by (simp add: less_mult_imp_div_less mult.commute)
    ultimately show ?thesis using Suc.IH [of "n div 10"] False by (subst dec_digits.simps) simp
  qed
qed simp

lemma dec_digits_nonzero: "0 \<notin> set (dec_digits n)"
proof (induction n rule: dec_digits.induct)
  case (1 n)
  have "of_nat (48 + d) \<noteq> (0 :: u8)" if "d < 10" for d
    using unat_digit [OF that] by (metis add_is_0 numeral_neq_zero unat_0 zero_neq_numeral)
  then have "of_nat (48 + n mod 10) \<noteq> (0 :: u8)" "n < 10 \<Longrightarrow> of_nat (48 + n) \<noteq> (0 :: u8)"
    by (auto simp del: of_nat_add)
  with 1 show ?case by (subst dec_digits.simps) (auto simp del: of_nat_add)
qed

section \<open>Formats\<close>

datatype conversion = Conv_U | Conv_D | Conv_C | Conv_S "nat option"

text \<open>The conversion behind a \<open>%\<close> and the rest of the format; others are not used.\<close>

definition conversion :: "string \<Rightarrow> (conversion \<times> string) option" where
  "conversion f =
    (if take 1 f = ''u'' then Some (Conv_U, drop 1 f)
     else if take 2 f = ''lu'' then Some (Conv_U, drop 2 f)
     else if take 1 f = ''d'' then Some (Conv_D, drop 1 f)
     else if take 1 f = ''c'' then Some (Conv_C, drop 1 f)
     else if take 1 f = ''s'' then Some (Conv_S None, drop 1 f)
     else if take 3 f = ''.8s'' then Some (Conv_S (Some 8), drop 3 f)
     else None)"

lemma conversion_shorter: "conversion f = Some (c, f') \<Longrightarrow> length f' \<le> length f"
  by (auto simp: conversion_def split: if_splits)

text \<open>
  The bytes a \<open>%s\<close> prints of the memory behind its pointer: up to the terminating zero, and with a
  precision at most that many. Reading on beyond the memory has no defined result.
\<close>

fun string_text :: "nat option \<Rightarrow> u8 list \<Rightarrow> u8 list option" where
  "string_text None m = ctext (Some m)"
| "string_text (Some n) m =
    (if n \<le> length m \<or> 0 \<in> set m then Some (takeWhile (\<lambda>b. b \<noteq> 0) (take n m)) else None)"

fun convert :: "conversion \<Rightarrow> log_arg \<Rightarrow> u8 list option" where
  "convert Conv_U (ArgU n) = Some (dec_digits n)"
| "convert Conv_D (ArgI i) = Some ((if i < 0 then [ch (CHR ''-'')] else []) @ dec_digits (nat \<bar>i\<bar>))"
| "convert Conv_C (ArgU n) = Some [of_nat n]"
| "convert (Conv_S p) (ArgS s) = string_text p (map ch s @ [0])"
| "convert (Conv_S p) (ArgB m) = string_text p m"
| "convert _ _ = None"

text \<open>The whole text. An argument that is missing or of another type has no defined result.\<close>

function printf_text :: "string \<Rightarrow> log_arg list \<Rightarrow> u8 list option" where
  "printf_text [] args = Some []"
| "printf_text (c # f) args =
    (if c \<noteq> CHR ''%'' then map_option ((#) (ch c)) (printf_text f args)
     else case (conversion f, args) of
         (Some (cv, f'), a # args') \<Rightarrow> do {
           t \<leftarrow> convert cv a;
           r \<leftarrow> printf_text f' args';
           Some (t @ r) }
       | _ \<Rightarrow> None)"
  by pat_completeness auto
termination
  by (relation "measure (\<lambda>(f, args). length f)") (auto dest!: conversion_shorter [OF sym] simp: less_Suc_eq_le)

section \<open>Printing into a buffer\<close>

text \<open>
  \<open>vsnprintf(buf, n, format, args)\<close> for \<open>0 < n\<close>: the returned length is that of the whole text, or
  \<open>-1\<close> when an \<open>int\<close> cannot hold it. In that case the standard leaves the buffer unspecified; it
  keeps the unspecified bytes it was given.
\<close>

definition vsnprintf :: "u8 list \<Rightarrow> nat \<Rightarrow> string \<Rightarrow> log_arg list \<Rightarrow> (int \<times> u8 list) option" where
  "vsnprintf buf n f args = do {
     t \<leftarrow> printf_text f args;
     if 2 ^ 31 \<le> length t then Some (-1, buf)
     else do {
       let out = take (n - 1) t @ [0];
       buf \<leftarrow> memcpy buf out (length out);
       Some (int (length t), buf) } }"

lemma vsnprintf_eq:
  assumes "printf_text f args = Some t" "length t < 2 ^ 31" "0 < n" "n \<le> length buf"
  shows "vsnprintf buf n f args =
    Some (int (length t), take (n - 1) t @ [0] @ drop (min (length t) (n - 1) + 1) buf)"
  using assms by (auto simp: vsnprintf_def memcpy_def min_def Let_def)

lemma ctext_terminated: "0 \<notin> set t \<Longrightarrow> ctext (Some (t @ 0 # r)) = Some t"
  by (simp add: ctext_def)

lemma ctext_takeWhile: "0 \<in> set m \<Longrightarrow> ctext (Some m) = Some (takeWhile (\<lambda>b. b \<noteq> 0) m)"
proof -
  assume "0 \<in> set m"
  then have "m = takeWhile (\<lambda>b. b \<noteq> 0) m @ dropWhile (\<lambda>b. b \<noteq> 0) m" "dropWhile (\<lambda>b. b \<noteq> 0) m \<noteq> []" by auto
  moreover from hd_dropWhile [OF this(2)] have "hd (dropWhile (\<lambda>b. b \<noteq> 0) m) = 0" by simp
  ultimately have "m = takeWhile (\<lambda>b. b \<noteq> 0) m @ 0 # tl (dropWhile (\<lambda>b. b \<noteq> 0) m)"
    by (metis list.collapse)
  moreover have "0 \<notin> set (takeWhile (\<lambda>b. b \<noteq> 0) m)" by (auto dest: set_takeWhileD)
  ultimately show ?thesis by (metis ctext_terminated)
qed

end
