(* ===== verification/Strategy_Engine.thy ===== *)
theory Strategy_Engine
  imports EMS_Props OUCH42 ITCH5 Pre_Trade_Risk TCP_Egress Printf
begin

text \<open>
  The strategy container of \<open>StrategyEngine.hpp\<close>/\<open>.cpp\<close> and the market maker of
  \<open>MarketMakerStrategy.hpp\<close>/\<open>.cpp\<close>. An order of a strategy passes the risk engine, is recorded in
  the execution management system, encoded as an OUCH message and written to the gateway's socket.
  The engine's references to the other components are members of its record; the state of the
  outside world is passed along with the socket's system call (see \<open>TCP_Egress\<close>).
\<close>

section \<open>Formatting the order token\<close>

text \<open>\<open>snprintf\<close> of \<open>ORD%011lu\<close> into 15 bytes: at most 14 characters and the terminating zero.\<close>

definition lu_011 :: "nat \<Rightarrow> u8 list" where
  "lu_011 n = replicate (11 - length (dec_digits n)) 48 @ dec_digits n"

definition format_token :: "u64 \<Rightarrow> u8 list" where
  "format_token oid = take 14 (map ch ''ORD'' @ lu_011 (unat oid)) @ [0]"

section \<open>The engine\<close>

record MarketMakerStrategy =
  threshold_price :: u32
  order_qty :: u32
  symbol :: "u8 list"
  position_taken :: bool

text \<open>The implementations of the interface \<open>IStrategy\<close>.\<close>

datatype IStrategy = MarketMaker MarketMakerStrategy

record StrategyEngine =
  eng_ems :: ExecutionManagementSystem
  eng_risk :: PreTradeRiskEngine
  eng_tcp :: TCPEgressGateway
  eng_strategies :: "IStrategy list"
  order_id_counter :: u64

definition new_strategy_engine ::
    "ExecutionManagementSystem \<Rightarrow> PreTradeRiskEngine \<Rightarrow> TCPEgressGateway \<Rightarrow> StrategyEngine" where
  "new_strategy_engine ems risk tcp =
     \<lparr>eng_ems = ems, eng_risk = risk, eng_tcp = tcp, eng_strategies = [], order_id_counter = 1000\<rparr>"

definition addStrategy :: "StrategyEngine \<Rightarrow> IStrategy \<Rightarrow> StrategyEngine" where
  "addStrategy e s = e\<lparr>eng_strategies := eng_strategies e @ [s]\<rparr>"

fun status_int :: "RiskCheckStatus \<Rightarrow> int" where
  "status_int APPROVED = 0"
| "status_int REJECTED_FAT_FINGER = 1"
| "status_int REJECTED_MAX_ORDER_SIZE = 2"
| "status_int REJECTED_MAX_POSITION = 3"

text \<open>
  \<open>sendOrder\<close>. The boolean of \<open>ems_.onOrderSent\<close> and of \<open>tcp_egress_.send\<close> is dropped, as in the
  code; their log calls are kept. The 64 bytes of the local \<open>ouch_buffer\<close> start out as zeros here;
  the bytes that are sent do not depend on them (\<open>ouch_bytes_fixed\<close> below).
\<close>

definition sendOrder :: "'w sys_send \<Rightarrow> StrategyEngine \<Rightarrow> u8 \<Rightarrow> u32 \<Rightarrow> u32 \<Rightarrow> cstr \<Rightarrow> u32 \<Rightarrow> 'w \<Rightarrow>
    ((bool \<times> log_call list) \<times> StrategyEngine \<times> 'w) option" where
  "sendOrder sys e side shares price symb reference_price w = do {
     status \<leftarrow> check_order (eng_risk e) side shares price reference_price;
     if status \<noteq> APPROVED then
       Some ((False, [log_msg WARN ''Strategy order rejected by Pre-Trade Risk. Status: %d''
                       [ArgI (status_int status)]]), e, w)
     else do {
       let my_order_id = order_id_counter e;
       let e = e\<lparr>order_id_counter := my_order_id + 1\<rparr>;
       ((_, ems_logs), ems) \<leftarrow> onOrderSent (eng_ems e) my_order_id price shares;
       let e = e\<lparr>eng_ems := ems\<rparr>;
       let token = format_token my_order_id;
       (encoded, ouch_buffer) \<leftarrow>
         build_enter_order_default (replicate 64 0) 64 (Some token) side shares symb price;
       if encoded then do {
         let risk_qty = (if side = ch (CHR ''B'') then int (unat shares) else - int (unat shares));
         let e = e\<lparr>eng_risk := update_position (eng_risk e) risk_qty\<rparr>;
         ((_, tcp_logs), w) \<leftarrow> tcp_send sys (eng_tcp e) ouch_buffer 49 w;
         Some ((True, ems_logs @ [log_msg INFO ''Strategy fired! Order %lu sent to market.''
                       [ArgU (unat my_order_id)]] @ tcp_logs), e, w) }
       else
         Some ((False, ems_logs @ [log_msg ERROR ''Failed to encode OUCH message for Order %lu''
                       [ArgU (unat my_order_id)]]), e, w) } }"

section \<open>The market maker\<close>

text \<open>
  \<open>std::strncpy(dest, src, n)\<close>: up to \<open>n\<close> characters, padded with zeros. Without a zero byte among
  the first \<open>n\<close> bytes of a shorter memory it would read on; that has no defined result.
\<close>

definition strncpy :: "u8 list \<Rightarrow> nat \<Rightarrow> u8 list option" where
  "strncpy src n = (let t = takeWhile (\<lambda>b. b \<noteq> 0) (take n src) in
     if length t < n \<and> length t = length src then None else Some (t @ replicate (n - length t) 0))"

definition new_market_maker :: "u32 \<Rightarrow> u32 \<Rightarrow> u8 list \<Rightarrow> MarketMakerStrategy option" where
  "new_market_maker threshold qty symb = do {
     s \<leftarrow> strncpy symb 7;
     Some \<lparr>threshold_price = threshold, order_qty = qty, symbol = s @ [0], position_taken = False\<rparr> }"

text \<open>The 64-bit price of the message is converted to the 32-bit parameters of \<open>sendOrder\<close>.\<close>

definition mm_onMarketDataUpdate :: "'w sys_send \<Rightarrow> MarketMakerStrategy \<Rightarrow> InternalMessage \<Rightarrow>
    StrategyEngine \<Rightarrow> 'w \<Rightarrow> (log_call list \<times> MarketMakerStrategy \<times> StrategyEngine \<times> 'w) option" where
  "mm_onMarketDataUpdate sys s msg e w =
    (if position_taken s then Some ([], s, e, w)
     else if im_type msg = ch (CHR ''A'') \<and> im_side msg = BUY \<and> ucast (threshold_price s) \<le> im_price msg
     then do {
       ((success, logs), e, w) \<leftarrow> sendOrder sys e (ch (CHR ''S'')) (order_qty s) (ucast (im_price msg))
         (Some (symbol s)) (ucast (im_price msg)) w;
       Some (logs, (if success then s\<lparr>position_taken := True\<rparr> else s), e, w) }
     else Some ([], s, e, w))"

fun strategy_onMarketDataUpdate :: "'w sys_send \<Rightarrow> IStrategy \<Rightarrow> InternalMessage \<Rightarrow> StrategyEngine \<Rightarrow> 'w \<Rightarrow>
    (log_call list \<times> IStrategy \<times> StrategyEngine \<times> 'w) option" where
  "strategy_onMarketDataUpdate sys (MarketMaker s) msg e w = do {
     (logs, s, e, w) \<leftarrow> mm_onMarketDataUpdate sys s msg e w;
     Some (logs, MarketMaker s, e, w) }"

text \<open>The loop over the registered strategies, which keep their own state.\<close>

fun strategies_loop :: "'w sys_send \<Rightarrow> IStrategy list \<Rightarrow> InternalMessage \<Rightarrow> StrategyEngine \<Rightarrow> 'w \<Rightarrow>
    (log_call list \<times> IStrategy list \<times> StrategyEngine \<times> 'w) option" where
  "strategies_loop sys [] msg e w = Some ([], [], e, w)"
| "strategies_loop sys (s # ss) msg e w = do {
     (l1, s, e, w) \<leftarrow> strategy_onMarketDataUpdate sys s msg e w;
     (l2, ss, e, w) \<leftarrow> strategies_loop sys ss msg e w;
     Some (l1 @ l2, s # ss, e, w) }"

definition onMarketDataUpdate :: "'w sys_send \<Rightarrow> StrategyEngine \<Rightarrow> InternalMessage \<Rightarrow> 'w \<Rightarrow>
    (log_call list \<times> StrategyEngine \<times> 'w) option" where
  "onMarketDataUpdate sys e msg w = do {
     (logs, ss, e, w) \<leftarrow> strategies_loop sys (eng_strategies e) msg e w;
     Some (logs, e\<lparr>eng_strategies := ss\<rparr>, w) }"

section \<open>Tokens\<close>

lemma format_token_inj:
  assumes "unat a < 10 ^ 11" "unat b < 10 ^ 11" "format_token a = format_token b"
  shows "a = b"
proof -
  have len: "length (lu_011 (unat x)) = 11" if "unat x < 10 ^ 11" for x :: u64
    using length_dec_digits [of 11 "unat x"] that by (simp add: lu_011_def)
  have "lu_011 (unat a) = lu_011 (unat b)"
    using assms(3) len [OF assms(1)] len [OF assms(2)] by (simp add: format_token_def)
  then have "dec_value (lu_011 (unat a)) = dec_value (lu_011 (unat b))" by simp
  then have "unat a = unat b" by (simp add: lu_011_def dec_value_zeros dec_value_digits)
  then show ?thesis by (simp add: word_unat_eq_iff)
qed

definition token_text :: "u64 \<Rightarrow> u8 list" where
  "token_text oid = take 14 (map ch ''ORD'' @ lu_011 (unat oid))"

lemma ctext_token: "ctext (Some (format_token oid)) = Some (token_text oid)"
proof -
  have "0 \<notin> set (map ch ''ORD'' @ lu_011 (unat oid))"
    using dec_digits_nonzero by (auto simp: lu_011_def ch_def)
  then have "0 \<notin> set (token_text oid)" unfolding token_text_def by (meson in_set_takeD)
  moreover have "format_token oid = token_text oid @ [0]" by (simp only: format_token_def token_text_def)
  ultimately show ?thesis by (simp add: ctext_def)
qed

section \<open>Sending an order\<close>

text \<open>The message on the wire, with the default arguments of the builder.\<close>

definition order_msg :: "u64 \<Rightarrow> u8 \<Rightarrow> u32 \<Rightarrow> u8 list \<Rightarrow> u32 \<Rightarrow> EnterOrderMsg" where
  "order_msg oid side shares t price = enter_order (token_text oid) side shares t price 99998
     (map ch ''TEST'') (ch (CHR ''Y'')) (ch (CHR ''O'')) (ch (CHR ''N'')) 0 (ch (CHR ''N'')) (ch (CHR ''N''))"

definition order_bytes :: "u64 \<Rightarrow> u8 \<Rightarrow> u32 \<Rightarrow> u8 list \<Rightarrow> u32 \<Rightarrow> u8 list" where
  "order_bytes oid side shares t price = EnterOrderMsg_bytes (to_wire (order_msg oid side shares t price))"

lemma length_order_bytes [simp]: "length (order_bytes oid side shares t price) = 49"
  unfolding order_bytes_def order_msg_def by (rule enter_order_msg.length_bytes) (rule to_wire_wf)

lemma ouch_bytes_fixed:
  assumes "length buf = 64" "ctext symb = Some t"
  shows "build_enter_order_default buf 64 (Some (format_token oid)) side shares symb price =
    Some (True, order_bytes oid side shares t price @ drop 49 buf)"
proof -
  have "ctext (Some (map ch ''TEST'' @ [0])) = Some (map ch ''TEST'')"
    by (simp add: ctext_def ch_def)
  with assms build_enter_order_eq [of 64 buf "Some (format_token oid)" "token_text oid" symb t] ctext_token
  show ?thesis unfolding build_enter_order_default_def order_bytes_def order_msg_def by simp
qed

lemma sendOrder_rejected:
  assumes "check_order (eng_risk e) side shares price ref = Some st" "st \<noteq> APPROVED"
  shows "sendOrder sys e side shares price symb ref w =
    Some ((False, [log_msg WARN ''Strategy order rejected by Pre-Trade Risk. Status: %d'' [ArgI (status_int st)]]), e, w)"
  using assms by (simp add: sendOrder_def)

lemma sendOrder_approved:
  assumes chk: "check_order (eng_risk e) side shares price ref = Some APPROVED"
    and ems: "ems_rel (eng_ems e) b" "b (order_id_counter e) = None" "0 < ems_left (eng_ems e)"
    and symb: "ctext symb = Some t" and sys: "posix_stream sys out"
  shows "\<exists>logs ems' w' k. sendOrder sys e side shares price symb ref w =
      Some ((True, logs), e\<lparr>order_id_counter := order_id_counter e + 1, eng_ems := ems',
        eng_risk := update_position (eng_risk e) (signed_qty side shares)\<rparr>, w') \<and>
    ems_rel ems' (b(order_id_counter e \<mapsto> fresh_order (order_id_counter e) price shares)) \<and>
    ems_left (eng_ems e) = Suc (ems_left ems') \<and>
    out w' = out w @ take k (order_bytes (order_id_counter e) side shares t price) \<and>
    (fd (eng_tcp e) < 0 \<longrightarrow> w' = w)"
proof -
  let ?oid = "order_id_counter e"
  let ?bytes = "order_bytes ?oid side shares t price @ drop 49 (replicate 64 0)"
  have "b (event_id (Sent ?oid price shares)) = None" using ems(2) by simp
  from handle_unknown [OF ems(1) this ems(3)] obtain ems' where
    ems': "onOrderSent (eng_ems e) ?oid price shares =
        Some ((True, event_log (Sent ?oid price shares) True (fresh_order ?oid price shares)), ems')"
      "ems_rel ems' (b(?oid \<mapsto> fresh_order ?oid price shares))" "ems_left (eng_ems e) = Suc (ems_left ems')"
    using ems(2) by (auto simp: ems_spec_def handle_def simp del: event_log.simps)
  have "49 \<le> length ?bytes" by simp
  from tcp_send_prefix_law [OF sys this, of "eng_tcp e" w] obtain ok tlogs w' k where
    tcp: "tcp_send sys (eng_tcp e) ?bytes 49 w = Some ((ok, tlogs), w')" "k \<le> 49"
      "out w' = out w @ take k ?bytes" "fd (eng_tcp e) < 0 \<longrightarrow> \<not> ok \<and> w' = w" by blast
  have "take k ?bytes = take k (order_bytes ?oid side shares t price)" using tcp(2) by simp
  with chk ems' tcp ouch_bytes_fixed [OF _ symb, of "replicate 64 0" ?oid side shares price] show ?thesis
    by (auto simp: sendOrder_def signed_qty_def ch_def Let_def simp del: event_log.simps)
qed

section \<open>The engine's invariant\<close>

text \<open>
  After \<open>n\<close> orders: the counter stands at \<open>1000 + n\<close>, the execution management system holds
  exactly the ids handed out, and the position is within the configured limit.
\<close>

definition engine_inv :: "nat \<Rightarrow> StrategyEngine \<Rightarrow> orders \<Rightarrow> bool" where
  "engine_inv n e b \<longleftrightarrow> ems_rel (eng_ems e) b \<and> unat (order_id_counter e) = 1000 + n \<and>
     dom b = {oid. 1000 \<le> unat oid \<and> unat oid < 1000 + n} \<and>
     \<bar>current_position (eng_risk e)\<bar> \<le> max_position (config (eng_risk e)) \<and>
     max_position (config (eng_risk e)) \<le> 2 ^ 62"

lemma sendOrder_step:
  assumes inv: "engine_inv n e b" and room: "0 < ems_left (eng_ems e)" "n + 1001 < 2 ^ 64"
    and symb: "ctext symb = Some t" and sys: "posix_stream sys out"
  shows "\<exists>ok logs e' w' k. sendOrder sys e side shares price symb ref w = Some ((ok, logs), e', w') \<and>
    (ok \<longleftrightarrow> check_order (eng_risk e) side shares price ref = Some APPROVED) \<and>
    (\<not> ok \<longrightarrow> e' = e \<and> w' = w) \<and>
    (ok \<longrightarrow> engine_inv (Suc n) e' (b(order_id_counter e \<mapsto> fresh_order (order_id_counter e) price shares)) \<and>
       ems_left (eng_ems e) = Suc (ems_left (eng_ems e')) \<and>
       current_position (eng_risk e') = current_position (eng_risk e) + signed_qty side shares \<and>
       config (eng_risk e') = config (eng_risk e) \<and>
       eng_tcp e' = eng_tcp e \<and> eng_strategies e' = eng_strategies e \<and>
       out w' = out w @ take k (order_bytes (order_id_counter e) side shares t price))"
proof -
  let ?oid = "order_id_counter e"
  have i: "ems_rel (eng_ems e) b" "unat ?oid = 1000 + n" "dom b = {oid. 1000 \<le> unat oid \<and> unat oid < 1000 + n}"
    "\<bar>current_position (eng_risk e)\<bar> \<le> 2 ^ 62" "max_position (config (eng_risk e)) \<le> 2 ^ 62"
    using inv by (auto simp: engine_inv_def)
  have new: "b ?oid = None" using i(2,3) by (metis (mono_tags, lifting) domIff less_irrefl mem_Collect_eq)
  obtain st where st: "check_order (eng_risk e) side shares price ref = Some st"
    using check_order_position [OF i(4)] by blast
  show ?thesis
  proof (cases "st = APPROVED")
    case False
    note rej = sendOrder_rejected [OF st False, of sys symb w]
    show ?thesis by (intro exI conjI) (use rej st False in auto)
  next
    case True
    with st have ap: "check_order (eng_risk e) side shares price ref = Some APPROVED" by simp
    from sendOrder_approved [OF ap i(1) new room(1) symb sys, of w] obtain logs ems' w' k where
      r: "sendOrder sys e side shares price symb ref w =
        Some ((True, logs), e\<lparr>order_id_counter := ?oid + 1, eng_ems := ems',
          eng_risk := update_position (eng_risk e) (signed_qty side shares)\<rparr>, w')"
      "ems_rel ems' (b(?oid \<mapsto> fresh_order ?oid price shares))" "ems_left (eng_ems e) = Suc (ems_left ems')"
      "out w' = out w @ take k (order_bytes ?oid side shares t price)" by blast
    have "unat (?oid + 1) = 1000 + Suc n"
      using i(2) room(2) by (simp add: unat_word_ariths take_bit_eq_mod)
    moreover have "dom (b(?oid \<mapsto> fresh_order ?oid price shares)) = {oid. 1000 \<le> unat oid \<and> unat oid < 1000 + Suc n}"
      using i(2,3) by (auto simp: less_Suc_eq word_unat_eq_iff)
    moreover note approved_position [OF ap]
    ultimately have "engine_inv (Suc n) (e\<lparr>order_id_counter := ?oid + 1, eng_ems := ems',
        eng_risk := update_position (eng_risk e) (signed_qty side shares)\<rparr>)
        (b(?oid \<mapsto> fresh_order ?oid price shares))"
      using r(2) i(5) by (simp add: engine_inv_def update_position_def)
    with r ap approved_position [OF ap] show ?thesis
      by (auto simp: update_position_def simp del: fun_upd_apply)
  qed
qed

section \<open>Any sequence of orders\<close>

type_synonym order_request = "u8 \<times> u32 \<times> u32 \<times> cstr \<times> u32"

definition submit :: "'w sys_send \<Rightarrow> StrategyEngine \<times> 'w \<Rightarrow> order_request \<Rightarrow> (bool \<times> StrategyEngine \<times> 'w) option" where
  "submit sys s r = (case s of (e, w) \<Rightarrow> case r of (side, shares, price, symb, ref) \<Rightarrow>
     map_option (\<lambda>((ok, logs), s'). (ok, s')) (sendOrder sys e side shares price symb ref w))"

fun approved_qty :: "bool list \<Rightarrow> order_request list \<Rightarrow> int" where
  "approved_qty (ok # oks) ((side, shares, r) # rs) =
     (if ok then signed_qty side shares else 0) + approved_qty oks rs"
| "approved_qty _ _ = 0"

lemma submit_all:
  assumes "posix_stream sys out" "\<forall>(side, shares, price, symb, ref) \<in> set rs. ctext symb \<noteq> None"
    and "engine_inv n e b" "length rs < ems_left (eng_ems e)" "n + length rs + 1001 < 2 ^ 64"
  shows "\<exists>oks e' w' b'. run_steps (submit sys) (e, w) rs = Some (oks, e', w') \<and> length oks = length rs \<and>
    engine_inv (n + length (filter (\<lambda>ok. ok) oks)) e' b' \<and>
    current_position (eng_risk e') = current_position (eng_risk e) + approved_qty oks rs \<and>
    config (eng_risk e') = config (eng_risk e) \<and> 0 < ems_left (eng_ems e') \<and>
    (\<forall>oid r. b oid = Some r \<longrightarrow> b' oid = Some r) \<and>
    (\<forall>oid r. b' oid = Some r \<longrightarrow> b oid = None \<longrightarrow> em_state r = PENDING_NEW \<and> em_executed_quantity r = 0)"
  using assms(2-)
proof (induction rs arbitrary: n e b w)
  case Nil
  then show ?case by (auto intro!: exI [of _ b])
next
  case (Cons r rs)
  obtain side shares price symb ref where r: "r = (side, shares, price, symb, ref)" by (cases r)
  with Cons.prems(1) obtain t where t: "ctext symb = Some t" by auto
  have room: "0 < ems_left (eng_ems e)" "n + 1001 < 2 ^ 64" using Cons.prems(3,4) by auto
  let ?f = "fresh_order (order_id_counter e) price shares"
  from sendOrder_step [OF Cons.prems(2) room t assms(1), of side shares price ref w]
  obtain ok logs e1 w1 where s: "sendOrder sys e side shares price symb ref w = Some ((ok, logs), e1, w1)"
    "\<not> ok \<longrightarrow> e1 = e \<and> w1 = w"
    "ok \<longrightarrow> engine_inv (Suc n) e1 (b(order_id_counter e \<mapsto> ?f)) \<and>
       ems_left (eng_ems e) = Suc (ems_left (eng_ems e1)) \<and>
       current_position (eng_risk e1) = current_position (eng_risk e) + signed_qty side shares \<and>
       config (eng_risk e1) = config (eng_risk e)" by blast
  have sub: "submit sys (e, w) r = Some (ok, e1, w1)" using s(1) r by (simp add: submit_def)
  have new: "b (order_id_counter e) = None"
    using Cons.prems(2) unfolding engine_inv_def by (metis (mono_tags, lifting) domIff less_irrefl mem_Collect_eq)
  define b1 where "b1 = (if ok then b(order_id_counter e \<mapsto> ?f) else b)"
  define n1 where "n1 = (if ok then Suc n else n)"
  have i1: "engine_inv n1 e1 b1" "length rs < ems_left (eng_ems e1)" "n1 + length rs + 1001 < 2 ^ 64"
    using s(2,3) Cons.prems(2-4) by (auto simp: n1_def b1_def simp del: fun_upd_apply)
  have "\<forall>(side, shares, price, symb, ref) \<in> set rs. ctext symb \<noteq> None" using Cons.prems(1) by auto
  from Cons.IH [OF this i1, of w1] obtain oks e' w' b' where
    h: "run_steps (submit sys) (e1, w1) rs = Some (oks, e', w')" "length oks = length rs"
    "engine_inv (n1 + length (filter (\<lambda>ok. ok) oks)) e' b'"
    "current_position (eng_risk e') = current_position (eng_risk e1) + approved_qty oks rs"
    "config (eng_risk e') = config (eng_risk e1)" "0 < ems_left (eng_ems e')"
    "\<forall>oid r. b1 oid = Some r \<longrightarrow> b' oid = Some r"
    "\<forall>oid r. b' oid = Some r \<longrightarrow> b1 oid = None \<longrightarrow> em_state r = PENDING_NEW \<and> em_executed_quantity r = 0"
    by blast
  have "\<forall>oid r. b oid = Some r \<longrightarrow> b' oid = Some r"
  proof (intro allI impI)
    fix oid r assume "b oid = Some r"
    then have "b1 oid = Some r" using new by (auto simp: b1_def)
    then show "b' oid = Some r" using h(7) by blast
  qed
  moreover have "em_state r = PENDING_NEW \<and> em_executed_quantity r = 0"
    if "b' oid = Some r" "b oid = None" for oid r
  proof (cases "b1 oid")
    case (Some r')
    then have "r' = ?f" using that(2) by (auto simp: b1_def split: if_splits)
    with Some h(7) that(1) show ?thesis by (auto simp: fresh_order_def)
  qed (use h(8) that in blast)
  moreover have "run_steps (submit sys) (e, w) (r # rs) = Some (ok # oks, e', w')" using sub h(1) by simp
  moreover have "engine_inv (n + length (filter (\<lambda>ok. ok) (ok # oks))) e' b'"
    using h(3) by (cases ok) (simp_all add: n1_def)
  moreover have "current_position (eng_risk e') = current_position (eng_risk e) + approved_qty (ok # oks) (r # rs)"
    "config (eng_risk e') = config (eng_risk e)"
    using h(4,5) s(2,3) r by auto
  ultimately show ?case using h(2,6)
    by (intro exI [of _ "ok # oks"] exI [of _ e'] exI [of _ w'] exI [of _ b']) simp
qed

lemma new_engine_inv:
  assumes "new_ems mmap_ok mo = Inr ems" "mo \<noteq> 0" "0 \<le> max_position cfg" "max_position cfg \<le> 2 ^ 62"
  shows "engine_inv 0 (new_strategy_engine ems (new_risk_engine cfg) tcp) Map.empty"
    and "ems_left (eng_ems (new_strategy_engine ems (new_risk_engine cfg) tcp)) = 2 * unat mo"
  using new_ems_rel [OF assms(1,2)] assms(3,4)
  by (auto simp: engine_inv_def new_strategy_engine_def new_risk_engine_def)

section \<open>Properties\<close>

text \<open>
  C20. Every order that passes the risk check is accounted for, whatever the strategies ask: for any
  sequence of fewer than \<open>2 * max_orders\<close> requests on a fresh engine, with symbols that are C strings
  and a socket that behaves as a stream socket, every call returns; the position is the sum of the
  signed quantities of the orders sent and never exceeds the configured maximum in absolute value;
  the ids handed out are consecutive from 1000; and the execution management system tracks exactly
  these ids, as pending orders with nothing executed.
\<close>

theorem engine_orders_accounted:
  assumes "new_ems mmap_ok mo = Inr ems" "mo \<noteq> 0" "0 \<le> max_position cfg" "max_position cfg \<le> 2 ^ 62"
    and "posix_stream sys out" "\<forall>(side, shares, price, symb, ref) \<in> set rs. ctext symb \<noteq> None"
    and "length rs < 2 * unat mo" "unat mo < 2 ^ 62"
  shows "\<exists>oks e w'. run_steps (submit sys) (new_strategy_engine ems (new_risk_engine cfg) tcp, w) rs =
      Some (oks, e, w') \<and>
    current_position (eng_risk e) = approved_qty oks rs \<and>
    \<bar>current_position (eng_risk e)\<bar> \<le> max_position cfg \<and>
    unat (order_id_counter e) = 1000 + length (filter (\<lambda>ok. ok) oks) \<and>
    (\<forall>oid. getOrderState (eng_ems e) oid =
       Some (if 1000 \<le> unat oid \<and> unat oid < 1000 + length (filter (\<lambda>ok. ok) oks) then PENDING_NEW else NONE))"
proof -
  let ?e = "new_strategy_engine ems (new_risk_engine cfg) tcp"
  note n = new_engine_inv [OF assms(1-4), of tcp]
  have small: "0 + length rs + 1001 < 2 ^ 64" using assms(7,8) by simp
  have room: "length rs < ems_left (eng_ems ?e)" using n(2) assms(7) by simp
  from submit_all [OF assms(5,6) n(1) room small, of w] obtain oks e w' b' where
    r: "run_steps (submit sys) (?e, w) rs = Some (oks, e, w')" "length oks = length rs"
    "engine_inv (length (filter (\<lambda>ok. ok) oks)) e b'"
    "current_position (eng_risk e) = current_position (eng_risk ?e) + approved_qty oks rs"
    "config (eng_risk e) = config (eng_risk ?e)" "0 < ems_left (eng_ems e)"
    "\<forall>oid r. b' oid = Some r \<longrightarrow> em_state r = PENDING_NEW \<and> em_executed_quantity r = 0"
    by auto
  let ?k = "length (filter (\<lambda>ok. ok) oks)"
  have c: "config (eng_risk ?e) = cfg" "current_position (eng_risk ?e) = 0"
    by (simp_all add: new_strategy_engine_def new_risk_engine_def)
  have i: "ems_rel (eng_ems e) b'" "unat (order_id_counter e) = 1000 + ?k"
    "dom b' = {oid. 1000 \<le> unat oid \<and> unat oid < 1000 + ?k}"
    "\<bar>current_position (eng_risk e)\<bar> \<le> max_position cfg"
    using r(3,5) c by (auto simp: engine_inv_def)
  have "getOrderState (eng_ems e) oid =
      Some (if 1000 \<le> unat oid \<and> unat oid < 1000 + ?k then PENDING_NEW else NONE)" for oid
  proof -
    have "b' oid \<noteq> None \<longleftrightarrow> 1000 \<le> unat oid \<and> unat oid < 1000 + ?k" using i(3) by (auto simp: domIff)
    with ems_queries(1) [OF i(1), of oid] r(6,7) show ?thesis by (cases "b' oid") auto
  qed
  with r(1,4) i(2,4) c show ?thesis by auto
qed

theorem engine_orders_accounted_witness:
  "\<exists>ems oks e w'. new_ems (\<lambda>_. True) 10 = Inr ems \<and>
     run_steps (submit scripted) (new_strategy_engine ems (new_risk_engine
        \<lparr>max_order_size = 500, max_position = 10000, max_price_deviation_pct = pct_5\<rparr>) (new_gateway_fd 4),
        ([Some 49], [])) [(83, 100, 15000, Some [65, 0], 15000), (66, 600, 15000, None, 15000)] = Some (oks, e, w') \<and>
     \<bar>current_position (eng_risk e)\<bar> \<le> 10000"
proof -
  obtain ems where s: "new_ems (\<lambda>_. True) 10 = Inr ems" by (auto simp: new_ems_def)
  have u: "unat (10 :: u64) = 10" by simp
  show ?thesis
    using engine_orders_accounted [OF s _ _ _ scripted_posix, of
        "\<lparr>max_order_size = 500, max_position = 10000, max_price_deviation_pct = pct_5\<rparr>"
        "[(83, 100, 15000, Some [65, 0], 15000), (66, 600, 15000, None, 15000)]"
        "new_gateway_fd 4" "([Some 49], [])"] s
    by (auto simp: ctext_def u)
qed

text \<open>
  Orders sent to the exchange have different tokens: the 14-character tokens of two ids below
  10^11 are different, and none of them contains a zero byte, so the padded token field of the
  message determines the id.
\<close>

lemma tokens_unique:
  assumes "unat a < 10 ^ 11" "unat b < 10 ^ 11" "a \<noteq> b"
  shows "length (format_token a) = 15 \<and> strlen (format_token a) = Some 14 \<and>
    take 14 (format_token a) \<noteq> take 14 (format_token b)"
proof -
  have t: "format_token x = token_text x @ [0]" for x by (simp only: format_token_def token_text_def)
  have len: "length (token_text x) = 14" if "unat x < 10 ^ 11" for x
    using length_dec_digits [of 11 "unat x"] that by (simp add: token_text_def lu_011_def)
  have "0 \<notin> set (map ch ''ORD'' @ lu_011 (unat a))"
    using dec_digits_nonzero by (auto simp: lu_011_def ch_def)
  then have "0 \<notin> set (token_text a)" unfolding token_text_def by (meson in_set_takeD)
  moreover have "format_token a \<noteq> format_token b" using format_token_inj [OF assms(1,2)] assms(3) by blast
  ultimately show ?thesis using len [OF assms(1)] len [OF assms(2)] by (simp add: t)
qed

end
