(* ===== verification/Trading_System.thy ===== *)
theory Trading_System
  imports Strategy_Engine Order_Book_Props SPSC_Queue
begin

text \<open>
  The program of \<open>src/Main.cpp\<close>: the network thread parses ITCH datagrams and pushes the messages
  into the ring buffer; the strategy thread pops them, updates the order book and hands them to
  the strategies, whose orders leave through the gateway. The components are those of the other
  theories; the socket call and the outside world are passed along as in \<open>TCP_Egress\<close>.
\<close>

section \<open>The strategy thread\<close>

record Trader =
  tr_lob :: LimitOrderBook
  tr_engine :: StrategyEngine

text \<open>The \<open>switch (msg.type)\<close>; the results of the book's operations are dropped.\<close>

definition apply_to_book :: "LimitOrderBook \<Rightarrow> InternalMessage \<Rightarrow> (log_call list \<times> LimitOrderBook) option" where
  "apply_to_book l msg =
    (if im_type msg = ch (CHR ''A'') then do {
       (_, l, logs) \<leftarrow> add l (im_id msg) (im_side msg) (im_price msg) (im_quantity msg); Some (logs, l) }
     else if im_type msg = ch (CHR ''D'') then do {
       (_, l, logs) \<leftarrow> cancel l (im_id msg); Some (logs, l) }
     else if im_type msg = ch (CHR ''X'') then do {
       (_, l, logs) \<leftarrow> modify l (im_id msg) (im_quantity msg); Some (logs, l) }
     else Some ([], l))"

definition process_msg :: "'w sys_send \<Rightarrow> Trader \<times> 'w \<Rightarrow> InternalMessage \<Rightarrow>
    (log_call list \<times> Trader \<times> 'w) option" where
  "process_msg sys s msg = (case s of (tr, w) \<Rightarrow> do {
     (l1, lob) \<leftarrow> apply_to_book (tr_lob tr) msg;
     (l2, e, w) \<leftarrow> onMarketDataUpdate sys (tr_engine tr) msg w;
     Some (l1 @ l2, \<lparr>tr_lob = lob, tr_engine = e\<rparr>, w) })"

definition main_risk_config :: RiskConfig where
  "main_risk_config = \<lparr>max_order_size = 500, max_position = 10000, max_price_deviation_pct = pct_5\<rparr>"

text \<open>
  The objects of the thread, with the default sizes of the book. An exception of a constructor ends
  the thread; the model has no trader then.
\<close>

definition start_trader :: "(u64 \<Rightarrow> bool) \<Rightarrow> TCPEgressGateway \<Rightarrow> Trader option" where
  "start_trader mmap_ok tcp =
    (case init_memory_pool mmap_ok 1000000 100000 of
       Inl _ \<Rightarrow> None
     | Inr lob \<Rightarrow>
         (case new_ems mmap_ok 10000 of
            Inl _ \<Rightarrow> None
          | Inr ems \<Rightarrow> do {
              mm \<leftarrow> new_market_maker 15000 100 (map ch ''AAPL'' @ [0]);
              Some \<lparr>tr_lob = lob, tr_engine = addStrategy
                (new_strategy_engine ems (new_risk_engine main_risk_config) tcp) (MarketMaker mm)\<rparr> }))"

section \<open>The network thread\<close>

text \<open>
  The datagram callback. \<open>recv\<close> delivers at most 2048 bytes of a datagram; \<open>junk\<close> is the
  indeterminate content of the local \<open>parsed_msg\<close>. The message is pushed with \<open>push_spin\<close>, which does not return on
  a full queue unless the other thread pops.
\<close>

definition QUEUE_CAPACITY :: u64 where
  "QUEUE_CAPACITY = 65536"

definition decode_datagram :: "InternalMessage \<Rightarrow> u8 list \<Rightarrow> (InternalMessage option \<times> log_call list) option" where
  "decode_datagram junk d =
    (let buffer = take 2048 d; bytes_read = length buffer
     in if bytes_read > 0 then do {
          (ok, msg, logs) \<leftarrow> parse buffer bytes_read junk;
          Some ((if ok then Some msg else None), logs) }
        else Some (None, []))"

definition on_datagram :: "InternalMessage \<Rightarrow> u8 list \<Rightarrow> InternalMessage SPSCQueue \<Rightarrow>
    (log_call list \<times> InternalMessage SPSCQueue) option" where
  "on_datagram junk d q = do {
     (m, logs) \<leftarrow> decode_datagram junk d;
     case m of
       None \<Rightarrow> Some (logs, q)
     | Some msg \<Rightarrow> do { q \<leftarrow> push_spin QUEUE_CAPACITY msg q; Some (logs, q) } }"

section \<open>The book follows the messages\<close>

definition book_cmd_of :: "InternalMessage \<Rightarrow> book_cmd option" where
  "book_cmd_of msg =
    (if im_type msg = ch (CHR ''A'') then Some (Add (im_id msg) (im_side msg) (im_price msg) (im_quantity msg))
     else if im_type msg = ch (CHR ''D'') then Some (Cancel (im_id msg))
     else if im_type msg = ch (CHR ''X'') then Some (Modify (im_id msg) (im_quantity msg))
     else None)"

lemma apply_to_book_step:
  "map_option snd (apply_to_book l msg) =
    (case book_cmd_of msg of None \<Rightarrow> Some l | Some c \<Rightarrow> map_option snd (lob_step l c))"
proof -
  have "map_option snd (do { (b :: bool, l :: LimitOrderBook, logs :: log_call list) \<leftarrow> x; Some (logs, l) }) =
      map_option snd (map_option (\<lambda>(r, l', logs). (r, l')) x)" for x
    by (cases x) auto
  then show ?thesis by (simp add: apply_to_book_def book_cmd_of_def)
qed

definition book_cmds :: "InternalMessage list \<Rightarrow> book_cmd list" where
  "book_cmds msgs = List.map_filter book_cmd_of msgs"

definition adds :: "InternalMessage list \<Rightarrow> nat" where
  "adds msgs = length (filter (\<lambda>m. im_type m = ch (CHR ''A'')) msgs)"

definition spec_book :: "nat \<Rightarrow> nat \<Rightarrow> InternalMessage list \<Rightarrow> resting list" where
  "spec_book n m msgs = snd (run_spec (spec_step n m) [] (book_cmds msgs))"

lemma run_spec_snoc: "snd (run_spec spec b (cs @ [c])) = snd (spec (snd (run_spec spec b cs)) c)"
  by (induction cs arbitrary: b) (auto simp: case_prod_beta Let_def)

lemma spec_book_snoc:
  "spec_book n m (msgs @ [msg]) = (case book_cmd_of msg of None \<Rightarrow> spec_book n m msgs
     | Some c \<Rightarrow> snd (spec_step n m (spec_book n m msgs) c))"
  by (simp add: spec_book_def book_cmds_def map_filter_def run_spec_snoc split: option.splits)

lemma apply_to_book_refines:
  assumes "sized_refines n m l (spec_book n m msgs)" "0 < lob_room l"
  shows "\<exists>logs l'. apply_to_book l msg = Some (logs, l') \<and> sized_refines n m l' (spec_book n m (msgs @ [msg])) \<and>
     lob_room l \<le> lob_room l' + adds [msg]"
proof (cases "book_cmd_of msg")
  case None
  then have "map_option snd (apply_to_book l msg) = Some l" by (simp add: apply_to_book_step)
  then obtain logs where "apply_to_book l msg = Some (logs, l)" by (cases "apply_to_book l msg") auto
  with None assms(1) show ?thesis by (auto simp: spec_book_snoc)
next
  case (Some c)
  from lob.sim [OF assms, of c] obtain r l' where
    l': "lob_step l c = Some (r, l')" "sized_refines n m l' (snd (spec_step n m (spec_book n m msgs) c))"
    "lob_room l \<le> lob_room l' + slots_used c" by auto
  have "map_option snd (apply_to_book l msg) = Some l'" using Some l'(1) by (simp add: apply_to_book_step)
  then obtain logs where "apply_to_book l msg = Some (logs, l')" by (cases "apply_to_book l msg") auto
  moreover have "slots_used c \<le> adds [msg]"
    using Some by (auto simp: book_cmd_of_def adds_def split: if_splits)
  ultimately show ?thesis using l' Some by (auto simp: spec_book_snoc)
qed

section \<open>The market maker sends one order\<close>

definition main_mm :: MarketMakerStrategy where
  "main_mm = \<lparr>threshold_price = 15000, order_qty = 100,
     symbol = map ch ''AAPL'' @ [0, 0, 0, 0], position_taken = False\<rparr>"

definition triggers :: "InternalMessage \<Rightarrow> bool" where
  "triggers msg \<longleftrightarrow> im_type msg = ch (CHR ''A'') \<and> im_side msg = BUY \<and> 15000 \<le> im_price msg"

lemma new_market_maker_main: "new_market_maker 15000 100 (map ch ''AAPL'' @ [0]) = Some main_mm"
proof -
  have "strncpy (map ch ''AAPL'' @ [0]) 7 = Some (map ch ''AAPL'' @ [0, 0, 0])" by code_simp
  then show ?thesis by (simp add: new_market_maker_def main_mm_def)
qed

lemma engine_strategies_same: "eng_strategies e = ss \<Longrightarrow> e\<lparr>eng_strategies := ss\<rparr> = e"
  by (cases e) simp

lemma engine_inv_strategies: "engine_inv n (e\<lparr>eng_strategies := ss\<rparr>) b = engine_inv n e b"
  by (simp add: engine_inv_def)

lemma market_data_idle:
  assumes "eng_strategies e = [MarketMaker s]" "position_taken s \<or> \<not> triggers msg" "threshold_price s = 15000"
  shows "onMarketDataUpdate sys e msg w = Some ([], e, w)"
  using assms engine_strategies_same [OF assms(1)]
  by (auto simp: onMarketDataUpdate_def mm_onMarketDataUpdate_def triggers_def)

lemma market_data_fires:
  assumes inv: "engine_inv 0 e Map.empty" "0 < ems_left (eng_ems e)" "current_position (eng_risk e) = 0"
      "config (eng_risk e) = main_risk_config" "order_id_counter e = 1000"
    and strat: "eng_strategies e = [MarketMaker main_mm]" and msg: "triggers msg" and sys: "posix_stream sys out"
  shows "\<exists>logs e' w' k. onMarketDataUpdate sys e msg w = Some (logs, e', w') \<and>
     engine_inv 1 e' [1000 \<mapsto> fresh_order 1000 (ucast (im_price msg)) 100] \<and>
     ems_left (eng_ems e) = Suc (ems_left (eng_ems e')) \<and> current_position (eng_risk e') = - 100 \<and>
     eng_strategies e' = [MarketMaker (main_mm\<lparr>position_taken := True\<rparr>)] \<and>
     out w' = out w @ take k (order_bytes 1000 (ch (CHR ''S'')) 100 (map ch ''AAPL'') (ucast (im_price msg)))"
proof -
  let ?p = "ucast (im_price msg) :: u32" and ?S = "ch (CHR ''S'')"
  have symb: "ctext (Some (symbol main_mm)) = Some (map ch ''AAPL'')"
    by (simp add: ctext_def main_mm_def ch_def)
  have q: "signed_qty ?S 100 = - 100" by (simp add: signed_qty_def ch_def)
  have "\<bar>current_position (eng_risk e)\<bar> \<le> 2 ^ 62" using inv(3) by simp
  from check_order_position [OF this, of ?S 100 ?p ?p]
  have ok: "check_order (eng_risk e) ?S 100 ?p ?p = Some APPROVED"
    by (simp add: inv(3,4) main_risk_config_def q double_div_def pct_5_def)
  have "(0 :: nat) + 1001 < 2 ^ 64" by simp
  note step = sendOrder_step [OF inv(1,2) this symb sys, of ?S 100 ?p ?p w, unfolded ok inv(3,5) q]
  obtain ok logs e' w' k where r: "sendOrder sys e ?S 100 ?p (Some (symbol main_mm)) ?p w = Some ((ok, logs), e', w')"
    "ok = (Some APPROVED = Some APPROVED)"
    "ok \<longrightarrow> engine_inv (Suc 0) e' [1000 \<mapsto> fresh_order 1000 ?p 100] \<and>
       ems_left (eng_ems e) = Suc (ems_left (eng_ems e')) \<and> current_position (eng_risk e') = 0 + - 100 \<and>
       config (eng_risk e') = config (eng_risk e) \<and> eng_tcp e' = eng_tcp e \<and> eng_strategies e' = eng_strategies e \<and>
       out w' = out w @ take k (order_bytes 1000 ?S 100 (map ch ''AAPL'') ?p)"
    using step by (elim exE conjE)
  have ok: ok using r(2) by simp
  have mm: "position_taken main_mm = False" "threshold_price main_mm = 15000" "order_qty main_mm = 100"
    by (simp_all add: main_mm_def)
  have t: "im_type msg = ch (CHR ''A'')" "im_side msg = BUY" "15000 \<le> im_price msg"
    using msg by (auto simp: triggers_def)
  have "onMarketDataUpdate sys e msg w =
      Some (logs, e'\<lparr>eng_strategies := [MarketMaker (main_mm\<lparr>position_taken := True\<rparr>)]\<rparr>, w')"
    using r(1) ok t by (simp add: onMarketDataUpdate_def mm_onMarketDataUpdate_def strat mm)
  moreover have "engine_inv 1 (e'\<lparr>eng_strategies := [MarketMaker (main_mm\<lparr>position_taken := True\<rparr>)]\<rparr>)
      [1000 \<mapsto> fresh_order 1000 ?p 100]"
    using r(3) ok by (simp only: engine_inv_strategies One_nat_def simp_thms)
  moreover have "ems_left (eng_ems e) = Suc (ems_left (eng_ems e'))" "current_position (eng_risk e') = - 100"
    "out w' = out w @ take k (order_bytes 1000 ?S 100 (map ch ''AAPL'') ?p)"
    using r(3) ok by simp_all
  ultimately show ?thesis
    by (intro exI [of _ logs] exI [of _ "e'\<lparr>eng_strategies := [MarketMaker (main_mm\<lparr>position_taken := True\<rparr>)]\<rparr>"]
        exI [of _ w'] exI [of _ k]) simp
qed

text \<open>What the strategy thread has done after the messages \<open>msgs\<close>.\<close>

definition trading_inv :: "('w \<Rightarrow> u8 list) \<Rightarrow> Trader \<Rightarrow> 'w \<Rightarrow> InternalMessage list \<Rightarrow> Trader \<Rightarrow> 'w \<Rightarrow> bool" where
  "trading_inv out tr0 w0 msgs tr w \<longleftrightarrow>
     sized_refines 1000000 100000 (tr_lob tr) (spec_book 1000000 100000 msgs) \<and>
     2000000 \<le> lob_room (tr_lob tr) + adds msgs \<and>
     (case filter triggers msgs of
        [] \<Rightarrow> tr_engine tr = tr_engine tr0 \<and> w = w0
      | m # ms \<Rightarrow> engine_inv 1 (tr_engine tr) [1000 \<mapsto> fresh_order 1000 (ucast (im_price m)) 100] \<and>
          0 < ems_left (eng_ems (tr_engine tr)) \<and>
          current_position (eng_risk (tr_engine tr)) = - 100 \<and>
          eng_strategies (tr_engine tr) = [MarketMaker (main_mm\<lparr>position_taken := True\<rparr>)] \<and>
          (\<exists>k. out w = out w0 @ take k (order_bytes 1000 (ch (CHR ''S'')) 100 (map ch ''AAPL'') (ucast (im_price m)))))"

lemma start_trader_parts:
  assumes "start_trader mmap_ok tcp = Some tr"
  shows "sized_refines 1000000 100000 (tr_lob tr) []" "lob_room (tr_lob tr) = 2000000"
    "engine_inv 0 (tr_engine tr) Map.empty" "ems_left (eng_ems (tr_engine tr)) = 20000"
    "current_position (eng_risk (tr_engine tr)) = 0" "config (eng_risk (tr_engine tr)) = main_risk_config"
    "order_id_counter (tr_engine tr) = 1000" "eng_strategies (tr_engine tr) = [MarketMaker main_mm]"
    "eng_tcp (tr_engine tr) = tcp"
proof -
  from assms obtain lob ems where
    l: "init_memory_pool mmap_ok 1000000 100000 = Inr lob" "new_ems mmap_ok 10000 = Inr ems"
    and tr: "tr = \<lparr>tr_lob = lob, tr_engine = addStrategy
      (new_strategy_engine ems (new_risk_engine main_risk_config) tcp) (MarketMaker main_mm)\<rparr>"
    unfolding start_trader_def new_market_maker_main by (auto split: sum.splits)
  note I = init_memory_pool_refines [OF l(1)] and E = new_engine_inv [OF l(2), of main_risk_config tcp]
  show "sized_refines 1000000 100000 (tr_lob tr) []" "lob_room (tr_lob tr) = 2000000"
    using I tr by (simp_all add: sized_refines_def)
  show "engine_inv 0 (tr_engine tr) Map.empty" "ems_left (eng_ems (tr_engine tr)) = 20000"
    using E tr by (simp_all add: main_risk_config_def addStrategy_def engine_inv_def)
  show "current_position (eng_risk (tr_engine tr)) = 0" "config (eng_risk (tr_engine tr)) = main_risk_config"
    "order_id_counter (tr_engine tr) = 1000" "eng_strategies (tr_engine tr) = [MarketMaker main_mm]"
    "eng_tcp (tr_engine tr) = tcp"
    using tr by (simp_all add: addStrategy_def new_strategy_engine_def new_risk_engine_def)
qed

lemma process_step:
  assumes start: "start_trader mmap_ok tcp = Some tr0" and sys: "posix_stream sys out"
    and inv: "trading_inv out tr0 w0 msgs tr w" and room: "adds msgs < 2000000"
  shows "\<exists>logs tr' w'. process_msg sys (tr, w) msg = Some (logs, tr', w') \<and>
           trading_inv out tr0 w0 (msgs @ [msg]) tr' w'"
proof -
  note S = start_trader_parts [OF start]
  have "sized_refines 1000000 100000 (tr_lob tr) (spec_book 1000000 100000 msgs)" "0 < lob_room (tr_lob tr)"
    and big: "2000000 \<le> lob_room (tr_lob tr) + adds msgs"
    using inv room by (auto simp: trading_inv_def)
  from apply_to_book_refines [OF this(1,2), of msg] obtain l1 lob where
    B: "apply_to_book (tr_lob tr) msg = Some (l1, lob)"
    "sized_refines 1000000 100000 lob (spec_book 1000000 100000 (msgs @ [msg]))"
    "lob_room (tr_lob tr) \<le> lob_room lob + adds [msg]" by blast
  have room': "2000000 \<le> lob_room lob + adds (msgs @ [msg])" using big B(3) by (simp add: adds_def)
  have *: "\<exists>logs tr' w'. process_msg sys (tr, w) msg = Some (logs, tr', w') \<and>
      trading_inv out tr0 w0 (msgs @ [msg]) tr' w'"
    if "onMarketDataUpdate sys (tr_engine tr) msg w = Some (l2, e', w')"
      "trading_inv out tr0 w0 (msgs @ [msg]) \<lparr>tr_lob = lob, tr_engine = e'\<rparr> w'" for l2 e' w'
    using that B(1) by (simp add: process_msg_def)
  show ?thesis
  proof (cases "filter triggers msgs")
    case (Cons m ms)
    with inv have "eng_strategies (tr_engine tr) = [MarketMaker (main_mm\<lparr>position_taken := True\<rparr>)]"
      by (simp add: trading_inv_def)
    then have "onMarketDataUpdate sys (tr_engine tr) msg w = Some ([], tr_engine tr, w)"
      by (rule market_data_idle) (simp_all add: main_mm_def)
    then show ?thesis by (rule *) (use inv Cons B(2) room' in \<open>simp add: trading_inv_def\<close>)
  next
    case Nil
    with inv have e: "tr_engine tr = tr_engine tr0" "w = w0" by (simp_all add: trading_inv_def)
    show ?thesis
    proof (cases "triggers msg")
      case False
      then have "onMarketDataUpdate sys (tr_engine tr) msg w = Some ([], tr_engine tr, w)"
        using S(8) e by (intro market_data_idle [of _ main_mm]) (simp_all add: main_mm_def)
      then show ?thesis by (rule *) (use e Nil False B(2) room' in \<open>simp add: trading_inv_def\<close>)
    next
      case True
      have "0 < ems_left (eng_ems (tr_engine tr0))" using S(4) by simp
      from market_data_fires [OF S(3) this S(5-8) True sys, of w] e S(4) obtain l2 e' w' k where
        F: "onMarketDataUpdate sys (tr_engine tr) msg w = Some (l2, e', w')"
        "engine_inv 1 e' [1000 \<mapsto> fresh_order 1000 (ucast (im_price msg)) 100]"
        "0 < ems_left (eng_ems e')" "current_position (eng_risk e') = - 100"
        "eng_strategies e' = [MarketMaker (main_mm\<lparr>position_taken := True\<rparr>)]"
        "out w' = out w @ take k (order_bytes 1000 (ch (CHR ''S'')) 100 (map ch ''AAPL'') (ucast (im_price msg)))"
        by (elim exE conjE) simp
      have "trading_inv out tr0 w0 (msgs @ [msg]) \<lparr>tr_lob = lob, tr_engine = e'\<rparr> w'"
        unfolding trading_inv_def using Nil True B(2) room' F e by (auto simp del: list.map)
      from * [OF F(1) this] show ?thesis .
    qed
  qed
qed

lemma process_run:
  assumes start: "start_trader mmap_ok tcp = Some tr0" and sys: "posix_stream sys out"
    and inv: "trading_inv out tr0 w0 pre tr w" and room: "adds (pre @ msgs) < 2000000"
  shows "\<exists>logs tr' w'. run_steps (process_msg sys) (tr, w) msgs = Some (logs, tr', w') \<and>
           trading_inv out tr0 w0 (pre @ msgs) tr' w'"
  using inv room
proof (induction msgs arbitrary: pre tr w)
  case (Cons msg msgs)
  have "adds pre < 2000000" using Cons.prems(2) by (simp add: adds_def)
  from process_step [OF start sys Cons.prems(1) this, of msg] obtain logs tr1 w1 where
    1: "process_msg sys (tr, w) msg = Some (logs, tr1, w1)" "trading_inv out tr0 w0 (pre @ [msg]) tr1 w1" by blast
  with Cons.IH [OF 1(2)] Cons.prems(2) show ?case by auto
qed simp

lemma start_inv:
  assumes "start_trader mmap_ok tcp = Some tr0"
  shows "trading_inv out tr0 w0 [] tr0 w0"
  using start_trader_parts(1,2) [OF assms]
  by (simp add: trading_inv_def spec_book_def book_cmds_def adds_def map_filter_def)

lemma trading_inv_observed:
  assumes start: "start_trader mmap_ok tcp = Some tr0" and inv: "trading_inv out tr0 w0 msgs tr w"
  shows "\<forall>s p. queue_at (tr_lob tr) s p = level_queue (spec_book 1000000 100000 msgs) s p"
    and "case filter triggers msgs of
        [] \<Rightarrow> w = w0 \<and> current_position (eng_risk (tr_engine tr)) = 0 \<and>
              (\<forall>oid. getOrderState (eng_ems (tr_engine tr)) oid = Some NONE)
      | m # ms \<Rightarrow> current_position (eng_risk (tr_engine tr)) = - 100 \<and>
              (\<forall>oid. getOrderState (eng_ems (tr_engine tr)) oid = Some (if oid = 1000 then PENDING_NEW else NONE)) \<and>
              (\<exists>k. out w = out w0 @ take k (order_bytes 1000 (ch (CHR ''S'')) 100 (map ch ''AAPL'') (ucast (im_price m))))"
proof -
  note S = start_trader_parts [OF start]
  show "\<forall>s p. queue_at (tr_lob tr) s p = level_queue (spec_book 1000000 100000 msgs) s p"
    using inv by (auto simp: trading_inv_def sized_refines_def refines_queue)
  show "case filter triggers msgs of
        [] \<Rightarrow> w = w0 \<and> current_position (eng_risk (tr_engine tr)) = 0 \<and>
              (\<forall>oid. getOrderState (eng_ems (tr_engine tr)) oid = Some NONE)
      | m # ms \<Rightarrow> current_position (eng_risk (tr_engine tr)) = - 100 \<and>
              (\<forall>oid. getOrderState (eng_ems (tr_engine tr)) oid = Some (if oid = 1000 then PENDING_NEW else NONE)) \<and>
              (\<exists>k. out w = out w0 @ take k (order_bytes 1000 (ch (CHR ''S'')) 100 (map ch ''AAPL'') (ucast (im_price m))))"
  proof (cases "filter triggers msgs")
    case Nil
    have r: "ems_rel (eng_ems (tr_engine tr0)) Map.empty" using S(3) by (simp add: engine_inv_def)
    from Nil inv have e: "tr_engine tr = tr_engine tr0" "w = w0" by (simp_all add: trading_inv_def)
    with ems_queries(1) [OF r] S(4,5) Nil show ?thesis by simp
  next
    case (Cons m ms)
    from Cons inv have e: "engine_inv 1 (tr_engine tr) [1000 \<mapsto> fresh_order 1000 (ucast (im_price m)) 100]"
      "0 < ems_left (eng_ems (tr_engine tr))" "current_position (eng_risk (tr_engine tr)) = - 100"
      "\<exists>k. out w = out w0 @ take k (order_bytes 1000 (ch (CHR ''S'')) 100 (map ch ''AAPL'') (ucast (im_price m)))"
      unfolding trading_inv_def by simp_all
    have "ems_rel (eng_ems (tr_engine tr)) [1000 \<mapsto> fresh_order 1000 (ucast (im_price m)) 100]"
      using e(1) by (simp add: engine_inv_def)
    from ems_queries(1) [OF this] e Cons show ?thesis by (auto simp: fresh_order_def)
  qed
qed

section \<open>The two threads\<close>

text \<open>
  One step is one datagram callback of the network thread that returns, or one message handled by
  the strategy thread. A callback on a full queue does not return until the strategy thread has
  popped a message. \<open>fed\<close> and \<open>handled\<close> record the messages pushed and popped.
\<close>

record 'w System =
  sys_queue :: "InternalMessage SPSCQueue"
  sys_trader :: Trader
  sys_world :: 'w
  fed :: "InternalMessage list"
  handled :: "InternalMessage list"

definition start_system :: "InternalMessage \<Rightarrow> Trader \<Rightarrow> 'w \<Rightarrow> 'w System" where
  "start_system junk tr w = \<lparr>sys_queue = new_queue QUEUE_CAPACITY junk, sys_trader = tr, sys_world = w,
     fed = [], handled = []\<rparr>"

inductive system_step :: "'w sys_send \<Rightarrow> 'w System \<Rightarrow> 'w System \<Rightarrow> bool" for sys where
  network: "decode_datagram junk d = Some (m, logs) \<Longrightarrow> on_datagram junk d (sys_queue s) = Some (logs, q') \<Longrightarrow>
    system_step sys s (s\<lparr>sys_queue := q', fed := fed s @ (case m of None \<Rightarrow> [] | Some x \<Rightarrow> [x])\<rparr>)"
| strategy: "pop QUEUE_CAPACITY (sys_queue s) = Some (Some msg, q') \<Longrightarrow>
    process_msg sys (sys_trader s, sys_world s) msg = Some (logs, tr', w') \<Longrightarrow>
    system_step sys s (s\<lparr>sys_queue := q', sys_trader := tr', sys_world := w', handled := handled s @ [msg]\<rparr>)"

lemma decode_datagram_returns: "\<exists>m logs. decode_datagram junk d = Some (m, logs)"
proof (cases "take 2048 d")
  case Nil
  then show ?thesis by (simp add: decode_datagram_def)
next
  case (Cons b bs)
  let ?b = "take 2048 d"
  have "\<exists>r. parse ?b (length ?b) junk = Some r"
    using Cons parse_known [of "length ?b" ?b] parse_unknown [of "length ?b" ?b]
    by (cases "message_size (?b ! 0)") auto
  then show ?thesis by (auto simp: decode_datagram_def Let_def)
qed

definition system_inv :: "('w \<Rightarrow> u8 list) \<Rightarrow> Trader \<Rightarrow> 'w \<Rightarrow> 'w System \<Rightarrow> bool" where
  "system_inv out tr0 w0 s \<longleftrightarrow> queue_inv QUEUE_CAPACITY (sys_queue s) \<and>
     fed s = handled s @ contents (sys_queue s) \<and>
     (adds (handled s) < 2000000 \<longrightarrow> trading_inv out tr0 w0 (handled s) (sys_trader s) (sys_world s))"

lemma system_inv_step:
  assumes start: "start_trader mmap_ok tcp = Some tr0" and sys: "posix_stream sys out"
    and inv: "system_inv out tr0 w0 s" and step: "system_step sys s s'"
  shows "system_inv out tr0 w0 s'"
  using step
proof cases
  case (network junk d m logs q')
  then show ?thesis
    using inv push_spin_returns [of QUEUE_CAPACITY _ "sys_queue s" q']
    by (cases m) (auto simp: system_inv_def on_datagram_def bind_eq_Some_conv)
next
  case (strategy msg q' logs tr' w')
  have q: "queue_inv QUEUE_CAPACITY (sys_queue s)" using inv by (simp add: system_inv_def)
  obtain xs where xs: "contents (sys_queue s) = msg # xs" "queue_inv QUEUE_CAPACITY q'" "contents q' = xs"
  proof (cases "contents (sys_queue s)")
    case Nil
    with spsc.deq_Nil [OF q] strategy(2) show ?thesis by simp
  next
    case (Cons x xs)
    with spsc.deq_Cons [OF q] strategy(2) that show ?thesis by fastforce
  qed
  have "trading_inv out tr0 w0 (handled s @ [msg]) tr' w'" if "adds (handled s @ [msg]) < 2000000"
  proof -
    have a: "adds (handled s) < 2000000" using that by (simp add: adds_def)
    with inv have "trading_inv out tr0 w0 (handled s) (sys_trader s) (sys_world s)" by (simp add: system_inv_def)
    from process_step [OF start sys this a, of msg] strategy(3) show ?thesis by auto
  qed
  with inv xs strategy(1) show ?thesis by (simp add: system_inv_def)
qed

lemma system_inv_run:
  assumes "start_trader mmap_ok tcp = Some tr0" "posix_stream sys out"
    and "(system_step sys)\<^sup>*\<^sup>* (start_system junk tr0 w0) s"
  shows "system_inv out tr0 w0 s"
  using assms(3)
proof induction
  case base
  have "QUEUE_CAPACITY \<noteq> 0" by (simp add: QUEUE_CAPACITY_def)
  from new_queue_inv [OF this, of junk] start_inv [OF assms(1), of out w0] show ?case
    by (simp add: system_inv_def start_system_def)
next
  case (step s s')
  then show ?case using system_inv_step [OF assms(1,2)] by blast
qed

text \<open>The strategy thread can always handle the next message, and so empty the queue.\<close>

lemma strategy_enabled:
  assumes start: "start_trader mmap_ok tcp = Some tr0" and sys: "posix_stream sys out"
    and inv: "system_inv out tr0 w0 s" and room: "adds (handled s) < 2000000"
    and ne: "contents (sys_queue s) = msg # rest"
  shows "\<exists>s'. system_step sys s s' \<and> fed s' = fed s \<and> contents (sys_queue s') = rest"
proof -
  have q: "queue_inv QUEUE_CAPACITY (sys_queue s)"
    and t: "trading_inv out tr0 w0 (handled s) (sys_trader s) (sys_world s)"
    using inv room by (auto simp: system_inv_def)
  from spsc.deq_Cons [OF q ne] obtain q' where
    q': "pop QUEUE_CAPACITY (sys_queue s) = Some (Some msg, q')" "contents q' = rest" by blast
  from process_step [OF start sys t room, of msg] obtain logs tr' w' where
    p: "process_msg sys (sys_trader s, sys_world s) msg = Some (logs, tr', w')" by blast
  from system_step.strategy [OF q'(1) p] q'(2) show ?thesis
    by (intro exI [of _ "s\<lparr>sys_queue := q', sys_trader := tr', sys_world := w', handled := handled s @ [msg]\<rparr>"]) simp
qed

lemma strategy_drains:
  assumes start: "start_trader mmap_ok tcp = Some tr0" and sys: "posix_stream sys out"
  shows "system_inv out tr0 w0 s \<Longrightarrow> adds (fed s) < 2000000 \<Longrightarrow>
    \<exists>s'. (system_step sys)\<^sup>*\<^sup>* s s' \<and> fed s' = fed s \<and> contents (sys_queue s') = [] \<and> system_inv out tr0 w0 s'"
proof (induction "contents (sys_queue s)" arbitrary: s)
  case Nil
  then show ?case by (intro exI [of _ s]) simp
next
  case (Cons msg rest)
  have "adds (handled s) < 2000000" using Cons.prems by (simp add: system_inv_def adds_def)
  from strategy_enabled [OF start sys Cons.prems(1) this Cons.hyps(2) [symmetric]] obtain s1 where
    s1: "system_step sys s s1" "fed s1 = fed s" "contents (sys_queue s1) = rest" by blast
  have i1: "system_inv out tr0 w0 s1" by (rule system_inv_step [OF start sys Cons.prems(1) s1(1)])
  have "adds (fed s1) < 2000000" using Cons.prems(2) s1(2) by simp
  from Cons.hyps(1) [OF s1(3) [symmetric] i1 this] obtain s' where
    s': "(system_step sys)\<^sup>*\<^sup>* s1 s'" "fed s' = fed s1" "contents (sys_queue s') = []" "system_inv out tr0 w0 s'"
    by blast
  have "(system_step sys)\<^sup>*\<^sup>* s s'" by (rule converse_rtranclp_into_rtranclp [of "system_step sys", OF s1(1) s'(1)])
  with s' s1(2) show ?case by (intro exI [of _ s']) simp
qed

section \<open>Properties\<close>


lemma start_exists: "\<exists>tr. start_trader (\<lambda>_. True) tcp = Some tr"
  by (auto simp: start_trader_def new_market_maker_main [simplified] init_memory_pool_def layout_fits_def new_ems_def
      Let_def split: prod.splits)


text \<open>
  C28. A partial cancel leaves the cancelled quantity instead of the rest: after an add of \<open>q\<close> shares
  and a cancel message for \<open>c\<close> of them, with \<open>c\<close> between one and \<open>q\<close>, the order rests in the book
  with \<open>c\<close> shares, while the message means that \<open>q - c\<close> shares remain.
\<close>

theorem partial_cancel_keeps_cancelled:
  assumes "start_trader mmap_ok tcp = Some tr0" "posix_stream sys out"
    and "im_type m1 = ch (CHR ''A'')" "unat (im_price m1) < 100000" "im_type m2 = ch (CHR ''X'')" "im_id m2 = im_id m1"
    and "0 < im_quantity m2" "im_quantity m2 \<le> im_quantity m1"
  shows "\<exists>logs tr w. run_steps (process_msg sys) (tr0, w0) [m1, m2] = Some (logs, tr, w) \<and>
    queue_at (tr_lob tr) (im_side m1) (im_price m1) = [(im_id m1, im_quantity m2)]"
proof -
  have "ch (CHR ''A'') \<noteq> ch (CHR ''X'')" "ch (CHR ''X'') \<noteq> ch (CHR ''D'')" by (simp_all add: ch_def)
  note ne = this
  have "adds [m1, m2] < 2000000" using assms(3,5) by (simp add: adds_def)
  then have a: "adds ([] @ [m1, m2]) < 2000000" by simp
  from process_run [OF assms(1,2) start_inv [OF assms(1), of out w0] a] obtain logs tr w where
    r: "run_steps (process_msg sys) (tr0, w0) [m1, m2] = Some (logs, tr, w)" "trading_inv out tr0 w0 [m1, m2] tr w"
    by auto
  have "spec_book 1000000 100000 [m1, m2] =
      [\<lparr>r_id = im_id m1, r_side = im_side m1, r_price = im_price m1, r_quantity = im_quantity m2\<rparr>]"
    using assms(3-8) ne
    by (auto simp: spec_book_def book_cmds_def map_filter_def book_cmd_of_def spec_add_def spec_modify_def
        spec_find_def not_less)
  with trading_inv_observed(1) [OF assms(1) r(2)] r(1) show ?thesis by auto
qed

theorem partial_cancel_keeps_cancelled_witness:
  "\<exists>tr0 logs tr w. start_trader (\<lambda>_. True) (new_gateway_fd 7) = Some tr0 \<and>
     run_steps (process_msg scripted) (tr0, ([], []))
       [\<lparr>im_type = ch (CHR ''A''), im_id = 1, im_price = 100, im_quantity = 1000, im_side = SELL\<rparr>,
        \<lparr>im_type = ch (CHR ''X''), im_id = 1, im_price = 0, im_quantity = 10, im_side = BUY\<rparr>] = Some (logs, tr, w) \<and>
     queue_at (tr_lob tr) SELL 100 = [(1, 10)]"
proof -
  obtain tr0 where s: "start_trader (\<lambda>_. True) (new_gateway_fd 7) = Some tr0" using start_exists by blast
  from partial_cancel_keeps_cancelled [OF s scripted_posix,
      of "\<lparr>im_type = ch (CHR ''A''), im_id = 1, im_price = 100, im_quantity = 1000, im_side = SELL\<rparr>"
         "\<lparr>im_type = ch (CHR ''X''), im_id = 1, im_price = 0, im_quantity = 10, im_side = BUY\<rparr>" "([], [])"] s
  show ?thesis by auto
qed

end
