(* ===== verification/Async_Logger.thy ===== *)
theory Async_Logger
  imports Printf SPSC_Queue
begin

text \<open>
  The asynchronous logger of \<open>AsyncLogger.hpp\<close>/\<open>.cpp\<close>: messages formatted into fixed-size records,
  one ring buffer per registered thread, and a background thread that appends the messages to a
  memory-mapped file it doubles when the file is full. The results of the system calls are
  arguments; the state holds the bytes of the file, which the shared mapping shows.
\<close>

section \<open>Messages\<close>

definition MAX_LOG_PAYLOAD :: nat where
  "MAX_LOG_PAYLOAD = 240"

definition LOG_QUEUE_CAPACITY :: u64 where
  "LOG_QUEUE_CAPACITY = 1024"

record LogMessage =
  lm_timestamp :: u64
  lm_level :: LogLevel
  lm_thread_id :: u32
  lm_length :: u32
  lm_payload :: "u8 list"

definition levelToString :: "LogLevel \<Rightarrow> string" where
  "levelToString level = (case level of INFO \<Rightarrow> ''INFO'' | WARN \<Rightarrow> ''WARN'' | ERROR \<Rightarrow> ''ERROR'' | FATAL \<Rightarrow> ''FATAL'')"

definition payload_length :: "int \<Rightarrow> u32" where
  "payload_length len =
    (if len < 0 then 0
     else if int MAX_LOG_PAYLOAD \<le> len then of_nat (MAX_LOG_PAYLOAD - 1)
     else of_int len)"

text \<open>The message a call of \<open>log\<close> builds, with the value \<open>tsc\<close> of the time stamp counter.\<close>

definition make_message :: "(nat \<Rightarrow> u8) \<Rightarrow> u64 \<Rightarrow> u32 \<Rightarrow> log_call \<Rightarrow> LogMessage option" where
  "make_message junk tsc tid call = do {
     (len, payload) \<leftarrow> vsnprintf (uninit junk MAX_LOG_PAYLOAD) MAX_LOG_PAYLOAD (lc_format call) (lc_args call);
     Some \<lparr>lm_timestamp = tsc, lm_level = lc_level call, lm_thread_id = tid,
           lm_length = payload_length len, lm_payload = payload\<rparr> }"

section \<open>The logger object\<close>

record ThreadQueue =
  tq_thread_id :: u32
  tq_queue :: "LogMessage SPSCQueue"

record AsyncLogger =
  lg_filepath :: string
  lg_fd :: int
  lg_mmap_size :: u64
  lg_current_offset :: u64
  lg_mapped :: bool
  lg_running :: bool
  lg_queues :: "ThreadQueue list"
  lg_file :: "u8 list"

text \<open>
  The thread-local members. The pointer to a thread's queue is the index of the queue in
  \<open>thread_queues_\<close>, which only grows.
\<close>

record ThreadLocal =
  local_queue :: ptr
  local_thread_id :: u32

definition new_logger :: AsyncLogger where
  "new_logger = \<lparr>lg_filepath = [], lg_fd = -1, lg_mmap_size = 0, lg_current_offset = 0,
     lg_mapped = False, lg_running = False, lg_queues = [], lg_file = []\<rparr>"

definition new_thread_local :: ThreadLocal where
  "new_thread_local = \<lparr>local_queue = None, local_thread_id = 0\<rparr>"

text \<open>
  \<open>ftruncate\<close> to \<open>n\<close> bytes: it may fail, and always does when \<open>n\<close> is negative as an \<open>off_t\<close>.
\<close>

definition resize_file :: "nat \<Rightarrow> u8 list \<Rightarrow> u8 list" where
  "resize_file n bs = take n bs @ replicate (n - length bs) 0"

definition ftruncate :: "bool \<Rightarrow> u64 \<Rightarrow> u8 list \<Rightarrow> u8 list option" where
  "ftruncate ok n bs = (if ok \<and> unat n < 2 ^ 63 then Some (resize_file (unat n) bs) else None)"

text \<open>
  \<open>init\<close>, with the descriptor \<open>open\<close> returns and the success of \<open>ftruncate\<close> and \<open>mmap\<close>. Opening with
  \<open>O_TRUNC\<close> empties the file. The background thread starts when \<open>running_\<close> is set (below).
\<close>

definition logger_init :: "int \<Rightarrow> bool \<Rightarrow> bool \<Rightarrow> string \<Rightarrow> u64 \<Rightarrow> AsyncLogger \<Rightarrow> AsyncLogger" where
  "logger_init open_fd trunc_ok map_ok path sz lg =
    (if lg_running lg then lg
     else let lg = lg\<lparr>lg_filepath := path, lg_mmap_size := sz, lg_fd := open_fd\<rparr> in
       if open_fd = -1 then lg
       else let lg = lg\<lparr>lg_file := []\<rparr> in
         case ftruncate trunc_ok sz (lg_file lg) of
           None \<Rightarrow> lg\<lparr>lg_fd := -1\<rparr>
         | Some bs \<Rightarrow>
             let lg = lg\<lparr>lg_file := bs, lg_mapped := map_ok\<rparr> in
             if \<not> map_ok then lg\<lparr>lg_fd := -1\<rparr>
             else lg\<lparr>lg_running := True\<rparr>)"

text \<open>
  \<open>shutdown\<close> clears \<open>running_\<close>, waits for the background thread to end, and closes the file. The
  result of the first part is whether the logger was running.
\<close>

definition shutdown_request :: "AsyncLogger \<Rightarrow> bool \<times> AsyncLogger" where
  "shutdown_request lg = (lg_running lg, lg\<lparr>lg_running := False\<rparr>)"

definition shutdown_close :: "bool \<Rightarrow> AsyncLogger \<Rightarrow> AsyncLogger" where
  "shutdown_close trunc_ok lg =
    (if lg_mapped lg
     then lg\<lparr>lg_file := (case ftruncate trunc_ok (lg_current_offset lg) (lg_file lg) of
                          None \<Rightarrow> lg_file lg | Some bs \<Rightarrow> bs),
             lg_mapped := False, lg_fd := -1\<rparr>
     else lg)"

section \<open>Registration and logging\<close>

definition zero_message :: LogMessage where
  "zero_message = \<lparr>lm_timestamp = 0, lm_level = INFO, lm_thread_id = 0, lm_length = 0,
     lm_payload = replicate 240 0\<rparr>"

text \<open>The loop over the registered threads: the index of the first one with the given id.\<close>

fun find_thread :: "u32 \<Rightarrow> nat \<Rightarrow> ThreadQueue list \<Rightarrow> nat option" where
  "find_thread tid i [] = None"
| "find_thread tid i (tq # tqs) = (if tq_thread_id tq = tid then Some i else find_thread tid (Suc i) tqs)"

definition registerThread :: "u32 \<Rightarrow> AsyncLogger \<Rightarrow> AsyncLogger \<times> ThreadLocal" where
  "registerThread tid lg =
    (case find_thread tid 0 (lg_queues lg) of
       Some i \<Rightarrow> (lg, \<lparr>local_queue = Some i, local_thread_id = tid\<rparr>)
     | None \<Rightarrow>
         (lg\<lparr>lg_queues := lg_queues lg @
              [\<lparr>tq_thread_id = tid, tq_queue = new_queue LOG_QUEUE_CAPACITY zero_message\<rparr>]\<rparr>,
          \<lparr>local_queue = Some (length (lg_queues lg)), local_thread_id = tid\<rparr>))"

definition logger_log :: "(nat \<Rightarrow> u8) \<Rightarrow> u64 \<Rightarrow> ThreadLocal \<Rightarrow> log_call \<Rightarrow> AsyncLogger \<Rightarrow> AsyncLogger option" where
  "logger_log junk tsc loc call lg =
    (case local_queue loc of
       None \<Rightarrow> Some lg
     | Some k \<Rightarrow> do {
         msg \<leftarrow> make_message junk tsc (local_thread_id loc) call;
         tq \<leftarrow> aread (lg_queues lg) k;
         q \<leftarrow> push_spin LOG_QUEUE_CAPACITY msg (tq_queue tq);
         tqs \<leftarrow> awrite (lg_queues lg) k (tq\<lparr>tq_queue := q\<rparr>);
         Some (lg\<lparr>lg_queues := tqs\<rparr>) })"

section \<open>Writing the file\<close>

definition resizeMmap :: "bool \<Rightarrow> bool \<Rightarrow> AsyncLogger \<Rightarrow> AsyncLogger" where
  "resizeMmap trunc_ok remap_ok lg =
    (let new_size = lg_mmap_size lg * 2 in
     case ftruncate trunc_ok new_size (lg_file lg) of
       None \<Rightarrow> lg
     | Some bs \<Rightarrow>
         if \<not> remap_ok then lg\<lparr>lg_file := bs\<rparr>
         else lg\<lparr>lg_file := bs, lg_mmap_size := new_size\<rparr>)"

definition line_format :: string where
  "line_format = ''[%lu] [T:%u] [%s] %s'' @ [CHR 0x0A]"

text \<open>Copying \<open>n\<close> bytes of \<open>src\<close> to the mapped file at \<open>off\<close>.\<close>

definition file_write :: "u8 list \<Rightarrow> nat \<Rightarrow> u8 list \<Rightarrow> nat \<Rightarrow> u8 list option" where
  "file_write file off src n = map_option ((@) (take off file)) (memcpy (drop off file) src n)"

definition writeToFile :: "bool \<Rightarrow> bool \<Rightarrow> (nat \<Rightarrow> u8) \<Rightarrow> LogMessage \<Rightarrow> AsyncLogger \<Rightarrow> AsyncLogger option" where
  "writeToFile trunc_ok remap_ok junk msg lg = do {
     (len, buffer) \<leftarrow> vsnprintf (uninit junk 512) 512 line_format
       [ArgU (unat (lm_timestamp msg)), ArgU (unat (lm_thread_id msg)),
        ArgS (levelToString (lm_level msg)), ArgB (lm_payload msg)];
     if len < 0 then Some lg
     else do {
       let n = (of_int len :: u64);
       let lg = (if lg_mmap_size lg < lg_current_offset lg + n
                 then resizeMmap trunc_ok remap_ok lg else lg);
       if lg_mapped lg \<and> lg_current_offset lg + n \<le> lg_mmap_size lg then do {
         bs \<leftarrow> file_write (lg_file lg) (unat (lg_current_offset lg)) buffer (unat n);
         Some (lg\<lparr>lg_file := bs, lg_current_offset := lg_current_offset lg + n\<rparr>) }
       else Some lg } }"

section \<open>The background thread\<close>

text \<open>
  Its program counter: before the loop condition, before the list of queues is brought up to date,
  polling the given queues, after the poll, ended.
\<close>

datatype bg_pc = BG_While | BG_Update | BG_Poll "nat list" | BG_End | BG_Exit

record Background =
  bg_at :: bg_pc
  active_queues :: "nat list"
  bg_idle :: bool

definition new_background :: Background where
  "new_background = \<lparr>bg_at = BG_While, active_queues = [], bg_idle = True\<rparr>"

text \<open>One step of \<open>backgroundThreadFunc\<close>; a popped message is written in the same step.\<close>

definition bg_step :: "bool \<Rightarrow> bool \<Rightarrow> (nat \<Rightarrow> u8) \<Rightarrow> AsyncLogger \<Rightarrow> Background \<Rightarrow> (AsyncLogger \<times> Background) option" where
  "bg_step trunc_ok remap_ok junk lg bg =
    (case bg_at bg of
       BG_While \<Rightarrow>
         if lg_running lg \<or> active_queues bg \<noteq> [] then Some (lg, bg\<lparr>bg_idle := True, bg_at := BG_Update\<rparr>)
         else Some (lg, bg\<lparr>bg_at := BG_Exit\<rparr>)
     | BG_Update \<Rightarrow>
         let active = (if length (active_queues bg) \<noteq> length (lg_queues lg)
                       then [0..<length (lg_queues lg)] else active_queues bg)
         in Some (lg, bg\<lparr>active_queues := active, bg_at := BG_Poll active\<rparr>)
     | BG_Poll [] \<Rightarrow> Some (lg, bg\<lparr>bg_at := BG_End\<rparr>)
     | BG_Poll (k # ks) \<Rightarrow> do {
         tq \<leftarrow> aread (lg_queues lg) k;
         (r, q) \<leftarrow> pop LOG_QUEUE_CAPACITY (tq_queue tq);
         case r of
           None \<Rightarrow> Some (lg, bg\<lparr>bg_at := BG_Poll ks\<rparr>)
         | Some msg \<Rightarrow> do {
             tqs \<leftarrow> awrite (lg_queues lg) k (tq\<lparr>tq_queue := q\<rparr>);
             lg \<leftarrow> writeToFile trunc_ok remap_ok junk msg (lg\<lparr>lg_queues := tqs\<rparr>);
             Some (lg, bg\<lparr>bg_idle := False\<rparr>) } }
     | BG_End \<Rightarrow>
         if \<not> lg_running lg \<and> bg_idle bg then Some (lg, bg\<lparr>bg_at := BG_Exit\<rparr>)
         else Some (lg, bg\<lparr>bg_at := BG_While\<rparr>)
     | BG_Exit \<Rightarrow> Some (lg, bg))"

section \<open>The text of a message\<close>

definition msg_ok :: "LogMessage \<Rightarrow> bool" where
  "msg_ok m \<longleftrightarrow> length (lm_payload m) = MAX_LOG_PAYLOAD \<and> 0 \<in> set (lm_payload m)"

definition msg_text :: "LogMessage \<Rightarrow> u8 list" where
  "msg_text m = takeWhile (\<lambda>b. b \<noteq> 0) (lm_payload m)"

text \<open>The line of a message in the file.\<close>

definition msg_line :: "LogMessage \<Rightarrow> u8 list" where
  "msg_line m = map ch ''['' @ dec_digits (unat (lm_timestamp m)) @ map ch ''] [T:'' @
     dec_digits (unat (lm_thread_id m)) @ map ch ''] ['' @ map ch (levelToString (lm_level m)) @
     map ch ''] '' @ msg_text m @ [10]"

lemma ch_newline [simp]: "ch (CHR 0x0A) = 10"
  by (simp add: ch_def)

lemma length_level: "length (levelToString l) \<le> 5"
  by (cases l) (simp_all add: levelToString_def)

lemma ctext_level: "ctext (Some (map ch (levelToString l) @ [0])) = Some (map ch (levelToString l))"
  by (rule ctext_terminated) (cases l; simp add: levelToString_def ch_def)

lemma line_text:
  assumes "msg_ok m"
  shows "printf_text line_format [ArgU (unat (lm_timestamp m)), ArgU (unat (lm_thread_id m)),
      ArgS (levelToString (lm_level m)), ArgB (lm_payload m)] = Some (msg_line m)"
  using assms ctext_level [of "lm_level m"] ctext_takeWhile [of "lm_payload m"]
  by (simp add: line_format_def conversion_def msg_ok_def msg_line_def msg_text_def)

lemma length_msg_line:
  assumes "msg_ok m"
  shows "length (msg_line m) \<le> 286" "0 < length (msg_line m)"
proof -
  have "length (dec_digits (unat (lm_timestamp m))) \<le> 20"
    using unsigned_less [of "lm_timestamp m", where ?'a = nat] by (intro length_dec_digits) simp_all
  moreover have "length (dec_digits (unat (lm_thread_id m))) \<le> 10"
    using unsigned_less [of "lm_thread_id m", where ?'a = nat] by (intro length_dec_digits) simp_all
  moreover have "length (msg_text m) \<le> 239"
  proof -
    have "msg_text m \<noteq> lm_payload m"
      using assms by (auto simp: msg_text_def msg_ok_def takeWhile_eq_all_conv)
    then have "length (msg_text m) < length (lm_payload m)"
      unfolding msg_text_def by (metis length_takeWhile_le nat_less_le takeWhile_eq_take take_all order_refl)
    then show ?thesis using assms by (simp add: msg_ok_def MAX_LOG_PAYLOAD_def)
  qed
  ultimately show "length (msg_line m) \<le> 286" "0 < length (msg_line m)"
    using length_level [of "lm_level m"] by (simp_all add: msg_line_def)
qed

lemma make_message_eq:
  assumes "printf_text (lc_format c) (lc_args c) = Some t" "length t < 2 ^ 31"
  shows "\<exists>m. make_message junk tsc tid c = Some m \<and> msg_ok m \<and>
    msg_text m = takeWhile (\<lambda>b. b \<noteq> 0) (take 239 t) \<and> unat (lm_length m) = min (length t) 239 \<and>
    lm_timestamp m = tsc \<and> lm_level m = lc_level c \<and> lm_thread_id m = tid"
proof -
  let ?r = "drop (min (length t) 239 + 1) (uninit junk 240)"
  have v: "vsnprintf (uninit junk 240) 240 (lc_format c) (lc_args c) = Some (int (length t), take 239 t @ [0] @ ?r)"
    using vsnprintf_eq [OF assms, of 240 "uninit junk 240"] by (simp add: uninit_def)
  have "unat (payload_length (int (length t))) = min (length t) 239"
    by (auto simp: payload_length_def MAX_LOG_PAYLOAD_def unat_of_nat take_bit_eq_mod min_def)
  moreover have "takeWhile (\<lambda>b. b \<noteq> 0) (take 239 t @ [0] @ ?r) = takeWhile (\<lambda>b. b \<noteq> 0) (take 239 t)"
    by (simp add: takeWhile_tail)
  moreover have "length (take 239 t @ [0] @ ?r) = 240" by (simp add: uninit_def)
  ultimately show ?thesis using v
    by (simp add: make_message_def MAX_LOG_PAYLOAD_def msg_ok_def msg_text_def)
qed

section \<open>The mapped file\<close>

text \<open>
  The file while it is mapped: the mapping lies within the file, and the bytes before the offset
  are \<open>bs\<close>.
\<close>

definition file_ok :: "AsyncLogger \<Rightarrow> u8 list \<Rightarrow> bool" where
  "file_ok lg bs \<longleftrightarrow> lg_current_offset lg \<le> lg_mmap_size lg \<and>
     unat (lg_mmap_size lg) \<le> length (lg_file lg) \<and> unat (lg_mmap_size lg) < 2 ^ 63 \<and>
     length bs = unat (lg_current_offset lg) \<and> take (unat (lg_current_offset lg)) (lg_file lg) = bs"

lemma file_ok_frame [simp]:
  "file_ok (lg\<lparr>lg_queues := qs\<rparr>) bs = file_ok lg bs" "file_ok (lg\<lparr>lg_running := b\<rparr>) bs = file_ok lg bs"
  by (simp_all add: file_ok_def)

lemma file_write_eq:
  assumes "off + n \<le> length f" "n \<le> length src"
  shows "file_write f off src n = Some (take off f @ take n src @ drop (off + n) f)"
  using assms by (simp add: file_write_def memcpy_def add.commute)

lemma unat_double: "unat (x :: u64) < 2 ^ 63 \<Longrightarrow> unat (x * 2) = 2 * unat x"
  by (simp add: unat_word_ariths take_bit_eq_mod)

lemma resizeMmap_keeps [frame]:
  "lg_queues (resizeMmap t r lg) = lg_queues lg" "lg_running (resizeMmap t r lg) = lg_running lg"
  "lg_mapped (resizeMmap t r lg) = lg_mapped lg" "lg_filepath (resizeMmap t r lg) = lg_filepath lg"
  "lg_current_offset (resizeMmap t r lg) = lg_current_offset lg" "lg_fd (resizeMmap t r lg) = lg_fd lg"
  by (simp_all add: resizeMmap_def Let_def split: option.splits)

lemma resizeMmap_ok:
  assumes "file_ok lg bs"
  shows "file_ok (resizeMmap t r lg) bs" "lg_mmap_size lg \<le> lg_mmap_size (resizeMmap t r lg)"
    and "t \<Longrightarrow> r \<Longrightarrow> unat (lg_mmap_size lg) < 2 ^ 62 \<Longrightarrow>
      unat (lg_mmap_size (resizeMmap t r lg)) = 2 * unat (lg_mmap_size lg)"
proof -
  let ?m = "unat (lg_mmap_size lg)"
  have d: "unat (lg_mmap_size lg * 2) = 2 * ?m" using assms by (intro unat_double) (simp add: file_ok_def)
  have o: "unat (lg_current_offset lg) \<le> ?m" "?m \<le> length (lg_file lg)"
    using assms by (simp_all add: file_ok_def word_le_nat_alt)
  then show "file_ok (resizeMmap t r lg) bs" using assms d
    by (auto simp: file_ok_def resizeMmap_def ftruncate_def resize_file_def Let_def min_def word_le_nat_alt)
  show "lg_mmap_size lg \<le> lg_mmap_size (resizeMmap t r lg)" using d
    by (auto simp: resizeMmap_def ftruncate_def Let_def word_le_nat_alt)
  show "unat (lg_mmap_size (resizeMmap t r lg)) = 2 * ?m" if "t" "r" "?m < 2 ^ 62"
    using that d by (simp add: resizeMmap_def ftruncate_def Let_def)
qed

definition no_room :: "bool \<Rightarrow> bool \<Rightarrow> AsyncLogger \<Rightarrow> bool" where
  "no_room t r lg \<longleftrightarrow> unat (lg_mmap_size lg) < unat (lg_current_offset lg) + 286 \<and>
     \<not> (t \<and> r \<and> 286 \<le> unat (lg_mmap_size lg) \<and> unat (lg_current_offset lg) + 286 < 2 ^ 62)"

text \<open>
  Writing a message appends its line or, when there is no room even after the attempt to double
  the file, changes nothing; with a mapping of at least 286 bytes and system calls that succeed
  there is room.
\<close>

lemma writeToFile_cases:
  assumes ok: "file_ok lg bs" and m: "msg_ok msg" "lg_mapped lg"
  shows "\<exists>lg'. writeToFile t r junk msg lg = Some lg' \<and> lg_queues lg' = lg_queues lg \<and>
      lg_running lg' = lg_running lg \<and> lg_mapped lg' \<and> lg_mmap_size lg \<le> lg_mmap_size lg' \<and>
      (lg_current_offset lg' \<noteq> lg_current_offset lg \<and> file_ok lg' (bs @ msg_line msg) \<or>
       lg_current_offset lg' = lg_current_offset lg \<and> file_ok lg' bs \<and>
       no_room t r lg)"
proof -
  let ?l = "msg_line msg" and ?n = "of_nat (length (msg_line msg)) :: u64"
  note len = length_msg_line [OF m(1)]
  have n: "unat ?n = length ?l" using len by (simp add: unat_of_nat take_bit_eq_mod)
  let ?b = "?l @ [0] @ drop (length ?l + 1) (uninit junk 512)"
  have v: "vsnprintf (uninit junk 512) 512 line_format
      [ArgU (unat (lm_timestamp msg)), ArgU (unat (lm_thread_id msg)),
       ArgS (levelToString (lm_level msg)), ArgB (lm_payload msg)] = Some (int (length ?l), ?b)"
    using vsnprintf_eq [OF line_text [OF m(1)], of 512 "uninit junk 512"] len
    by (simp add: uninit_def min_def)
  define lg1 where "lg1 = (if lg_mmap_size lg < lg_current_offset lg + ?n then resizeMmap t r lg else lg)"
  have ok1: "file_ok lg1 bs" "lg_mmap_size lg \<le> lg_mmap_size lg1" "lg_queues lg1 = lg_queues lg" "lg_running lg1 = lg_running lg" "lg_mapped lg1"
      "lg_current_offset lg1 = lg_current_offset lg"
    using ok m(2) resizeMmap_ok [OF ok, of t r] by (simp_all add: lg1_def frame)
  have o: "unat (lg_current_offset lg) < 2 ^ 63" using ok by (simp add: file_ok_def word_le_nat_alt)
  then have on: "unat (lg_current_offset lg + ?n) = unat (lg_current_offset lg) + length ?l"
    using n len by (simp add: unat_word_ariths take_bit_eq_mod)
  have w: "writeToFile t r junk msg lg = (if lg_current_offset lg1 + ?n \<le> lg_mmap_size lg1 then do {
      f \<leftarrow> file_write (lg_file lg1) (unat (lg_current_offset lg1)) ?b (unat ?n);
      Some (lg1\<lparr>lg_file := f, lg_current_offset := lg_current_offset lg1 + ?n\<rparr>) } else Some lg1)"
    unfolding writeToFile_def v using ok1(5) by (simp add: lg1_def Let_def)
  show ?thesis
  proof (cases "lg_current_offset lg1 + ?n \<le> lg_mmap_size lg1")
    case True
    then have fits: "unat (lg_current_offset lg) + length ?l \<le> unat (lg_mmap_size lg1)"
      "unat (lg_mmap_size lg1) \<le> length (lg_file lg1)"
      using on ok1 by (simp_all add: word_le_nat_alt file_ok_def)
    let ?f = "take (unat (lg_current_offset lg)) (lg_file lg1) @ ?l @ drop (unat (lg_current_offset lg) + length ?l) (lg_file lg1)"
    have "file_write (lg_file lg1) (unat (lg_current_offset lg1)) ?b (unat ?n) = Some ?f"
      using fits n ok1(6) by (simp add: file_write_eq)
    moreover have "file_ok (lg1\<lparr>lg_file := ?f, lg_current_offset := lg_current_offset lg1 + ?n\<rparr>) (bs @ msg_line msg)"
      using ok1(1) True fits on ok1(6) by (simp add: file_ok_def min.absorb2)
    moreover have "lg_current_offset lg1 + ?n \<noteq> lg_current_offset lg"
      using on len(2) ok1(6) by (metis add_cancel_right_right less_numeral_extra(3))
    ultimately show ?thesis using w True ok1 by simp
  next
    case False
    have "\<not> (t \<and> r \<and> 286 \<le> unat (lg_mmap_size lg) \<and> unat (lg_current_offset lg) + 286 < 2 ^ 62)"
    proof
      assume a: "t \<and> r \<and> 286 \<le> unat (lg_mmap_size lg) \<and> unat (lg_current_offset lg) + 286 < 2 ^ 62"
      have lt: "unat (lg_mmap_size lg) < unat (lg_current_offset lg) + length ?l"
      proof (rule ccontr)
        assume "\<not> ?thesis"
        then have "lg1 = lg" by (simp add: lg1_def word_less_nat_alt on)
        with \<open>\<not> ?thesis\<close> False on show False by (simp add: word_le_nat_alt)
      qed
      then have "lg1 = resizeMmap t r lg" by (simp add: lg1_def word_less_nat_alt on)
      moreover have "unat (lg_mmap_size lg) < 2 ^ 62" using lt a len by simp
      ultimately have "unat (lg_mmap_size lg1) = 2 * unat (lg_mmap_size lg)"
        using resizeMmap_ok(3) [OF ok, of t r] a by simp
      moreover have "unat (lg_current_offset lg) \<le> unat (lg_mmap_size lg)"
        using ok by (simp add: file_ok_def word_le_nat_alt)
      ultimately show False using False a len on ok1(6) by (simp add: word_le_nat_alt)
    qed
    moreover have "unat (lg_mmap_size lg) < unat (lg_current_offset lg) + 286"
      using False on ok1(2,6) len(1) by (simp add: word_le_nat_alt)
    ultimately show ?thesis using False w ok1 by (simp add: no_room_def)
  qed
qed

end
