(* ===== verification/Logger_Threads.thy ===== *)
theory Logger_Threads
  imports Async_Logger "HOL-Library.Sublist"
begin

text \<open>
  The logger in a program of many threads: any number of threads register and log, the background
  thread writes the file, and one thread calls \<open>shutdown\<close>. A step is an operation on a ring
  buffer or on the members guarded by the mutex; pushes and pops are atomic (see
  \<open>SPSC_Concurrent\<close> for their implementation by single memory accesses).
\<close>

section \<open>The threads\<close>

text \<open>
  The ghost components record the messages pushed and popped, each with the index of its ring, and
  the messages written to the file.
\<close>

record logger_system =
  ls_log :: AsyncLogger
  ls_bg :: Background
  ls_tls :: "nat \<Rightarrow> ThreadLocal"
  ls_sent :: "(nat \<times> LogMessage) list"
  ls_taken :: "(nat \<times> LogMessage) list"
  ls_written :: "LogMessage list"

abbreviation ring :: "AsyncLogger \<Rightarrow> nat \<Rightarrow> LogMessage SPSCQueue" where
  "ring lg k \<equiv> tq_queue (lg_queues lg ! k)"

text \<open>The message a step of the background thread pops, with its ring.\<close>

definition bg_takes :: "AsyncLogger \<Rightarrow> Background \<Rightarrow> (nat \<times> LogMessage) list" where
  "bg_takes lg bg = (case bg_at bg of
     BG_Poll (k # ks) \<Rightarrow> map (Pair k) (take 1 (contents (ring lg k)))
   | _ \<Rightarrow> [])"

text \<open>
  The steps, where \<open>F\<close> is the set of possible outcomes of \<open>ftruncate\<close> and \<open>mremap\<close>. A call whose
  text has no defined value or is longer than an \<open>int\<close> can count does not occur.
\<close>

inductive logger_step :: "(bool \<times> bool) set \<Rightarrow> logger_system \<Rightarrow> logger_system \<Rightarrow> bool" for F where
  step_register: "registerThread tid (ls_log s) = (lg, loc) \<Longrightarrow>
    logger_step F s (s\<lparr>ls_log := lg, ls_tls := (ls_tls s)(t := loc)\<rparr>)"
| step_log: "local_queue (ls_tls s t) = Some k \<Longrightarrow>
    printf_text (lc_format call) (lc_args call) = Some tx \<Longrightarrow> length tx < 2 ^ 31 \<Longrightarrow>
    make_message junk tsc (local_thread_id (ls_tls s t)) call = Some msg \<Longrightarrow>
    logger_log junk tsc (ls_tls s t) call (ls_log s) = Some lg \<Longrightarrow>
    logger_step F s (s\<lparr>ls_log := lg, ls_sent := ls_sent s @ [(k, msg)]\<rparr>)"
| step_background: "bg_at (ls_bg s) \<noteq> BG_Exit \<Longrightarrow> (trunc_ok, remap_ok) \<in> F \<Longrightarrow>
    bg_step trunc_ok remap_ok junk (ls_log s) (ls_bg s) = Some (lg, bg) \<Longrightarrow>
    logger_step F s (s\<lparr>ls_log := lg, ls_bg := bg,
      ls_taken := ls_taken s @ bg_takes (ls_log s) (ls_bg s),
      ls_written := ls_written s @ (if lg_current_offset lg = lg_current_offset (ls_log s) then []
        else map snd (bg_takes (ls_log s) (ls_bg s)))\<rparr>)"
| step_shutdown: "shutdown_request (ls_log s) = (True, lg) \<Longrightarrow> logger_step F s (s\<lparr>ls_log := lg\<rparr>)"
| step_close: "\<not> lg_running (ls_log s) \<Longrightarrow> bg_at (ls_bg s) = BG_Exit \<Longrightarrow> (trunc_ok, remap_ok) \<in> F \<Longrightarrow>
    logger_step F s (s\<lparr>ls_log := shutdown_close trunc_ok (ls_log s)\<rparr>)"

definition start_logger :: "string \<Rightarrow> u64 \<Rightarrow> logger_system" where
  "start_logger path sz =
     \<lparr>ls_log = logger_init 3 True True path sz new_logger, ls_bg = new_background,
      ls_tls = (\<lambda>_. new_thread_local), ls_sent = [], ls_taken = [], ls_written = []\<rparr>"

section \<open>The invariant\<close>

text \<open>The messages of one ring.\<close>

definition of_ring :: "nat \<Rightarrow> (nat \<times> LogMessage) list \<Rightarrow> LogMessage list" where
  "of_ring k xs = map snd (filter (\<lambda>x. fst x = k) xs)"

lemma of_ring_simps [simp]:
  "of_ring k [] = []" "of_ring k (xs @ ys) = of_ring k xs @ of_ring k ys"
  "of_ring k (x # xs) = (if fst x = k then snd x # of_ring k xs else of_ring k xs)"
  by (simp_all add: of_ring_def)

lemma of_ring_Pair [simp]: "of_ring k (map (Pair j) ms) = (if j = k then ms else [])"
  by (induction ms) auto

definition rings_ok :: "logger_system \<Rightarrow> bool" where
  "rings_ok s \<longleftrightarrow>
     (\<forall>k < length (lg_queues (ls_log s)). queue_inv LOG_QUEUE_CAPACITY (ring (ls_log s) k)) \<and>
     (\<forall>x \<in> set (ls_sent s). fst x < length (lg_queues (ls_log s)) \<and> msg_ok (snd x) \<and>
        lm_thread_id (snd x) = tq_thread_id (lg_queues (ls_log s) ! fst x)) \<and>
     (\<forall>x \<in> set (ls_taken s). fst x < length (lg_queues (ls_log s))) \<and>
     (\<forall>k < length (lg_queues (ls_log s)).
        of_ring k (ls_sent s) = of_ring k (ls_taken s) @ contents (ring (ls_log s) k))"

definition registered_ok :: "logger_system \<Rightarrow> bool" where
  "registered_ok s \<longleftrightarrow> distinct (map tq_thread_id (lg_queues (ls_log s))) \<and>
     (\<forall>t k. local_queue (ls_tls s t) = Some k \<longrightarrow> k < length (lg_queues (ls_log s)) \<and>
        tq_thread_id (lg_queues (ls_log s) ! k) = local_thread_id (ls_tls s t))"

definition bg_ok :: "logger_system \<Rightarrow> bool" where
  "bg_ok s \<longleftrightarrow> (\<exists>n \<le> length (lg_queues (ls_log s)). active_queues (ls_bg s) = [0..<n]) \<and>
     (\<forall>ks. bg_at (ls_bg s) = BG_Poll ks \<longrightarrow> set ks \<subseteq> set (active_queues (ls_bg s))) \<and>
     (lg_mapped (ls_log s) \<or> bg_at (ls_bg s) = BG_Exit)"

abbreviation written_bytes :: "logger_system \<Rightarrow> u8 list" where
  "written_bytes s \<equiv> concat (map msg_line (ls_written s))"

definition written_ok :: "(bool \<times> bool) set \<Rightarrow> u64 \<Rightarrow> logger_system \<Rightarrow> bool" where
  "written_ok F sz s \<longleftrightarrow> subseq (ls_written s) (map snd (ls_taken s)) \<and>
     length (written_bytes s) = unat (lg_current_offset (ls_log s)) \<and>
     (if lg_mapped (ls_log s) then file_ok (ls_log s) (written_bytes s) \<and> sz \<le> lg_mmap_size (ls_log s)
      else take (unat (lg_current_offset (ls_log s))) (lg_file (ls_log s)) = written_bytes s \<and>
        (F = {(True, True)} \<longrightarrow> lg_file (ls_log s) = written_bytes s)) \<and>
     (F = {(True, True)} \<longrightarrow> 286 \<le> unat sz \<longrightarrow> unat (lg_current_offset (ls_log s)) + 286 < 2 ^ 62 \<longrightarrow>
        ls_written s = map snd (ls_taken s))"

definition logger_inv :: "(bool \<times> bool) set \<Rightarrow> u64 \<Rightarrow> logger_system \<Rightarrow> bool" where
  "logger_inv F sz s \<longleftrightarrow> rings_ok s \<and> registered_ok s \<and> bg_ok s \<and> written_ok F sz s"

lemmas logger_inv_parts = logger_inv_def rings_ok_def registered_ok_def bg_ok_def written_ok_def

lemma start_logger_inv: "unat sz < 2 ^ 63 \<Longrightarrow> logger_inv F sz (start_logger path sz)"
  by (simp add: logger_inv_parts start_logger_def logger_init_def new_logger_def new_background_def
      new_thread_local_def ftruncate_def resize_file_def file_ok_def Let_def)

section \<open>What the operations do to the rings\<close>

lemma find_thread_Some: "find_thread tid i tqs = Some j \<Longrightarrow> i \<le> j \<and> j - i < length tqs \<and> tq_thread_id (tqs ! (j - i)) = tid"
proof (induction tqs arbitrary: i)
  case (Cons tq tqs)
  show ?case
  proof (cases "tq_thread_id tq = tid")
    case True
    with Cons.prems show ?thesis by simp
  next
    case False
    with Cons have "Suc i \<le> j \<and> j - Suc i < length tqs \<and> tq_thread_id (tqs ! (j - Suc i)) = tid" by simp
    moreover from this have "Suc i \<le> j" by simp
    then have "j - i = Suc (j - Suc i)" by simp
    ultimately show ?thesis by simp
  qed
qed simp

lemma find_thread_None: "find_thread tid i tqs = None \<longleftrightarrow> tid \<notin> tq_thread_id ` set tqs"
  by (induction tqs arbitrary: i) auto

lemma registerThread_cases:
  assumes "registerThread tid lg = (lg', loc)"
  obtains (known) i where "lg' = lg" "loc = \<lparr>local_queue = Some i, local_thread_id = tid\<rparr>"
      "i < length (lg_queues lg)" "tq_thread_id (lg_queues lg ! i) = tid"
    | (fresh) "lg' = lg\<lparr>lg_queues := lg_queues lg @
         [\<lparr>tq_thread_id = tid, tq_queue = new_queue LOG_QUEUE_CAPACITY zero_message\<rparr>]\<rparr>"
      "loc = \<lparr>local_queue = Some (length (lg_queues lg)), local_thread_id = tid\<rparr>"
      "tid \<notin> tq_thread_id ` set (lg_queues lg)"
  using assms find_thread_Some [of tid 0 "lg_queues lg"] find_thread_None [of tid 0 "lg_queues lg"]
  by (auto simp: registerThread_def split: option.splits)

definition set_ring :: "AsyncLogger \<Rightarrow> nat \<Rightarrow> LogMessage SPSCQueue \<Rightarrow> AsyncLogger" where
  "set_ring lg k q = lg\<lparr>lg_queues := (lg_queues lg)[k := (lg_queues lg ! k)\<lparr>tq_queue := q\<rparr>]\<rparr>"

lemma set_ring_simps [simp]:
  "length (lg_queues (set_ring lg k q)) = length (lg_queues lg)"
  "k < length (lg_queues lg) \<Longrightarrow> ring (set_ring lg k q) j = (if j = k then q else ring lg j)"
  "k < length (lg_queues lg) \<Longrightarrow> tq_thread_id (lg_queues (set_ring lg k q) ! j) = tq_thread_id (lg_queues lg ! j)"
  "map tq_thread_id (lg_queues (set_ring lg k q)) = map tq_thread_id (lg_queues lg)"
  "lg_running (set_ring lg k q) = lg_running lg" "lg_mapped (set_ring lg k q) = lg_mapped lg"
  "lg_file (set_ring lg k q) = lg_file lg" "lg_current_offset (set_ring lg k q) = lg_current_offset lg"
  "lg_mmap_size (set_ring lg k q) = lg_mmap_size lg" "file_ok (set_ring lg k q) bs = file_ok lg bs"
  "no_room t r (set_ring lg k q) = no_room t r lg"
  by (cases "k < length (lg_queues lg)"; auto simp: set_ring_def no_room_def nth_list_update intro!: nth_equalityI)+

lemma LOG_QUEUE_CAPACITY_nz [simp]: "LOG_QUEUE_CAPACITY \<noteq> 0"
  by (simp add: LOG_QUEUE_CAPACITY_def)

lemma log_capacity: "unat LOG_QUEUE_CAPACITY - 1 = 1023"
  by (simp add: LOG_QUEUE_CAPACITY_def)

lemma logger_log_returns:
  assumes "logger_log junk tsc loc call lg = Some lg'" "local_queue loc = Some k"
    "make_message junk tsc (local_thread_id loc) call = Some msg"
    "queue_inv LOG_QUEUE_CAPACITY (ring lg k)"
  shows "k < length (lg_queues lg) \<and> (\<exists>q. lg' = set_ring lg k q \<and>
    queue_inv LOG_QUEUE_CAPACITY q \<and> contents q = contents (ring lg k) @ [msg])"
proof -
  have k: "k < length (lg_queues lg)"
    using assms(1-3) by (auto simp: logger_log_def aread_def split: bind_splits if_splits)
  then obtain q where q: "push_spin LOG_QUEUE_CAPACITY msg (ring lg k) = Some q"
    and lg': "lg' = set_ring lg k q"
    using assms(1-3) by (auto simp: logger_log_def set_ring_def split: bind_splits)
  from push_spin_returns(1,2) [OF q assms(4)] k lg' show ?thesis by blast
qed

lemma logger_log_room:
  assumes "local_queue loc = Some k" "k < length (lg_queues lg)"
    "make_message junk tsc (local_thread_id loc) call = Some msg"
    "queue_inv LOG_QUEUE_CAPACITY (ring lg k)"
    "length (contents (ring lg k)) < 1023"
  shows "\<exists>lg'. logger_log junk tsc loc call lg = Some lg'"
proof -
  have "length (contents (ring lg k)) < unat LOG_QUEUE_CAPACITY - 1"
    using assms(5) by (simp only: log_capacity)
  from push_spin_room [OF assms(4) this, of msg] obtain q
    where "push_spin LOG_QUEUE_CAPACITY msg (ring lg k) = Some q" by blast
  with assms(1-3) show ?thesis by (simp add: logger_log_def)
qed

section \<open>The steps keep the invariant\<close>

lemma register_inv:
  assumes inv: "logger_inv F sz s" and reg: "registerThread tid (ls_log s) = (lg, loc)"
  shows "logger_inv F sz (s\<lparr>ls_log := lg, ls_tls := (ls_tls s)(t := loc)\<rparr>)"
  using reg
proof (cases rule: registerThread_cases)
  case (known i)
  then show ?thesis using inv by (auto simp: logger_inv_parts)
next
  case fresh
  have new: "of_ring (length (lg_queues (ls_log s))) (ls_sent s) = []"
      "of_ring (length (lg_queues (ls_log s))) (ls_taken s) = []"
    using inv by (fastforce simp: logger_inv_def rings_ok_def of_ring_def filter_empty_conv)+
  have "rings_ok (s\<lparr>ls_log := lg, ls_tls := (ls_tls s)(t := loc)\<rparr>)"
    using inv new new_queue_inv [OF LOG_QUEUE_CAPACITY_nz, of zero_message] unfolding fresh(1)
    by (auto simp: logger_inv_def rings_ok_def nth_append less_Suc_eq)
  moreover have "registered_ok (s\<lparr>ls_log := lg, ls_tls := (ls_tls s)(t := loc)\<rparr>)"
    using inv fresh by (auto simp: logger_inv_def registered_ok_def nth_append less_SucI)
  moreover have "bg_ok (s\<lparr>ls_log := lg, ls_tls := (ls_tls s)(t := loc)\<rparr>)"
    using inv fresh(1) by (auto simp: logger_inv_def bg_ok_def intro: le_SucI)
  ultimately show ?thesis using inv fresh(1) by (simp add: logger_inv_def written_ok_def)
qed

lemma log_inv:
  assumes inv: "logger_inv F sz s" and k: "local_queue (ls_tls s t) = Some k"
    and tx: "printf_text (lc_format call) (lc_args call) = Some tx" "length tx < 2 ^ 31"
    and msg: "make_message junk tsc (local_thread_id (ls_tls s t)) call = Some msg"
    and lg: "logger_log junk tsc (ls_tls s t) call (ls_log s) = Some lg"
  shows "logger_inv F sz (s\<lparr>ls_log := lg, ls_sent := ls_sent s @ [(k, msg)]\<rparr>)"
proof -
  have kl: "k < length (lg_queues (ls_log s))" "tq_thread_id (lg_queues (ls_log s) ! k) = local_thread_id (ls_tls s t)"
    using inv k by (auto simp: logger_inv_def registered_ok_def)
  moreover have "queue_inv LOG_QUEUE_CAPACITY (ring (ls_log s) k)" using inv kl by (simp add: logger_inv_def rings_ok_def)
  from logger_log_returns [OF lg k msg this] obtain q where q: "lg = set_ring (ls_log s) k q"
    "queue_inv LOG_QUEUE_CAPACITY q" "contents q = contents (ring (ls_log s) k) @ [msg]" by blast
  moreover have "msg_ok msg" "lm_thread_id msg = local_thread_id (ls_tls s t)"
    using make_message_eq [OF tx, of junk tsc "local_thread_id (ls_tls s t)"] msg by auto
  ultimately have "rings_ok (s\<lparr>ls_log := lg, ls_sent := ls_sent s @ [(k, msg)]\<rparr>)"
    using inv by (auto simp: logger_inv_def rings_ok_def)
  moreover have "registered_ok (s\<lparr>ls_log := lg, ls_sent := ls_sent s @ [(k, msg)]\<rparr>)"
    using inv kl q(1) by (auto simp: logger_inv_def registered_ok_def simp del: map_eq_conv)
  ultimately show ?thesis using inv q(1) by (simp add: logger_inv_def bg_ok_def written_ok_def)
qed

lemma close_inv:
  assumes "logger_inv F sz s" "bg_at (ls_bg s) = BG_Exit" "(trunc_ok, remap_ok) \<in> F"
  shows "logger_inv F sz (s\<lparr>ls_log := shutdown_close trunc_ok (ls_log s)\<rparr>)"
proof (cases "lg_mapped (ls_log s)")
  case True
  let ?lg = "ls_log s"
  have ok: "file_ok ?lg (written_bytes s)" using assms True by (simp add: logger_inv_def written_ok_def)
  then have o: "unat (lg_current_offset ?lg) < 2 ^ 63" "unat (lg_current_offset ?lg) \<le> length (lg_file ?lg)"
    by (simp_all add: file_ok_def word_le_nat_alt)
  then have "take (unat (lg_current_offset ?lg)) (lg_file (shutdown_close trunc_ok ?lg)) = written_bytes s"
    and "trunc_ok \<Longrightarrow> lg_file (shutdown_close trunc_ok ?lg) = written_bytes s"
    using ok True by (simp_all add: shutdown_close_def ftruncate_def resize_file_def file_ok_def)
  moreover have "F = {(True, True)} \<Longrightarrow> trunc_ok" using assms(3) by simp
  ultimately show ?thesis using assms(1,2) True
    by (simp add: logger_inv_parts shutdown_close_def)
next
  case False
  then show ?thesis using assms by (simp add: shutdown_close_def)
qed

lemma polled_less:
  assumes "bg_ok s" "bg_at (ls_bg s) = BG_Poll ks" "k \<in> set ks"
  shows "k < length (lg_queues (ls_log s))"
  using assms by (auto simp: bg_ok_def)

lemma bg_poll_empty:
  assumes "bg_at bg = BG_Poll (k # ks)" "k < length (lg_queues lg)" "queue_inv LOG_QUEUE_CAPACITY (ring lg k)"
    "contents (ring lg k) = []"
  shows "bg_step t r junk lg bg = Some (lg, bg\<lparr>bg_at := BG_Poll ks\<rparr>)" "bg_takes lg bg = []"
  using assms spsc.deq_Nil [OF assms(3,4)] by (simp_all add: bg_step_def bg_takes_def)

lemma bg_poll_message:
  assumes pc: "bg_at bg = BG_Poll (k # ks)" and k: "k < length (lg_queues lg)"
    and q: "queue_inv LOG_QUEUE_CAPACITY (ring lg k)" "contents (ring lg k) = m # ms"
    and ok: "file_ok lg bs" "lg_mapped lg" "msg_ok m"
  obtains lg' q' where "bg_step t r junk lg bg = Some (lg', bg\<lparr>bg_idle := False\<rparr>)" "bg_takes lg bg = [(k, m)]"
    "lg_queues lg' = lg_queues (set_ring lg k q')" "queue_inv LOG_QUEUE_CAPACITY q'" "contents q' = ms"
    "lg_running lg' = lg_running lg" "lg_mapped lg'" "lg_mmap_size lg \<le> lg_mmap_size lg'"
    "lg_current_offset lg' \<noteq> lg_current_offset lg \<and> file_ok lg' (bs @ msg_line m) \<or>
     lg_current_offset lg' = lg_current_offset lg \<and> file_ok lg' bs \<and>
     no_room t r lg"
proof -
  from spsc.deq_Cons [OF q] obtain q' where q': "pop LOG_QUEUE_CAPACITY (ring lg k) = Some (Some m, q')"
    "queue_inv LOG_QUEUE_CAPACITY q'" "contents q' = ms" by blast
  let ?lg = "set_ring lg k q'"
  have "file_ok ?lg bs" "lg_mapped ?lg" using ok by simp_all
  from writeToFile_cases [OF this(1) ok(3) this(2), of t r junk] obtain lg'
    where lg': "writeToFile t r junk m ?lg = Some lg'" "lg_queues lg' = lg_queues ?lg"
      "lg_running lg' = lg_running lg" "lg_mapped lg'" "lg_mmap_size lg \<le> lg_mmap_size lg'"
      "lg_current_offset lg' \<noteq> lg_current_offset lg \<and> file_ok lg' (bs @ msg_line m) \<or>
       lg_current_offset lg' = lg_current_offset lg \<and> file_ok lg' bs \<and>
       no_room t r lg"
    unfolding set_ring_simps by (elim exE conjE)
  from lg'(1) have "bg_step t r junk lg bg = Some (lg', bg\<lparr>bg_idle := False\<rparr>)"
    using pc k q'(1) by (simp add: bg_step_def set_ring_def)
  moreover have "bg_takes lg bg = [(k, m)]" using pc q(2) by (simp add: bg_takes_def)
  ultimately show ?thesis using lg'(2-6) q'(2,3) that by blast
qed

text \<open>The step of the background thread as the system makes it, with the ghost components.\<close>

definition bg_system :: "logger_system \<Rightarrow> AsyncLogger \<Rightarrow> Background \<Rightarrow> logger_system" where
  "bg_system s lg bg = s\<lparr>ls_log := lg, ls_bg := bg,
      ls_taken := ls_taken s @ bg_takes (ls_log s) (ls_bg s),
      ls_written := ls_written s @ (if lg_current_offset lg = lg_current_offset (ls_log s) then []
        else map snd (bg_takes (ls_log s) (ls_bg s)))\<rparr>"

lemma bg_system_silent: "bg_takes (ls_log s) (ls_bg s) = [] \<Longrightarrow> bg_system s lg bg = s\<lparr>ls_log := lg, ls_bg := bg\<rparr>"
  by (cases s) (simp add: bg_system_def)

lemma poll_message_inv:
  assumes inv: "logger_inv F sz s" and tr: "(t, r) \<in> F"
    and pc: "bg_at (ls_bg s) = BG_Poll (k # ks)" and q: "contents (ring (ls_log s) k) = m # ms"
  obtains lg where "bg_step t r junk (ls_log s) (ls_bg s) = Some (lg, (ls_bg s)\<lparr>bg_idle := False\<rparr>)"
    "logger_inv F sz (bg_system s lg ((ls_bg s)\<lparr>bg_idle := False\<rparr>))"
    "length (lg_queues lg) = length (lg_queues (ls_log s))" "lg_running lg = lg_running (ls_log s)"
    "\<forall>j. contents (ring lg j) = (if j = k then ms else contents (ring (ls_log s) j))"
proof -
  let ?lg = "ls_log s" and ?bg = "(ls_bg s)\<lparr>bg_idle := False\<rparr>"
  have k: "k < length (lg_queues ?lg)" using inv polled_less [OF _ pc] by (simp add: logger_inv_def)
  have mp: "lg_mapped ?lg" using inv pc by (auto simp: logger_inv_def bg_ok_def)
  have qi: "queue_inv LOG_QUEUE_CAPACITY (ring ?lg k)" using inv k by (simp add: logger_inv_def rings_ok_def)
  have "m \<in> set (of_ring k (ls_sent s))" using inv k q by (simp add: logger_inv_def rings_ok_def)
  then have m: "msg_ok m" using inv by (auto simp: logger_inv_def rings_ok_def of_ring_def)
  have fo: "file_ok ?lg (written_bytes s)" using inv mp by (simp add: logger_inv_def written_ok_def)
  obtain lg q' where step: "bg_step t r junk ?lg (ls_bg s) = Some (lg, ?bg)" "bg_takes ?lg (ls_bg s) = [(k, m)]"
    "lg_queues lg = lg_queues (set_ring ?lg k q')" "queue_inv LOG_QUEUE_CAPACITY q'" "contents q' = ms"
    "lg_running lg = lg_running ?lg" "lg_mapped lg" "lg_mmap_size ?lg \<le> lg_mmap_size lg"
    and w: "lg_current_offset lg \<noteq> lg_current_offset ?lg \<and> file_ok lg (written_bytes s @ msg_line m) \<or>
     lg_current_offset lg = lg_current_offset ?lg \<and> file_ok lg (written_bytes s) \<and>
     no_room t r ?lg"
    by (rule bg_poll_message [OF pc k qi q fo mp m])
  have "rings_ok (bg_system s lg ?bg)"
    using inv step(2-5) k q by (auto simp: logger_inv_def rings_ok_def bg_system_def)
  moreover have "registered_ok (bg_system s lg ?bg)"
    using inv step(3) k by (auto simp: logger_inv_def registered_ok_def bg_system_def simp del: map_eq_conv)
  moreover have "bg_ok (bg_system s lg ?bg)"
    using inv step(3,7) by (simp add: logger_inv_def bg_ok_def bg_system_def)
  moreover have "written_ok F sz (bg_system s lg ?bg)"
    using inv w
  proof (elim disjE conjE, goal_cases)
    case 1
    then have "subseq (ls_written s @ [m]) (map snd (ls_taken s) @ [m])"
      by (intro list_emb_append_mono) (simp_all add: logger_inv_def written_ok_def)
    moreover have "unat (lg_current_offset ?lg) \<le> unat (lg_current_offset lg)"
      using 1(3) fo by (simp add: file_ok_def)
    ultimately show ?case using 1 step(2,7,8) mp
      by (auto simp: logger_inv_def written_ok_def bg_system_def file_ok_def)
  next
    case 2
    then have "subseq (ls_written s) (map snd (ls_taken s) @ [m])"
      by (intro subseq_rev_drop_many) (simp add: logger_inv_def written_ok_def)
    moreover have "sz \<le> lg_mmap_size ?lg" using 2(1) mp by (simp add: logger_inv_def written_ok_def)
    then have "F = {(True, True)} \<Longrightarrow> 286 \<le> unat sz \<Longrightarrow> \<not> unat (lg_current_offset ?lg) + 286 < 2 ^ 62"
      using 2(4) tr by (auto simp: word_le_nat_alt no_room_def)
    ultimately show ?case using 2 step(2,7,8) mp
      by (auto simp: logger_inv_def written_ok_def bg_system_def)
  qed
  ultimately have "logger_inv F sz (bg_system s lg ?bg)" by (simp add: logger_inv_def)
  moreover have "contents (ring lg j) = (if j = k then ms else contents (ring ?lg j))" for j
    using step(3,5) k by simp
  moreover have "length (lg_queues lg) = length (lg_queues ?lg)" using step(3) by simp
  ultimately show ?thesis using step(1,6) that by blast
qed

text \<open>
  The background thread always has a step, and the step keeps the invariant and the messages in
  the rings it does not poll.
\<close>

lemma silent_inv:
  assumes "logger_inv F sz s" "bg_takes (ls_log s) (ls_bg s) = []" "bg_at (ls_bg s) \<noteq> BG_Exit"
    and "active_queues bg = active_queues (ls_bg s) \<or> active_queues bg = [0..<length (lg_queues (ls_log s))]"
    and "\<forall>ks. bg_at bg = BG_Poll ks \<longrightarrow> set ks \<subseteq> set (active_queues bg)"
  shows "logger_inv F sz (bg_system s (ls_log s) bg)"
  using assms by (auto simp: bg_system_silent logger_inv_parts)

lemma bg_progress:
  assumes inv: "logger_inv F sz s" and tr: "(t, r) \<in> F" and pc: "bg_at (ls_bg s) \<noteq> BG_Exit"
  shows "\<exists>lg bg. bg_step t r junk (ls_log s) (ls_bg s) = Some (lg, bg) \<and> logger_inv F sz (bg_system s lg bg)"
proof (cases "bg_at (ls_bg s)")
  case (BG_Poll ks)
  show ?thesis
  proof (cases ks)
    case (Cons k ks')
    note pc = BG_Poll [unfolded Cons]
    have k: "k < length (lg_queues (ls_log s))" using inv polled_less [OF _ pc] by (simp add: logger_inv_def)
    then have q: "queue_inv LOG_QUEUE_CAPACITY (ring (ls_log s) k)" using inv by (simp add: logger_inv_def rings_ok_def)
    show ?thesis
    proof (cases "contents (ring (ls_log s) k)")
      case Nil
      note e = bg_poll_empty [OF pc k q Nil]
      have "logger_inv F sz (bg_system s (ls_log s) ((ls_bg s)\<lparr>bg_at := BG_Poll ks'\<rparr>))"
        using inv pc e(2) by (intro silent_inv) (auto simp: logger_inv_def bg_ok_def)
      with e(1) show ?thesis by blast
    next
      case (Cons m ms)
      from poll_message_inv [OF inv tr pc Cons] show ?thesis by blast
    qed
  qed (use BG_Poll inv in \<open>auto simp: bg_step_def bg_takes_def intro!: silent_inv\<close>)
qed (use inv pc in \<open>auto simp: bg_step_def bg_takes_def Let_def intro!: silent_inv\<close>)

lemma shutdown_inv: "logger_inv F sz s \<Longrightarrow> logger_inv F sz (s\<lparr>ls_log := (ls_log s)\<lparr>lg_running := False\<rparr>\<rparr>)"
  by (simp add: logger_inv_parts)

lemma logger_step_inv: "logger_step F s s' \<Longrightarrow> logger_inv F sz s \<Longrightarrow> logger_inv F sz s'"
proof (induction rule: logger_step.induct)
  case (step_background s trunc_ok remap_ok junk lg bg)
  from bg_progress [OF step_background(4,2,1), of junk] step_background(3)
  show ?case by (simp add: bg_system_def)
next
  case (step_shutdown s lg)
  then have "lg = (ls_log s)\<lparr>lg_running := False\<rparr>" by (simp add: shutdown_request_def)
  with step_shutdown(2) show ?case by (simp add: shutdown_inv)
qed (simp_all add: register_inv log_inv close_inv)

lemma logger_run_inv:
  assumes "unat sz < 2 ^ 63" "(logger_step F)\<^sup>*\<^sup>* (start_logger path sz) s"
  shows "logger_inv F sz s"
  using assms(2) by (induction rule: rtranclp_induct) (auto intro: logger_step_inv start_logger_inv [OF assms(1)])

section \<open>Draining the rings\<close>

text \<open>The background thread runs alone, with system calls that have the outcomes \<open>t\<close> and \<open>r\<close>.\<close>

definition bg_alone :: "(bool \<times> bool) set \<Rightarrow> u64 \<Rightarrow> logger_system \<Rightarrow> logger_system \<Rightarrow> bool" where
  "bg_alone F sz s s' \<longleftrightarrow> (logger_step F)\<^sup>*\<^sup>* s s' \<and> logger_inv F sz s' \<and> ls_sent s' = ls_sent s \<and>
     ls_tls s' = ls_tls s \<and> lg_running (ls_log s') = lg_running (ls_log s) \<and>
     length (lg_queues (ls_log s')) = length (lg_queues (ls_log s))"

lemma bg_alone_trans: "bg_alone F sz s s1 \<Longrightarrow> bg_alone F sz s1 s2 \<Longrightarrow> bg_alone F sz s s2"
  by (auto simp: bg_alone_def)

lemma bg_alone_step:
  assumes "logger_inv F sz (bg_system s lg bg)" "(t, r) \<in> F" "bg_at (ls_bg s) \<noteq> BG_Exit"
    "bg_step t r junk (ls_log s) (ls_bg s) = Some (lg, bg)"
    "lg_running lg = lg_running (ls_log s)" "length (lg_queues lg) = length (lg_queues (ls_log s))"
  shows "bg_alone F sz s (bg_system s lg bg)"
proof -
  have "logger_step F s (bg_system s lg bg)"
    unfolding bg_system_def by (rule step_background [OF assms(3,2,4)])
  then show ?thesis using assms(1,5,6) by (auto simp: bg_alone_def bg_system_def)
qed

lemma drain_ring:
  assumes "logger_inv F sz s" "(t, r) \<in> F" "bg_at (ls_bg s) = BG_Poll (k # ks)" "contents (ring (ls_log s) k) = ms"
  shows "\<exists>s'. bg_alone F sz s s' \<and> bg_at (ls_bg s') = BG_Poll ks \<and>
    active_queues (ls_bg s') = active_queues (ls_bg s) \<and> bg_idle (ls_bg s') = (bg_idle (ls_bg s) \<and> ms = []) \<and>
    (\<forall>j. contents (ring (ls_log s') j) = (if j = k then [] else contents (ring (ls_log s) j)))"
  using assms
proof (induction ms arbitrary: s)
  case Nil
  have k: "k < length (lg_queues (ls_log s))" using Nil(1) polled_less [OF _ Nil(3)] by (simp add: logger_inv_def)
  then have q: "queue_inv LOG_QUEUE_CAPACITY (ring (ls_log s) k)" using Nil(1) by (simp add: logger_inv_def rings_ok_def)
  note e = bg_poll_empty [OF Nil(3) k q Nil(4)]
  have "logger_inv F sz (bg_system s (ls_log s) ((ls_bg s)\<lparr>bg_at := BG_Poll ks\<rparr>))"
    using Nil(1,3) e(2) by (intro silent_inv) (auto simp: logger_inv_def bg_ok_def)
  from bg_alone_step [OF this Nil(2) _ e(1)] Nil(3,4) show ?case
    by (intro exI [of _ "bg_system s (ls_log s) ((ls_bg s)\<lparr>bg_at := BG_Poll ks\<rparr>)"]) (auto simp: bg_system_def)
next
  case (Cons m ms)
  obtain lg where lg: "bg_step t r (\<lambda>_. 0) (ls_log s) (ls_bg s) = Some (lg, (ls_bg s)\<lparr>bg_idle := False\<rparr>)"
    "logger_inv F sz (bg_system s lg ((ls_bg s)\<lparr>bg_idle := False\<rparr>))"
    "length (lg_queues lg) = length (lg_queues (ls_log s))" "lg_running lg = lg_running (ls_log s)"
    and c: "\<forall>j. contents (ring lg j) = (if j = k then ms else contents (ring (ls_log s) j))"
    by (rule poll_message_inv [OF Cons.prems, where junk = "\<lambda>_. 0"])
  let ?s = "bg_system s lg ((ls_bg s)\<lparr>bg_idle := False\<rparr>)"
  have a: "bg_alone F sz s ?s" using bg_alone_step [OF lg(2) Cons.prems(2) _ lg(1,4,3)] Cons.prems(3) by simp
  have "bg_at (ls_bg ?s) = BG_Poll (k # ks)" "contents (ring (ls_log ?s) k) = ms"
    using Cons.prems(3) c by (simp_all add: bg_system_def)
  from Cons.IH [OF lg(2) Cons.prems(2) this] a show ?case
    by (auto simp: bg_system_def c intro: bg_alone_trans)
qed

lemma drain_rings:
  assumes "logger_inv F sz s" "(t, r) \<in> F" "bg_at (ls_bg s) = BG_Poll ks"
  shows "\<exists>s'. bg_alone F sz s s' \<and> bg_at (ls_bg s') = BG_Poll [] \<and>
    active_queues (ls_bg s') = active_queues (ls_bg s) \<and>
    bg_idle (ls_bg s') = (bg_idle (ls_bg s) \<and> (\<forall>k \<in> set ks. contents (ring (ls_log s) k) = [])) \<and>
    (\<forall>j. contents (ring (ls_log s') j) = (if j \<in> set ks then [] else contents (ring (ls_log s) j)))"
  using assms
proof (induction ks arbitrary: s)
  case Nil
  then show ?case by (intro exI [of _ s]) (simp add: bg_alone_def)
next
  case (Cons k ks)
  from drain_ring [OF Cons.prems refl] obtain s1 where s1: "bg_alone F sz s s1" "bg_at (ls_bg s1) = BG_Poll ks"
    "active_queues (ls_bg s1) = active_queues (ls_bg s)"
    "bg_idle (ls_bg s1) = (bg_idle (ls_bg s) \<and> contents (ring (ls_log s) k) = [])"
    "\<forall>j. contents (ring (ls_log s1) j) = (if j = k then [] else contents (ring (ls_log s) j))" by blast
  then have "logger_inv F sz s1" by (simp add: bg_alone_def)
  from Cons.IH [OF this Cons.prems(2) s1(2)] obtain s2 where s2: "bg_alone F sz s1 s2" "bg_at (ls_bg s2) = BG_Poll []"
    "active_queues (ls_bg s2) = active_queues (ls_bg s1)"
    "bg_idle (ls_bg s2) = (bg_idle (ls_bg s1) \<and> (\<forall>k \<in> set ks. contents (ring (ls_log s1) k) = []))"
    "\<forall>j. contents (ring (ls_log s2) j) = (if j \<in> set ks then [] else contents (ring (ls_log s1) j))" by blast
  with s1 show ?case by (intro exI [of _ s2] conjI bg_alone_trans [OF s1(1) s2(1)]) auto
qed

lemma silent_alone:
  assumes "logger_inv F sz s" "(t, r) \<in> F" "bg_takes (ls_log s) (ls_bg s) = []" "bg_at (ls_bg s) \<noteq> BG_Exit"
    and "bg_step t r (\<lambda>_. 0) (ls_log s) (ls_bg s) = Some (ls_log s, bg)"
    and "active_queues bg = active_queues (ls_bg s) \<or> active_queues bg = [0..<length (lg_queues (ls_log s))]"
    and "\<forall>ks. bg_at bg = BG_Poll ks \<longrightarrow> set ks \<subseteq> set (active_queues bg)"
  shows "bg_alone F sz s (s\<lparr>ls_bg := bg\<rparr>)"
  using bg_alone_step [OF silent_inv [OF assms(1,3,4,6,7)] assms(2,4,5)] bg_system_silent [OF assms(3), of "ls_log s" bg]
  by simp

lemma bg_round:
  assumes inv: "logger_inv F sz s" and tr: "(t, r) \<in> F" and pc: "bg_at (ls_bg s) = BG_While"
    and go: "lg_running (ls_log s) \<or> active_queues (ls_bg s) \<noteq> []"
  shows "\<exists>s'. bg_alone F sz s s' \<and> bg_at (ls_bg s') = BG_End \<and>
    active_queues (ls_bg s') = [0..<length (lg_queues (ls_log s))] \<and>
    bg_idle (ls_bg s') = (\<forall>k < length (lg_queues (ls_log s)). contents (ring (ls_log s) k) = []) \<and>
    (\<forall>k < length (lg_queues (ls_log s)). contents (ring (ls_log s') k) = [])"
proof -
  let ?n = "length (lg_queues (ls_log s))"
  let ?s1 = "s\<lparr>ls_bg := (ls_bg s)\<lparr>bg_idle := True, bg_at := BG_Update\<rparr>\<rparr>"
  let ?s2 = "?s1\<lparr>ls_bg := (ls_bg ?s1)\<lparr>active_queues := [0..<?n], bg_at := BG_Poll [0..<?n]\<rparr>\<rparr>"
  have a1: "bg_alone F sz s ?s1"
    using go pc by (intro silent_alone [OF inv tr]) (auto simp: bg_step_def bg_takes_def)
  then have inv1: "logger_inv F sz ?s1" by (simp add: bg_alone_def)
  have "active_queues (ls_bg s) = [0..<?n]" if "length (active_queues (ls_bg s)) = ?n"
    using inv that by (auto simp: logger_inv_def bg_ok_def)
  then have a2: "bg_alone F sz ?s1 ?s2"
    by (intro silent_alone [OF inv1 tr]) (auto simp: bg_step_def bg_takes_def Let_def)
  then have inv2: "logger_inv F sz ?s2" by (simp add: bg_alone_def)
  have "bg_at (ls_bg ?s2) = BG_Poll [0..<?n]" by simp
  from drain_rings [OF inv2 tr this] obtain s3 where a3: "bg_alone F sz ?s2 s3"
    and s: "bg_at (ls_bg s3) = BG_Poll []" "active_queues (ls_bg s3) = active_queues (ls_bg ?s2)"
    "bg_idle (ls_bg s3) = (bg_idle (ls_bg ?s2) \<and> (\<forall>k \<in> set [0..<?n]. contents (ring (ls_log ?s2) k) = []))"
    "\<forall>j. contents (ring (ls_log s3) j) = (if j \<in> set [0..<?n] then [] else contents (ring (ls_log ?s2) j))"
    by (elim exE conjE)
  have s3: "bg_at (ls_bg s3) = BG_Poll []" "active_queues (ls_bg s3) = [0..<?n]"
    "bg_idle (ls_bg s3) = (\<forall>k < ?n. contents (ring (ls_log s) k) = [])"
    "\<forall>k < ?n. contents (ring (ls_log s3) k) = []" using s by (simp_all add: Ball_def)
  from a3 have inv3: "logger_inv F sz s3" by (simp add: bg_alone_def)
  have a4: "bg_alone F sz s3 (s3\<lparr>ls_bg := (ls_bg s3)\<lparr>bg_at := BG_End\<rparr>\<rparr>)"
    using s3(1) by (intro silent_alone [OF inv3 tr]) (auto simp: bg_step_def bg_takes_def)
  from bg_alone_trans [OF bg_alone_trans [OF bg_alone_trans [OF a1 a2] a3] a4] s3 show ?thesis
    by (intro exI [of _ "s3\<lparr>ls_bg := (ls_bg s3)\<lparr>bg_at := BG_End\<rparr>\<rparr>"]) simp
qed

text \<open>
  After the request to shut down, a background thread at the head of its loop that knows of a
  queue empties every ring and ends.
\<close>

lemma bg_drains:
  assumes inv: "logger_inv F sz s" and tr: "(t, r) \<in> F" and pc: "bg_at (ls_bg s) = BG_While"
    and stop: "\<not> lg_running (ls_log s)" and act: "active_queues (ls_bg s) \<noteq> []"
  shows "\<exists>s'. bg_alone F sz s s' \<and> bg_at (ls_bg s') = BG_Exit \<and>
    (\<forall>k < length (lg_queues (ls_log s)). contents (ring (ls_log s') k) = [])"
proof -
  have fin: "\<exists>s2. bg_alone F sz s1 s2 \<and> bg_at (ls_bg s2) = BG_Exit \<and>
      (\<forall>k < length (lg_queues (ls_log s1)). contents (ring (ls_log s2) k) = [])"
    if a: "logger_inv F sz s1" "bg_at (ls_bg s1) = BG_End" "\<not> lg_running (ls_log s1)" "bg_idle (ls_bg s1)"
      "\<forall>k < length (lg_queues (ls_log s1)). contents (ring (ls_log s1) k) = []" for s1
  proof -
    have "bg_alone F sz s1 (s1\<lparr>ls_bg := (ls_bg s1)\<lparr>bg_at := BG_Exit\<rparr>\<rparr>)"
      using a(2-4) by (intro silent_alone [OF a(1) tr]) (auto simp: bg_step_def bg_takes_def)
    with a(5) show ?thesis by (intro exI [of _ "s1\<lparr>ls_bg := (ls_bg s1)\<lparr>bg_at := BG_Exit\<rparr>\<rparr>"]) simp
  qed
  let ?n = "length (lg_queues (ls_log s))"
  obtain s1 where a1: "bg_alone F sz s s1" and s1: "bg_at (ls_bg s1) = BG_End" "active_queues (ls_bg s1) = [0..<?n]"
    "bg_idle (ls_bg s1) = (\<forall>k < ?n. contents (ring (ls_log s) k) = [])" "\<forall>k < ?n. contents (ring (ls_log s1) k) = []"
    using bg_round [OF inv tr pc] act by blast
  note i1 = a1 [unfolded bg_alone_def]
  show ?thesis
  proof (cases "bg_idle (ls_bg s1)")
    case True
    from fin [OF _ s1(1) _ True] i1 s1(4) stop show ?thesis by (auto intro: bg_alone_trans [OF a1])
  next
    case False
    let ?s2 = "s1\<lparr>ls_bg := (ls_bg s1)\<lparr>bg_at := BG_While\<rparr>\<rparr>"
    have a2: "bg_alone F sz s1 ?s2"
      using s1(1) False i1 by (intro silent_alone [OF _ tr]) (auto simp: bg_step_def bg_takes_def)
    note i2 = a2 [unfolded bg_alone_def]
    have "?n \<noteq> 0" using s1(3) False by auto
    then have "\<exists>s3. bg_alone F sz ?s2 s3 \<and> bg_at (ls_bg s3) = BG_End \<and> bg_idle (ls_bg s3) \<and>
        (\<forall>k < ?n. contents (ring (ls_log s3) k) = [])"
      using bg_round [of F sz ?s2 t r] i1 i2 tr s1(2,4) by auto
    then obtain s3 where a3: "bg_alone F sz ?s2 s3" and s3: "bg_at (ls_bg s3) = BG_End" "bg_idle (ls_bg s3)"
      "\<forall>k < ?n. contents (ring (ls_log s3) k) = []" by blast
    note i3 = a3 [unfolded bg_alone_def]
    from fin [OF _ s3(1) _ s3(2)] i3 i1 s3(3) stop show ?thesis
      by (auto intro: bg_alone_trans [OF bg_alone_trans [OF bg_alone_trans [OF a1 a2] a3]])
  qed
qed

end
