(* ===== verification/Logger_Props.thy ===== *)
theory Logger_Props
  imports Logger_Threads
begin

text \<open>
  The properties of the logger and its threads: what reaches the file and in which order, what
  \<open>shutdown\<close> guarantees and what it can lose, a logger without its background thread, and a second
  initialisation.
\<close>

section \<open>Properties\<close>




text \<open>
  A state the logger reaches after one registration: the background thread has polled the empty
  ring and is about to check whether it should end.
\<close>

lemma idle_round_reachable:
  assumes "unat sz < 2 ^ 63"
  obtains s where "(logger_step {(True, True)})\<^sup>*\<^sup>* (start_logger path sz) s" "lg_running (ls_log s)"
    "length (lg_queues (ls_log s)) = 1" "local_queue (ls_tls s 0) = Some 0" "bg_at (ls_bg s) = BG_End"
    "bg_idle (ls_bg s)" "active_queues (ls_bg s) = [0]" "contents (ring (ls_log s) 0) = []" "ls_sent s = []"
    "ls_taken s = []"
proof -
  let ?F = "{(True, True)}" and ?init = "start_logger path sz"
  obtain lg loc where r: "registerThread 0 (ls_log ?init) = (lg, loc)" by fastforce
  let ?s = "?init\<lparr>ls_log := lg, ls_tls := (ls_tls ?init)(0 := loc)\<rparr>"
  have "logger_step ?F ?init ?s" by (rule step_register [OF r])
  then have st: "(logger_step ?F)\<^sup>*\<^sup>* ?init ?s" by (rule r_into_rtranclp)
  have n: "length (lg_queues lg) = 1" "lg_running lg" "local_queue loc = Some 0" "contents (ring lg 0) = []"
    using r assms new_queue_inv [OF LOG_QUEUE_CAPACITY_nz, of zero_message]
    by (auto simp: registerThread_def start_logger_def logger_init_def new_logger_def ftruncate_def Let_def)
  have inv: "logger_inv ?F sz ?s" by (rule logger_run_inv [OF assms st])
  have "bg_at (ls_bg ?s) = BG_While" by (simp add: start_logger_def new_background_def)
  from bg_round [OF inv _ this, of True True] n(1,2,4) obtain s where s: "bg_alone ?F sz ?s s"
    "bg_at (ls_bg s) = BG_End" "active_queues (ls_bg s) = [0]" "bg_idle (ls_bg s)" "contents (ring (ls_log s) 0) = []"
    by auto
  then have i: "logger_inv ?F sz s" "ls_sent s = []" "length (lg_queues (ls_log s)) = 1"
    using n by (simp_all add: bg_alone_def start_logger_def)
  then have "of_ring 0 (ls_taken s) = []" "\<forall>x \<in> set (ls_taken s). fst x = 0"
    by (auto simp: logger_inv_def rings_ok_def)
  then have "ls_taken s = []" by (cases "ls_taken s") auto
  moreover have "(logger_step ?F)\<^sup>*\<^sup>* ?init s" using st s(1) by (auto simp: bg_alone_def)
  ultimately show ?thesis using that s i n(2,3) by (simp add: bg_alone_def)
qed

text \<open>One log call into a ring with room, as a step.\<close>

lemma log_call_step:
  fixes c :: log_call
  assumes inv: "logger_inv F sz s" and k: "local_queue (ls_tls s t) = Some k"
    and room: "length (contents (ring (ls_log s) k)) < 1023"
    and tx: "printf_text (lc_format c) (lc_args c) = Some tx" "length tx < 2 ^ 31"
  obtains q m where "logger_step F s (s\<lparr>ls_log := set_ring (ls_log s) k q, ls_sent := ls_sent s @ [(k, m)]\<rparr>)"
    "msg_ok m" "msg_text m = takeWhile (\<lambda>b. b \<noteq> 0) (take 239 tx)" "lm_level m = lc_level c"
proof -
  let ?loc = "ls_tls s t"
  from make_message_eq [OF tx, of "\<lambda>_. 0" 0 "local_thread_id ?loc"] obtain m
    where m: "make_message (\<lambda>_. 0) 0 (local_thread_id ?loc) c = Some m" "msg_ok m"
      "msg_text m = takeWhile (\<lambda>b. b \<noteq> 0) (take 239 tx)" "lm_level m = lc_level c" by blast
  have kl: "k < length (lg_queues (ls_log s))" using inv k by (auto simp: logger_inv_def registered_ok_def)
  then have qi: "queue_inv LOG_QUEUE_CAPACITY (ring (ls_log s) k)" using inv by (simp add: logger_inv_def rings_ok_def)
  from logger_log_room [OF k kl m(1) qi room] obtain lg where lg: "logger_log (\<lambda>_. 0) 0 ?loc c (ls_log s) = Some lg" by blast
  from logger_log_returns [OF lg k m(1) qi] obtain q where "lg = set_ring (ls_log s) k q" by blast
  with step_log [OF k tx m(1) lg] m(2-4) that show ?thesis by blast
qed

text \<open>
  C31. Shutdown can lose messages. For every call there is a run in which the call of \<open>log\<close> has
  returned while the logger was running, \<open>shutdown\<close> is then called and completes, and the closed
  file is empty: the background thread had polled the ring before the message was pushed, and ends
  because the poll was idle.
\<close>

theorem shutdown_loses_message:
  fixes c :: log_call
  assumes "unat sz < 2 ^ 63" "printf_text (lc_format c) (lc_args c) = Some tx" "length tx < 2 ^ 31"
  shows "\<exists>s s'. (logger_step {(True, True)})\<^sup>*\<^sup>* (start_logger path sz) s \<and> lg_running (ls_log s) \<and>
    (\<exists>m. ls_sent s = [(0, m)] \<and> msg_text m = takeWhile (\<lambda>b. b \<noteq> 0) (take 239 tx)) \<and>
    (logger_step {(True, True)})\<^sup>*\<^sup>* (s\<lparr>ls_log := snd (shutdown_request (ls_log s))\<rparr>) s' \<and>
    bg_at (ls_bg s') = BG_Exit \<and> \<not> lg_mapped (ls_log s') \<and> lg_file (ls_log s') = []"
proof -
  let ?F = "{(True, True)}"
  obtain s0 where s0: "(logger_step ?F)\<^sup>*\<^sup>* (start_logger path sz) s0" "lg_running (ls_log s0)"
    "length (lg_queues (ls_log s0)) = 1" "local_queue (ls_tls s0 0) = Some 0" "bg_at (ls_bg s0) = BG_End"
    "bg_idle (ls_bg s0)" "active_queues (ls_bg s0) = [0]" "contents (ring (ls_log s0) 0) = []" "ls_sent s0 = []"
    "ls_taken s0 = []" by (rule idle_round_reachable [OF assms(1)])
  have inv: "logger_inv ?F sz s0" by (rule logger_run_inv [OF assms(1) s0(1)])
  have "length (contents (ring (ls_log s0) 0)) < 1023" using s0(8) by simp
  then obtain q m where "logger_step ?F s0 (s0\<lparr>ls_log := set_ring (ls_log s0) 0 q, ls_sent := ls_sent s0 @ [(0, m)]\<rparr>)"
    and m: "msg_text m = takeWhile (\<lambda>b. b \<noteq> 0) (take 239 tx)" by (rule log_call_step [OF inv s0(4) _ assms(2,3)])
  then have st: "logger_step ?F s0 (s0\<lparr>ls_log := set_ring (ls_log s0) 0 q, ls_sent := [(0, m)]\<rparr>)" using s0(9) by simp
  let ?s = "s0\<lparr>ls_log := set_ring (ls_log s0) 0 q, ls_sent := [(0, m)]\<rparr>"
  let ?s1 = "?s\<lparr>ls_log := snd (shutdown_request (ls_log ?s))\<rparr>"
  let ?s2 = "?s1\<lparr>ls_bg := (ls_bg ?s1)\<lparr>bg_at := BG_Exit\<rparr>\<rparr>"
  let ?s3 = "?s2\<lparr>ls_log := shutdown_close True (ls_log ?s2)\<rparr>"
  have r: "(logger_step ?F)\<^sup>*\<^sup>* (start_logger path sz) ?s" using s0(1) st by (rule rtranclp.rtrancl_into_rtrancl)
  have "logger_step ?F ?s ?s1" using s0(2) by (intro step_shutdown) (simp add: shutdown_request_def)
  with r have r1: "(logger_step ?F)\<^sup>*\<^sup>* (start_logger path sz) ?s1" by (rule rtranclp.rtrancl_into_rtrancl)
  then have inv1: "logger_inv ?F sz ?s1" by (rule logger_run_inv [OF assms(1)])
  have a: "bg_alone ?F sz ?s1 ?s2" using s0(5,6)
    by (intro silent_alone [OF inv1, of True True]) (auto simp: bg_step_def bg_takes_def shutdown_request_def)
  moreover have c: "logger_step ?F ?s2 ?s3"
    by (intro step_close [where remap_ok = True]) (simp_all add: shutdown_request_def)
  ultimately have r3: "(logger_step ?F)\<^sup>*\<^sup>* ?s1 ?s3" unfolding bg_alone_def by (elim conjE) (rule rtranclp.rtrancl_into_rtrancl)
  have "logger_inv ?F sz ?s3" using logger_step_inv [OF c] a by (simp add: bg_alone_def)
  moreover have um: "\<not> lg_mapped (ls_log ?s3)" by (simp add: shutdown_close_def)
  moreover from calculation(1) s0(10) have "ls_written ?s3 = []" by (auto simp: logger_inv_def written_ok_def)
  ultimately have "lg_file (ls_log ?s3) = []" by (simp add: logger_inv_def written_ok_def)
  with r r3 um m s0(2) show ?thesis by (intro exI [of _ ?s] exI [of _ ?s3]) simp
qed

theorem shutdown_loses_message_witness:
  "\<exists>s s' m. (logger_step {(True, True)})\<^sup>*\<^sup>* (start_logger ''log'' 4096) s \<and>
     ls_sent s = [(0, m)] \<and> msg_text m = map ch ''bye'' \<and>
     (logger_step {(True, True)})\<^sup>*\<^sup>* (s\<lparr>ls_log := snd (shutdown_request (ls_log s))\<rparr>) s' \<and>
     \<not> lg_mapped (ls_log s') \<and> lg_file (ls_log s') = []"
proof -
  have t: "printf_text (lc_format (log_msg INFO ''bye'' [])) (lc_args (log_msg INFO ''bye'' [])) = Some (map ch ''bye'')"
    by (simp add: log_msg_def)
  have e: "takeWhile (\<lambda>b. b \<noteq> 0) (take 239 (map ch ''bye'')) = map ch ''bye''" by (simp add: ch_def)
  have "unat (4096 :: u64) < 2 ^ 63" "length (map ch ''bye'') < 2 ^ 31" by simp_all
  from shutdown_loses_message [OF this(1) t this(2), of "''log''"] show ?thesis unfolding e by blast
qed


text \<open>Consecutive calls of one thread, each with its time stamp.\<close>

primrec log_calls :: "ThreadLocal \<Rightarrow> (u64 \<times> log_call) list \<Rightarrow> AsyncLogger \<Rightarrow> AsyncLogger option" where
  "log_calls loc [] lg = Some lg"
| "log_calls loc (c # cs) lg = do { lg \<leftarrow> logger_log (\<lambda>_. 0) (fst c) loc (snd c) lg; log_calls loc cs lg }"

definition printable :: "log_call \<Rightarrow> bool" where
  "printable c \<longleftrightarrow> (\<exists>tx. printf_text (lc_format c) (lc_args c) = Some tx \<and> length tx < 2 ^ 31)"

lemma log_calls_fill:
  assumes "local_queue loc = Some k" "k < length (lg_queues lg)" "queue_inv LOG_QUEUE_CAPACITY (ring lg k)"
    "\<forall>c \<in> set cs. printable (snd c)"
  shows "log_calls loc cs lg \<noteq> None \<longleftrightarrow> length (contents (ring lg k)) + length cs \<le> 1023"
  using assms
proof (induction cs arbitrary: lg)
  case Nil
  then show ?case using spsc.bounded [OF Nil(3)] by (simp add: LOG_QUEUE_CAPACITY_def)
next
  case (Cons c cs)
  obtain m where m: "make_message (\<lambda>_. 0) (fst c) (local_thread_id loc) (snd c) = Some m"
    using Cons.prems(4) make_message_eq unfolding printable_def by (metis list.set_intros(1))
  show ?case
  proof (cases "length (contents (ring lg k)) < 1023")
    case True
    from logger_log_room [OF Cons.prems(1,2) m Cons.prems(3) True] obtain lg'
      where l: "logger_log (\<lambda>_. 0) (fst c) loc (snd c) lg = Some lg'" by blast
    from logger_log_returns [OF l Cons.prems(1) m Cons.prems(3)] obtain q where q: "lg' = set_ring lg k q"
      "queue_inv LOG_QUEUE_CAPACITY q" "contents q = contents (ring lg k) @ [m]" by blast
    with Cons.IH [of lg'] Cons.prems l show ?thesis by simp
  next
    case False
    have "logger_log (\<lambda>_. 0) (fst c) loc (snd c) lg = None"
    proof (rule ccontr)
      assume "logger_log (\<lambda>_. 0) (fst c) loc (snd c) lg \<noteq> None"
      then obtain q where "push_spin LOG_QUEUE_CAPACITY m (ring lg k) = Some q"
        using Cons.prems(1,2) m by (auto simp: logger_log_def split: bind_splits)
      from push_spin_returns(3) [OF this Cons.prems(3)] False log_capacity show False by simp
    qed
    with False show ?thesis by simp
  qed
qed

text \<open>
  A logger that is not running blocks its callers. When \<open>init\<close> fails because the file cannot be
  opened, extended or mapped (or \<open>init\<close> was never called), a registered thread can still log: its
  calls return exactly as long as there are at most 1023 of them, and the next call never returns.
\<close>

lemma log_blocks_without_background:
  assumes "open_fd = -1 \<or> \<not> trunc_ok \<or> \<not> map_ok" "\<forall>c \<in> set cs. printable (snd c)"
    and "registerThread tid (logger_init open_fd trunc_ok map_ok path sz new_logger) = (lg, loc)"
  shows "\<not> lg_running lg \<and> (log_calls loc cs lg \<noteq> None \<longleftrightarrow> length cs \<le> 1023)"
proof -
  have q: "lg_queues (logger_init open_fd trunc_ok map_ok path sz new_logger) = []"
    and r: "\<not> lg_running (logger_init open_fd trunc_ok map_ok path sz new_logger)"
    using assms(1) by (auto simp: logger_init_def new_logger_def ftruncate_def Let_def)
  then have "local_queue loc = Some 0" "length (lg_queues lg) = 1" "\<not> lg_running lg"
      "ring lg 0 = new_queue LOG_QUEUE_CAPACITY zero_message"
    using assms(3) by (auto simp: registerThread_def)
  with log_calls_fill [of loc 0 lg cs] new_queue_inv [OF LOG_QUEUE_CAPACITY_nz, of zero_message] assms(2)
  show ?thesis by simp
qed

text \<open>
  A logger that is initialised again after a shutdown does not start at the beginning of its
  new file: \<open>init\<close> keeps the offset of the previous file, so the first message is written behind
  as many zero bytes as the previous file was long.
\<close>

lemma reinit_leaves_hole:
  assumes "\<not> lg_running lg" "unat sz < 2 ^ 63" "unat (lg_current_offset lg) + 286 \<le> unat sz" "msg_ok m"
  shows "\<exists>lg'. writeToFile t r junk m (logger_init 3 True True path sz lg) = Some lg' \<and>
    lg_file (shutdown_close True lg') = replicate (unat (lg_current_offset lg)) 0 @ msg_line m"
proof -
  let ?i = "logger_init 3 True True path sz lg" and ?o = "unat (lg_current_offset lg)"
  have i: "lg_file ?i = replicate (unat sz) 0" "lg_mapped ?i" "lg_mmap_size ?i = sz"
      "lg_current_offset ?i = lg_current_offset lg"
    using assms(1,2) by (simp_all add: logger_init_def ftruncate_def resize_file_def Let_def)
  then have "file_ok ?i (replicate ?o 0)" "\<not> no_room t r ?i"
    using assms(2,3) by (simp_all add: file_ok_def no_room_def word_le_nat_alt min_def)
  with writeToFile_cases [OF this(1) assms(4) i(2), of t r junk] obtain lg'
    where w: "writeToFile t r junk m ?i = Some lg'" "lg_mapped lg'" "file_ok lg' (replicate ?o 0 @ msg_line m)" by blast
  then have "unat (lg_current_offset lg') < 2 ^ 63" "unat (lg_current_offset lg') \<le> length (lg_file lg')"
    by (simp_all add: file_ok_def word_le_nat_alt)
  with w show ?thesis by (simp add: shutdown_close_def ftruncate_def resize_file_def file_ok_def)
qed

end
