(* ===== verification/Event_Loop.thy ===== *)
theory Event_Loop
  imports HFT_Prelude
begin

text \<open>
  The epoll event loop of \<open>NetworkEventLoop.hpp\<close>/\<open>.cpp\<close>: creation of UDP, listening and client
  sockets, their registration with a callback in a table indexed by descriptor, and the loop that
  dispatches the events of \<open>epoll_wait\<close>. The system calls are a parameter of the model; what the
  loop relies on of them is the hypothesis \<open>posix_net\<close>. The three operations that add a socket
  share the contract \<open>fd_source\<close>.
\<close>

section \<open>System calls\<close>

datatype sock_type = SOCK_DGRAM | SOCK_STREAM

datatype sockopt = SO_REUSEADDR | IP_ADD_MEMBERSHIP string

text \<open>
  \<open>fcntl\<close> with \<open>F_GETFL\<close> and \<open>F_SETFL\<close>, \<open>epoll_ctl\<close> with \<open>EPOLL_CTL_ADD\<close> and the events
  \<open>EPOLLIN | EPOLLET\<close>, \<open>connect\<close> with the flag \<open>errno == EINPROGRESS\<close>, and \<open>epoll_wait\<close> with the
  descriptors of the events it stores. Addresses are given by their text and port.
\<close>

record 'w net_sys =
  sys_epoll_create1 :: "'w \<Rightarrow> int \<times> 'w"
  sys_socket :: "sock_type \<Rightarrow> 'w \<Rightarrow> int \<times> 'w"
  sys_setsockopt :: "int \<Rightarrow> sockopt \<Rightarrow> 'w \<Rightarrow> int \<times> 'w"
  sys_bind :: "int \<Rightarrow> u16 \<Rightarrow> 'w \<Rightarrow> int \<times> 'w"
  sys_listen :: "int \<Rightarrow> 'w \<Rightarrow> int \<times> 'w"
  sys_inet_pton :: "string \<Rightarrow> int"
  sys_connect :: "int \<Rightarrow> string \<Rightarrow> u16 \<Rightarrow> 'w \<Rightarrow> (int \<times> bool) \<times> 'w"
  sys_getfl :: "int \<Rightarrow> 'w \<Rightarrow> int \<times> 'w"
  sys_setfl :: "int \<Rightarrow> int \<Rightarrow> 'w \<Rightarrow> 'w"
  sys_epoll_ctl :: "int \<Rightarrow> int \<Rightarrow> 'w \<Rightarrow> int \<times> 'w"
  sys_epoll_wait :: "int \<Rightarrow> nat \<Rightarrow> 'w \<Rightarrow> (int \<times> int list) \<times> 'w"
  sys_close :: "int \<Rightarrow> 'w \<Rightarrow> 'w"

text \<open>With \<open>recv\<close>, which the callbacks of the programs call: the result and the bytes it stores.\<close>

record 'w sock_sys = "'w net_sys" +
  sys_recv :: "int \<Rightarrow> nat \<Rightarrow> 'w \<Rightarrow> (int \<times> u8 list) \<times> 'w"

definition O_NONBLOCK :: int where
  "O_NONBLOCK = 2048"

definition MAX_EVENTS :: nat where
  "MAX_EVENTS = 64"

section \<open>The loop object\<close>

text \<open>A callback is a value of the application's type \<open>'cb\<close>; \<open>None\<close> is an empty \<open>std::function\<close>.\<close>

record 'cb NetworkEventLoop =
  epoll_fd :: int
  el_running :: bool
  fd_callbacks :: "'cb option list"

definition new_event_loop :: "'cb NetworkEventLoop" where
  "new_event_loop = \<lparr>epoll_fd = -1, el_running = False, fd_callbacks = replicate 1024 None\<rparr>"

definition loop_init :: "'w net_sys \<Rightarrow> 'cb NetworkEventLoop \<Rightarrow> 'w \<Rightarrow> bool \<times> log_call list \<times> 'cb NetworkEventLoop \<times> 'w" where
  "loop_init sys l w =
    (let (fd, w) = sys_epoll_create1 sys w; l = l\<lparr>epoll_fd := fd\<rparr> in
     if fd = -1 then (False, [log_msg ERROR ''NetworkEventLoop: epoll_create1 failed'' []], l, w)
     else (True, [], l, w))"

text \<open>The destructor.\<close>

definition stop :: "'cb NetworkEventLoop \<Rightarrow> 'cb NetworkEventLoop" where
  "stop l = l\<lparr>el_running := False\<rparr>"

definition destroy_event_loop :: "'w net_sys \<Rightarrow> 'cb NetworkEventLoop \<Rightarrow> 'w \<Rightarrow> 'w" where
  "destroy_event_loop sys l w = (let l = stop l in
     if epoll_fd l \<noteq> -1 then sys_close sys (epoll_fd l) w else w)"

definition setNonBlocking :: "'w net_sys \<Rightarrow> int \<Rightarrow> 'w \<Rightarrow> 'w" where
  "setNonBlocking sys fd w =
    (let (flags, w) = sys_getfl sys fd w in
     if flags = -1 then w else sys_setfl sys fd (or flags O_NONBLOCK) w)"

text \<open>\<open>std::vector::resize\<close>.\<close>

definition vec_resize :: "nat \<Rightarrow> 'a option list \<Rightarrow> 'a option list" where
  "vec_resize n xs = take n xs @ replicate (n - length xs) None"

text \<open>
  \<open>registerFd\<close>. The product \<open>fd * 2\<close> is computed in \<open>int\<close>; a negative descriptor would index
  outside the vector.
\<close>

definition registerFd :: "'w net_sys \<Rightarrow> int \<Rightarrow> 'cb \<Rightarrow> 'cb NetworkEventLoop \<Rightarrow> 'w \<Rightarrow>
    (bool \<times> log_call list \<times> 'cb NetworkEventLoop \<times> 'w) option" where
  "registerFd sys fd callback l w = do {
     cbs \<leftarrow> (if int (length (fd_callbacks l)) \<le> fd
             then (if fd * 2 < 2 ^ 31 then Some (vec_resize (nat (fd * 2)) (fd_callbacks l)) else None)
             else Some (fd_callbacks l));
     let w = setNonBlocking sys fd w;
     cbs \<leftarrow> (if 0 \<le> fd then awrite cbs (nat fd) (Some callback) else None);
     let l = l\<lparr>fd_callbacks := cbs\<rparr>;
     let (r, w) = sys_epoll_ctl sys (epoll_fd l) fd w;
     if r = -1 then
       Some (False, [log_msg ERROR ''NetworkEventLoop: epoll_ctl failed for fd %d'' [ArgI fd]], l, w)
     else Some (True, [], l, w) }"

section \<open>Adding sockets\<close>

type_synonym ('cb, 'w) add_result = "(int \<times> log_call list \<times> 'cb NetworkEventLoop \<times> 'w) option"

definition addUDPMulticastListener :: "'w net_sys \<Rightarrow> string \<Rightarrow> u16 \<Rightarrow> 'cb \<Rightarrow> 'cb NetworkEventLoop \<Rightarrow> 'w \<Rightarrow> ('cb, 'w) add_result" where
  "addUDPMulticastListener sys mcast_ip port callback l w =
    (let (sock, w) = sys_socket sys SOCK_DGRAM w in
     if sock < 0 then Some (-1, [log_msg ERROR ''NetworkEventLoop: UDP socket creation failed'' []], l, w)
     else let (r, w) = sys_setsockopt sys sock SO_REUSEADDR w;
              warn = (if r < 0 then [log_msg WARN ''NetworkEventLoop: Setting SO_REUSEADDR failed'' []] else []);
              (r, w) = sys_bind sys sock port w in
     if r < 0 then
       Some (-1, warn @ [log_msg ERROR ''NetworkEventLoop: UDP bind failed on port %u'' [ArgU (unat port)]],
         l, sys_close sys sock w)
     else let (r, w) = sys_setsockopt sys sock (IP_ADD_MEMBERSHIP mcast_ip) w in
     if r < 0 then
       Some (-1, warn @ [log_msg ERROR ''NetworkEventLoop: Adding multicast group %s failed'' [ArgS mcast_ip]],
         l, sys_close sys sock w)
     else do {
       (ok, logs, l, w) \<leftarrow> registerFd sys sock callback l w;
       if \<not> ok then Some (-1, warn @ logs, l, sys_close sys sock w)
       else Some (sock, warn @ logs @
         [log_msg INFO ''NetworkEventLoop: Listening on UDP multicast %s:%u'' [ArgS mcast_ip, ArgU (unat port)]], l, w) })"

definition addTCPListener :: "'w net_sys \<Rightarrow> u16 \<Rightarrow> 'cb \<Rightarrow> 'cb NetworkEventLoop \<Rightarrow> 'w \<Rightarrow> ('cb, 'w) add_result" where
  "addTCPListener sys port callback l w =
    (let (sock, w) = sys_socket sys SOCK_STREAM w in
     if sock < 0 then Some (-1, [log_msg ERROR ''NetworkEventLoop: TCP socket creation failed'' []], l, w)
     else let (_, w) = sys_setsockopt sys sock SO_REUSEADDR w;
              (r, w) = sys_bind sys sock port w in
     if r < 0 then
       Some (-1, [log_msg ERROR ''NetworkEventLoop: TCP bind failed on port %u'' [ArgU (unat port)]],
         l, sys_close sys sock w)
     else let (r, w) = sys_listen sys sock w in
     if r < 0 then
       Some (-1, [log_msg ERROR ''NetworkEventLoop: TCP listen failed'' []], l, sys_close sys sock w)
     else do {
       (ok, logs, l, w) \<leftarrow> registerFd sys sock callback l w;
       if \<not> ok then Some (-1, logs, l, sys_close sys sock w)
       else Some (sock, logs @ [log_msg INFO ''NetworkEventLoop: Listening on TCP port %u'' [ArgU (unat port)]], l, w) })"

definition addTCPClient :: "'w net_sys \<Rightarrow> string \<Rightarrow> u16 \<Rightarrow> 'cb \<Rightarrow> 'cb NetworkEventLoop \<Rightarrow> 'w \<Rightarrow> ('cb, 'w) add_result" where
  "addTCPClient sys ip port callback l w =
    (let (sock, w) = sys_socket sys SOCK_STREAM w in
     if sock < 0 then Some (-1, [log_msg ERROR ''NetworkEventLoop: TCP client socket creation failed'' []], l, w)
     else if sys_inet_pton sys ip \<le> 0 then
       Some (-1, [log_msg ERROR ''NetworkEventLoop: Invalid IP address for TCP client'' []], l, sys_close sys sock w)
     else let w = setNonBlocking sys sock w;
              ((r, in_progress), w) = sys_connect sys sock ip port w in
     if r < 0 \<and> \<not> in_progress then
       Some (-1, [log_msg ERROR ''NetworkEventLoop: TCP client connect failed'' []], l, sys_close sys sock w)
     else do {
       (ok, logs, l, w) \<leftarrow> registerFd sys sock callback l w;
       if \<not> ok then Some (-1, logs, l, sys_close sys sock w)
       else Some (sock, logs @
         [log_msg INFO ''NetworkEventLoop: Connecting to TCP %s:%u'' [ArgS ip, ArgU (unat port)]], l, w) })"

section \<open>Running\<close>

text \<open>
  What calling a callback does: it may change the loop, the outside world and the application's own
  state \<open>'s\<close>.
\<close>

type_synonym ('cb, 'w, 's) invoke =
  "'cb \<Rightarrow> int \<Rightarrow> 'cb NetworkEventLoop \<Rightarrow> 'w \<Rightarrow> 's \<Rightarrow> (log_call list \<times> 'cb NetworkEventLoop \<times> 'w \<times> 's) option"

definition dispatch_event :: "('cb, 'w, 's) invoke \<Rightarrow> int \<Rightarrow> 'cb NetworkEventLoop \<Rightarrow> 'w \<Rightarrow> 's \<Rightarrow>
    (log_call list \<times> 'cb NetworkEventLoop \<times> 'w \<times> 's) option" where
  "dispatch_event invoke fd l w st =
    (if 0 \<le> fd \<and> fd < int (length (fd_callbacks l))
     then (case fd_callbacks l ! nat fd of
             Some cb \<Rightarrow> invoke cb fd l w st
           | None \<Rightarrow> Some ([], l, w, st))
     else Some ([], l, w, st))"

fun dispatch :: "('cb, 'w, 's) invoke \<Rightarrow> int list \<Rightarrow> 'cb NetworkEventLoop \<Rightarrow> 'w \<Rightarrow> 's \<Rightarrow>
    (log_call list \<times> 'cb NetworkEventLoop \<times> 'w \<times> 's) option" where
  "dispatch invoke [] l w st = Some ([], l, w, st)"
| "dispatch invoke (fd # fds) l w st = do {
     (logs, l, w, st) \<leftarrow> dispatch_event invoke fd l w st;
     (logs', l, w, st) \<leftarrow> dispatch invoke fds l w st;
     Some (logs @ logs', l, w, st) }"

partial_function (option) run_loop :: "'w net_sys \<Rightarrow> ('cb, 'w, 's) invoke \<Rightarrow> 'cb NetworkEventLoop \<Rightarrow> 'w \<Rightarrow> 's \<Rightarrow>
    (log_call list \<times> 'cb NetworkEventLoop \<times> 'w \<times> 's) option" where
  "run_loop sys invoke l w st =
    (if \<not> el_running l then Some ([], l, w, st)
     else let ((n, fds), w) = sys_epoll_wait sys (epoll_fd l) MAX_EVENTS w in do {
       (logs, l, w, st) \<leftarrow> dispatch invoke (take (nat n) fds) l w st;
       (logs', l, w, st) \<leftarrow> run_loop sys invoke l w st;
       Some (logs @ logs', l, w, st) })"

definition run :: "'w net_sys \<Rightarrow> ('cb, 'w, 's) invoke \<Rightarrow> 'cb NetworkEventLoop \<Rightarrow> 'w \<Rightarrow> 's \<Rightarrow>
    (log_call list \<times> 'cb NetworkEventLoop \<times> 'w \<times> 's) option" where
  "run sys invoke l w st = do {
     (logs, l, w, st) \<leftarrow> run_loop sys invoke (l\<lparr>el_running := True\<rparr>) w st;
     Some ([log_msg INFO ''NetworkEventLoop: Starting event loop'' []] @ logs @
       [log_msg INFO ''NetworkEventLoop: Event loop stopped'' []], l, w, st) }"

end
