(* ===== verification/Event_Loop_Correct.thy ===== *)
theory Event_Loop_Correct
  imports Event_Loop
begin

text \<open>
  Correctness of the event loop: the hypothesis on the kernel, the invariant of the callback table,
  the contract \<open>fd_source\<close> of the operations that add a socket with its interpretation on each of
  them, sequences of such operations, and when \<open>run\<close> returns.
\<close>

section \<open>What the loop relies on\<close>

text \<open>
  The documented behaviour of the system calls, in terms of the open descriptors and the interest
  list of the epoll instance: a new descriptor is one that was not open and lies below the kernel's
  limit, \<open>epoll_ctl\<close> adds its descriptor to the interest list or fails, \<open>close\<close> removes the
  descriptor from both, \<open>epoll_wait\<close> reports at most the given number of events, all of watched
  descriptors, and the other calls change neither set.
\<close>

definition new_fd :: "('w \<Rightarrow> int set) \<Rightarrow> ('w \<Rightarrow> int set) \<Rightarrow> 'w \<Rightarrow> int \<times> 'w \<Rightarrow> bool" where
  "new_fd opened watched w res \<longleftrightarrow> watched (snd res) = watched w \<and>
     (if fst res = -1 then opened (snd res) = opened w
      else 0 \<le> fst res \<and> fst res < 2 ^ 30 \<and> fst res \<notin> opened w \<and> opened (snd res) = insert (fst res) (opened w))"

definition keeps_fds :: "('w \<Rightarrow> int set) \<Rightarrow> ('w \<Rightarrow> int set) \<Rightarrow> 'w \<Rightarrow> 'w \<Rightarrow> bool" where
  "keeps_fds opened watched w w' \<longleftrightarrow> opened w' = opened w \<and> watched w' = watched w"

definition adds_fd :: "('w \<Rightarrow> int set) \<Rightarrow> ('w \<Rightarrow> int set) \<Rightarrow> int \<Rightarrow> 'w \<Rightarrow> int \<times> 'w \<Rightarrow> bool" where
  "adds_fd opened watched fd w res \<longleftrightarrow> opened (snd res) = opened w \<and>
     watched (snd res) = (if fst res = -1 then watched w else insert fd (watched w))"

definition reports_fds :: "('w \<Rightarrow> int set) \<Rightarrow> ('w \<Rightarrow> int set) \<Rightarrow> nat \<Rightarrow> 'w \<Rightarrow> (int \<times> int list) \<times> 'w \<Rightarrow> bool" where
  "reports_fds opened watched n w res \<longleftrightarrow> keeps_fds opened watched w (snd res) \<and>
     set (take (nat (fst (fst res))) (snd (fst res))) \<subseteq> watched w \<and> nat (fst (fst res)) \<le> n"

definition posix_net :: "'w net_sys \<Rightarrow> ('w \<Rightarrow> int set) \<Rightarrow> ('w \<Rightarrow> int set) \<Rightarrow> bool" where
  "posix_net sys opened watched \<longleftrightarrow>
     (\<forall>w. new_fd opened watched w (sys_epoll_create1 sys w)) \<and>
     (\<forall>ty w. new_fd opened watched w (sys_socket sys ty w)) \<and>
     (\<forall>fd opt w. keeps_fds opened watched w (snd (sys_setsockopt sys fd opt w))) \<and>
     (\<forall>fd port w. keeps_fds opened watched w (snd (sys_bind sys fd port w))) \<and>
     (\<forall>fd w. keeps_fds opened watched w (snd (sys_listen sys fd w))) \<and>
     (\<forall>fd ip port w. keeps_fds opened watched w (snd (sys_connect sys fd ip port w))) \<and>
     (\<forall>fd w. keeps_fds opened watched w (snd (sys_getfl sys fd w))) \<and>
     (\<forall>fd flags w. keeps_fds opened watched w (sys_setfl sys fd flags w)) \<and>
     (\<forall>ep fd w. adds_fd opened watched fd w (sys_epoll_ctl sys ep fd w)) \<and>
     (\<forall>ep n w. reports_fds opened watched n w (sys_epoll_wait sys ep n w)) \<and>
     (\<forall>fd w. opened (sys_close sys fd w) = opened w - {fd} \<and> watched (sys_close sys fd w) = watched w - {fd})"

lemma posix_netD:
  assumes "posix_net sys opened watched"
  shows "new_fd opened watched w (sys_epoll_create1 sys w)"
    "new_fd opened watched w (sys_socket sys ty w)"
    "keeps_fds opened watched w (snd (sys_setsockopt sys fd opt w))"
    "keeps_fds opened watched w (snd (sys_bind sys fd port w))"
    "keeps_fds opened watched w (snd (sys_listen sys fd w))"
    "keeps_fds opened watched w (snd (sys_connect sys fd ip port w))"
    "adds_fd opened watched fd w (sys_epoll_ctl sys ep fd w)"
    "reports_fds opened watched n w (sys_epoll_wait sys ep n w)"
    "opened (sys_close sys fd w) = opened w - {fd} \<and> watched (sys_close sys fd w) = watched w - {fd}"
  using assms by (simp_all add: posix_net_def)

lemma setNonBlocking_keeps:
  assumes "posix_net sys opened watched"
  shows "keeps_fds opened watched w (setNonBlocking sys fd w)"
proof -
  have g: "keeps_fds opened watched w (snd (sys_getfl sys fd w))" for w
    using assms by (simp add: posix_net_def)
  have s: "keeps_fds opened watched w (sys_setfl sys fd flags w)" for flags w
    using assms by (simp add: posix_net_def)
  from g [of w] s show ?thesis by (simp add: setNonBlocking_def keeps_fds_def case_prod_beta)
qed

section \<open>The callback table\<close>

definition callback_of :: "'cb NetworkEventLoop \<Rightarrow> int \<Rightarrow> 'cb option" where
  "callback_of l fd = (if 0 \<le> fd \<and> nat fd < length (fd_callbacks l) then fd_callbacks l ! nat fd else None)"

text \<open>Every watched descriptor is open and has a callback.\<close>

definition loop_inv :: "('w \<Rightarrow> int set) \<Rightarrow> ('w \<Rightarrow> int set) \<Rightarrow> 'cb NetworkEventLoop \<Rightarrow> 'w \<Rightarrow> bool" where
  "loop_inv opened watched l w \<longleftrightarrow> 0 < length (fd_callbacks l) \<and> watched w \<subseteq> opened w \<and>
     (\<forall>fd \<in> watched w. 0 \<le> fd \<and> callback_of l fd \<noteq> None)"

lemma dispatch_event_eq:
  "dispatch_event invoke fd l w st =
    (case callback_of l fd of Some cb \<Rightarrow> invoke cb fd l w st | None \<Rightarrow> Some ([], l, w, st))"
  by (auto simp: dispatch_event_def callback_of_def split: option.splits)

lemma registerFd_spec:
  assumes p: "posix_net sys opened watched" and fd: "0 \<le> fd" "fd < 2 ^ 30" and ne: "0 < length (fd_callbacks l)"
  shows "\<exists>ok logs l' w'. registerFd sys fd cb l w = Some (ok, logs, l', w') \<and>
    callback_of l' = (callback_of l)(fd := Some cb) \<and> 0 < length (fd_callbacks l') \<and>
    opened w' = opened w \<and> watched w' = (if ok then insert fd (watched w) else watched w)"
proof -
  let ?cbs = "if int (length (fd_callbacks l)) \<le> fd then vec_resize (nat (fd * 2)) (fd_callbacks l) else fd_callbacks l"
  let ?l = "l\<lparr>fd_callbacks := ?cbs[nat fd := Some cb]\<rparr>"
  have lt: "nat fd < length ?cbs"
  proof (cases "int (length (fd_callbacks l)) \<le> fd")
    case True
    moreover from this ne have "0 < fd" by linarith
    ultimately show ?thesis by (simp add: vec_resize_def)
  qed (use fd in simp)
  have cb: "callback_of ?l = (callback_of l)(fd := Some cb)"
    using fd lt by (auto simp: callback_of_def fun_eq_iff vec_resize_def nth_append nth_list_update nat_eq_iff)
  define w1 where "w1 = setNonBlocking sys fd w"
  obtain r w' where e: "sys_epoll_ctl sys (epoll_fd l) fd w1 = (r, w')" by fastforce
  have "opened w' = opened w \<and> watched w' = (if r = -1 then watched w else insert fd (watched w))"
    using posix_netD(7) [OF p, of fd w1 "epoll_fd l"] e setNonBlocking_keeps [OF p, of w fd]
    by (simp add: keeps_fds_def adds_fd_def w1_def)
  moreover have "\<exists>logs. registerFd sys fd cb l w = Some (r \<noteq> -1, logs, ?l, w')"
    using fd lt e by (auto simp: registerFd_def Let_def w1_def)
  moreover have "length (fd_callbacks ?l) = length ?cbs" by simp
  with lt have "0 < length (fd_callbacks ?l)" by linarith
  ultimately show ?thesis using cb by (elim exE) (intro exI conjI, assumption, simp_all)
qed

section \<open>The contract of adding a socket\<close>

text \<open>
  Either a new descriptor is returned that is open, watched and has the callback, and the other
  callbacks are kept, or \<open>-1\<close> is returned, no descriptor is left open or watched that was not
  before, and the callbacks of the watched descriptors are kept.
\<close>

definition adds_socket :: "('w \<Rightarrow> int set) \<Rightarrow> ('w \<Rightarrow> int set) \<Rightarrow> 'cb \<Rightarrow> 'cb NetworkEventLoop \<Rightarrow> 'w \<Rightarrow> int \<Rightarrow>
    'cb NetworkEventLoop \<Rightarrow> 'w \<Rightarrow> bool" where
  "adds_socket opened watched cb l w r l' w' \<longleftrightarrow> loop_inv opened watched l' w' \<and>
    (if 0 \<le> r
     then r \<notin> opened w \<and> opened w' = insert r (opened w) \<and> watched w' = insert r (watched w) \<and>
       callback_of l' = (callback_of l)(r := Some cb)
     else r = -1 \<and> opened w' = opened w \<and> watched w' = watched w \<and>
       (\<forall>fd \<in> watched w. callback_of l' fd = callback_of l fd))"

locale fd_source =
  fixes add_fd :: "'w net_sys \<Rightarrow> 'cb \<Rightarrow> 'cb NetworkEventLoop \<Rightarrow> 'w \<Rightarrow> ('cb, 'w) add_result"
  assumes adds: "posix_net sys opened watched \<Longrightarrow> loop_inv opened watched l w \<Longrightarrow>
    \<exists>r logs l' w'. add_fd sys cb l w = Some (r, logs, l', w') \<and> adds_socket opened watched cb l w r l' w'"
begin

lemma adds_result:
  assumes "posix_net sys opened watched" "loop_inv opened watched l w" "add_fd sys cb l w = Some (r, logs, l', w')"
  shows "adds_socket opened watched cb l w r l' w'"
  using adds [OF assms(1,2), of cb] assms(3) by auto

lemma event_of_added:
  assumes "posix_net sys opened watched" "loop_inv opened watched l w" "add_fd sys cb l w = Some (r, logs, l', w')" "0 \<le> r"
  shows "dispatch_event invoke r l' w'' st = invoke cb r l' w'' st"
  using adds_result [OF assms(1-3)] assms(4) by (simp add: adds_socket_def dispatch_event_eq)

lemma event_of_other:
  assumes "posix_net sys opened watched" "loop_inv opened watched l w" "add_fd sys cb l w = Some (r, logs, l', w')"
    and "fd \<in> watched w"
  shows "\<exists>cb'. callback_of l fd = Some cb' \<and> dispatch_event invoke fd l' w'' st = invoke cb' fd l' w'' st"
proof -
  from assms(2,4) obtain cb' where cb': "callback_of l fd = Some cb'" "fd \<in> opened w" by (auto simp: loop_inv_def)
  then have "callback_of l' fd = Some cb'"
    using adds_result [OF assms(1-3)] assms(4) by (cases "r = fd") (auto simp: adds_socket_def split: if_splits)
  with cb'(1) show ?thesis by (simp add: dispatch_event_eq)
qed

end

section \<open>The three operations meet the contract\<close>

text \<open>A state in which only the new socket was opened.\<close>

definition has_sock :: "('w \<Rightarrow> int set) \<Rightarrow> ('w \<Rightarrow> int set) \<Rightarrow> 'w \<Rightarrow> int \<Rightarrow> 'w \<Rightarrow> bool" where
  "has_sock opened watched w0 sock w \<longleftrightarrow> 0 \<le> sock \<and> sock < 2 ^ 30 \<and> sock \<notin> opened w0 \<and>
     opened w = insert sock (opened w0) \<and> watched w = watched w0"

lemma has_sock_keeps:
  "has_sock opened watched w0 sock w \<Longrightarrow> keeps_fds opened watched w w' \<Longrightarrow> has_sock opened watched w0 sock w'"
  by (simp add: has_sock_def keeps_fds_def)

lemma no_socket:
  assumes "posix_net sys opened watched" "loop_inv opened watched l w" "sys_socket sys ty w = (sock, w')"
  shows "sock < 0 \<Longrightarrow> adds_socket opened watched cb l w (-1) l w'"
    and "\<not> sock < 0 \<Longrightarrow> has_sock opened watched w sock w'"
  using posix_netD(2) [OF assms(1), of w ty] assms(2,3)
  by (auto simp: new_fd_def adds_socket_def loop_inv_def has_sock_def split: if_splits)

lemma close_socket:
  assumes "posix_net sys opened watched" "loop_inv opened watched l w0" "has_sock opened watched w0 sock w"
  shows "adds_socket opened watched cb l w0 (-1) l (sys_close sys sock w)"
  using posix_netD(9) [OF assms(1), of sock w] assms(2,3)
  by (auto simp: has_sock_def adds_socket_def loop_inv_def)

lemma register_socket:
  assumes p: "posix_net sys opened watched" and l: "loop_inv opened watched l w0" and s: "has_sock opened watched w0 sock w"
  shows "\<exists>ok logs l' w'. registerFd sys sock cb l w = Some (ok, logs, l', w') \<and>
    (if ok then adds_socket opened watched cb l w0 sock l' w'
     else adds_socket opened watched cb l w0 (-1) l' (sys_close sys sock w'))"
proof -
  have b: "0 \<le> sock" "sock < 2 ^ 30" "0 < length (fd_callbacks l)" using l s by (simp_all add: has_sock_def loop_inv_def)
  from registerFd_spec [OF p b] obtain ok logs l' w' where r: "registerFd sys sock cb l w = Some (ok, logs, l', w')"
    "callback_of l' = (callback_of l)(sock := Some cb)" "0 < length (fd_callbacks l')"
    "opened w' = opened w" "watched w' = (if ok then insert sock (watched w) else watched w)" by blast
  have sw: "sock \<notin> watched w0" using l s by (auto simp: has_sock_def loop_inv_def)
  have "adds_socket opened watched cb l w0 sock l' w'" if ok
    using that r l s sw by (auto simp: adds_socket_def loop_inv_def has_sock_def)
  moreover have "adds_socket opened watched cb l w0 (-1) l' (sys_close sys sock w')" if "\<not> ok"
    using that r l s sw posix_netD(9) [OF p, of sock w'] by (auto simp: adds_socket_def loop_inv_def has_sock_def)
  ultimately show ?thesis using r(1) by auto
qed

interpretation udp: fd_source "\<lambda>sys. addUDPMulticastListener sys ip port" for ip port
proof (unfold_locales, goal_cases)
  case (1 sys opened watched l w cb)
  note p = 1(1) and l = 1(2)
  obtain sock w1 where so: "sys_socket sys SOCK_DGRAM w = (sock, w1)" by fastforce
  obtain r2 w2 where w2: "sys_setsockopt sys sock SO_REUSEADDR w1 = (r2, w2)" by fastforce
  obtain r3 w3 where w3: "sys_bind sys sock port w2 = (r3, w3)" by fastforce
  obtain r4 w4 where w4: "sys_setsockopt sys sock (IP_ADD_MEMBERSHIP ip) w3 = (r4, w4)" by fastforce
  note defs = addUDPMulticastListener_def so w2 w3 w4
  show ?case
  proof (cases "sock < 0")
    case True
    with no_socket(1) [OF p l so, of cb] show ?thesis by (simp add: defs)
  next
    case False
    have h3: "has_sock opened watched w sock w3"
      using no_socket(2) [OF p l so False] posix_netD(3) [OF p, of w1 sock SO_REUSEADDR]
        posix_netD(4) [OF p, of w2 sock port] w2 w3 by (auto intro: has_sock_keeps)
    have h4: "has_sock opened watched w sock w4"
      using has_sock_keeps [OF h3] posix_netD(3) [OF p, of w3 sock "IP_ADD_MEMBERSHIP ip"] w4 by simp
    from register_socket [OF p l h4, of cb] close_socket [OF p l h3, of cb] close_socket [OF p l h4, of cb] False
    show ?thesis by (auto simp: defs Let_def split: if_splits)
  qed
qed

interpretation listener: fd_source "\<lambda>sys. addTCPListener sys port" for port
proof (unfold_locales, goal_cases)
  case (1 sys opened watched l w cb)
  note p = 1(1) and l = 1(2)
  obtain sock w1 where so: "sys_socket sys SOCK_STREAM w = (sock, w1)" by fastforce
  obtain r2 w2 where w2: "sys_setsockopt sys sock SO_REUSEADDR w1 = (r2, w2)" by fastforce
  obtain r3 w3 where w3: "sys_bind sys sock port w2 = (r3, w3)" by fastforce
  obtain r4 w4 where w4: "sys_listen sys sock w3 = (r4, w4)" by fastforce
  note defs = addTCPListener_def so w2 w3 w4
  show ?case
  proof (cases "sock < 0")
    case True
    with no_socket(1) [OF p l so, of cb] show ?thesis by (simp add: defs)
  next
    case False
    have h3: "has_sock opened watched w sock w3"
      using no_socket(2) [OF p l so False] posix_netD(3) [OF p, of w1 sock SO_REUSEADDR]
        posix_netD(4) [OF p, of w2 sock port] w2 w3 by (auto intro: has_sock_keeps)
    have h4: "has_sock opened watched w sock w4"
      using has_sock_keeps [OF h3] posix_netD(5) [OF p, of w3 sock] w4 by simp
    from register_socket [OF p l h4, of cb] close_socket [OF p l h3, of cb] close_socket [OF p l h4, of cb] False
    show ?thesis by (auto simp: defs Let_def split: if_splits)
  qed
qed

interpretation client: fd_source "\<lambda>sys. addTCPClient sys ip port" for ip port
proof (unfold_locales, goal_cases)
  case (1 sys opened watched l w cb)
  note p = 1(1) and l = 1(2)
  obtain sock w1 where so: "sys_socket sys SOCK_STREAM w = (sock, w1)" by fastforce
  obtain r3 e3 w3 where w3: "sys_connect sys sock ip port (setNonBlocking sys sock w1) = ((r3, e3), w3)"
    by (metis prod.collapse)
  note defs = addTCPClient_def so w3
  show ?case
  proof (cases "sock < 0")
    case True
    with no_socket(1) [OF p l so, of cb] show ?thesis by (simp add: defs)
  next
    case False
    have h1: "has_sock opened watched w sock w1" by (rule no_socket(2) [OF p l so False])
    have h3: "has_sock opened watched w sock w3"
      using has_sock_keeps [OF has_sock_keeps [OF h1 setNonBlocking_keeps [OF p]]]
        posix_netD(6) [OF p, of "setNonBlocking sys sock w1" sock ip port] w3 by simp
    from register_socket [OF p l h3, of cb] close_socket [OF p l h1, of cb] close_socket [OF p l h3, of cb] False
    show ?thesis by (auto simp: defs Let_def split: if_splits)
  qed
qed

section \<open>Adding many sockets\<close>

datatype source = UDP string u16 | Listener u16 | Client string u16

fun add_source :: "source \<Rightarrow> 'w net_sys \<Rightarrow> 'cb \<Rightarrow> 'cb NetworkEventLoop \<Rightarrow> 'w \<Rightarrow> ('cb, 'w) add_result" where
  "add_source (UDP ip port) sys = addUDPMulticastListener sys ip port"
| "add_source (Listener port) sys = addTCPListener sys port"
| "add_source (Client ip port) sys = addTCPClient sys ip port"

interpretation source: fd_source "add_source s" for s
  by (unfold_locales, cases s) (auto intro: udp.adds listener.adds client.adds)

fun add_all :: "'w net_sys \<Rightarrow> (source \<times> 'cb) list \<Rightarrow> 'cb NetworkEventLoop \<Rightarrow> 'w \<Rightarrow> (int list \<times> 'cb NetworkEventLoop \<times> 'w) option" where
  "add_all sys [] l w = Some ([], l, w)"
| "add_all sys ((s, cb) # ss) l w = do {
     (r, logs, l, w) \<leftarrow> add_source s sys cb l w;
     (rs, l, w) \<leftarrow> add_all sys ss l w;
     Some (r # rs, l, w) }"

definition good_fds :: "int list \<Rightarrow> int set" where
  "good_fds rs = {r \<in> set rs. 0 \<le> r}"

lemma good_fds_simps: "good_fds [] = {}" "good_fds (r # rs) = (if 0 \<le> r then insert r (good_fds rs) else good_fds rs)"
  by (auto simp: good_fds_def)

lemma add_all_spec:
  assumes p: "posix_net sys opened watched" and "loop_inv opened watched l w"
  shows "\<exists>rs l' w'. add_all sys ss l w = Some (rs, l', w') \<and> loop_inv opened watched l' w' \<and> length rs = length ss \<and>
    opened w' = opened w \<union> good_fds rs \<and> watched w' = watched w \<union> good_fds rs \<and>
    (\<forall>fd \<in> watched w. callback_of l' fd = callback_of l fd) \<and>
    (\<forall>i < length ss. 0 \<le> rs ! i \<longrightarrow> callback_of l' (rs ! i) = Some (snd (ss ! i)))"
  using assms(2)
proof (induction ss arbitrary: l w)
  case Nil
  then show ?case by (simp add: good_fds_def)
next
  case (Cons sc ss)
  obtain s cb where sc: "sc = (s, cb)" by fastforce
  from source.adds [OF p Cons.prems, of s cb] obtain r logs l1 w1
    where a: "add_source s sys cb l w = Some (r, logs, l1, w1)" "adds_socket opened watched cb l w r l1 w1" by blast
  then have i1: "loop_inv opened watched l1 w1" by (simp add: adds_socket_def)
  from Cons.IH [OF i1] obtain rs l2 w2 where b: "add_all sys ss l1 w1 = Some (rs, l2, w2)"
    "loop_inv opened watched l2 w2" "length rs = length ss" "opened w2 = opened w1 \<union> good_fds rs"
    "watched w2 = watched w1 \<union> good_fds rs" "\<forall>fd \<in> watched w1. callback_of l2 fd = callback_of l1 fd"
    "\<forall>i < length ss. 0 \<le> rs ! i \<longrightarrow> callback_of l2 (rs ! i) = Some (snd (ss ! i))" by blast
  have w: "opened w1 = opened w \<union> good_fds [r]" "watched w1 = watched w \<union> good_fds [r]"
    using a(2) by (simp_all add: adds_socket_def good_fds_simps split: if_splits)
  have k: "callback_of l1 fd = callback_of l fd" if "fd \<in> watched w" for fd
  proof (cases "0 \<le> r")
    case True
    moreover have "fd \<in> opened w" using Cons.prems that by (auto simp: loop_inv_def)
    ultimately show ?thesis using a(2) by (simp add: adds_socket_def) blast
  next
    case False
    then show ?thesis using a(2) that by (simp add: adds_socket_def)
  qed
  have c: "callback_of l2 r = Some cb" if "0 \<le> r"
    using a(2) b(6) that by (simp add: adds_socket_def)
  have "\<forall>i < length (sc # ss). 0 \<le> (r # rs) ! i \<longrightarrow> callback_of l2 ((r # rs) ! i) = Some (snd ((sc # ss) ! i))"
    using b(7) c sc by (auto simp: nth_Cons split: nat.splits)
  moreover have "\<forall>fd \<in> watched w. callback_of l2 fd = callback_of l fd" using b(6) k w(2) by simp
  moreover have "opened w2 = opened w \<union> good_fds (r # rs)" "watched w2 = watched w \<union> good_fds (r # rs)"
    using b(4,5) w by (auto simp: good_fds_def)
  moreover have "add_all sys (sc # ss) l w = Some (r # rs, l2, w2)" using a(1) b(1) sc by simp
  ultimately show ?case using b(2,3) by (intro exI conjI) auto
qed

lemma loop_init_inv:
  assumes "posix_net sys opened watched" "loop_init sys new_event_loop w = (True, logs, l, w')" "watched w = {}"
  shows "loop_inv opened watched l w'" "watched w' = {}"
  using assms(2,3) posix_netD(1) [OF assms(1), of w]
  by (auto simp: loop_init_def new_event_loop_def loop_inv_def new_fd_def split: prod.splits if_splits)

section \<open>When the loop returns\<close>

lemma dispatch_running:
  assumes "\<And>cb fd l w st logs l' w' st'. el_running l \<Longrightarrow> invoke cb fd l w st = Some (logs, l', w', st') \<Longrightarrow> el_running l'"
  shows "el_running l \<Longrightarrow> dispatch invoke fds l w st = Some (logs, l', w', st') \<Longrightarrow> el_running l'"
proof (induction fds arbitrary: l w st logs)
  case (Cons fd fds)
  from Cons.prems(2) obtain lo1 l1 w1 st1 lo2 where d: "dispatch_event invoke fd l w st = Some (lo1, l1, w1, st1)"
    "dispatch invoke fds l1 w1 st1 = Some (lo2, l', w', st')" by (auto split: bind_splits)
  have "el_running l1" using d(1) Cons.prems(1) assms by (auto simp: dispatch_event_eq split: option.splits)
  from Cons.IH [OF this d(2)] show ?case .
qed simp

text \<open>
  The loop ends only through its callbacks: if none clears \<open>running_\<close>, \<open>run\<close> never returns,
  whatever the kernel reports and even if \<open>stop\<close> was called before; if the callbacks of the first
  batch of events leave it cleared, \<open>run\<close> returns after that batch.
\<close>

lemma run_never_returns:
  fixes invoke :: "('cb, 'w, 's) invoke"
  assumes a: "\<And>cb fd l w st logs l' w' st'. el_running l \<Longrightarrow> invoke cb fd l w st = Some (logs, l', w', st') \<Longrightarrow> el_running l'"
  shows "run sys invoke l w st = None"
proof -
  have n: "\<not> el_running l" if "run_loop sys invoke l w st = Some r" for l w st r
  proof -
    let ?P = "\<lambda>sys' invoke' l (w :: 'w) (st :: 's) r. sys' = sys \<and> invoke' = invoke \<longrightarrow> \<not> el_running l"
    have "?P sys invoke l w st r"
    proof (rule run_loop.raw_induct [where P = ?P, OF _ that], intro impI, goal_cases)
      case (1 f sys' invoke' l w st r)
      show ?case
      proof
        assume r: "el_running l"
        with 1(2,3) obtain n fds w1 logs l1 w2 st1 y where d: "dispatch invoke (take (nat n) fds) l w1 st = Some (logs, l1, w2, st1)"
          "f sys invoke l1 w2 st1 = Some y" by (auto simp: Let_def split: prod.splits bind_splits)
        have "el_running l1" by (rule dispatch_running [OF _ r d(1)]) (rule a)
        with 1(1) [OF d(2)] show False by simp
      qed
    qed
    then show ?thesis by blast
  qed
  have "run_loop sys invoke (l\<lparr>el_running := True\<rparr>) w st = None"
    using n [of "l\<lparr>el_running := True\<rparr>" w st] by (cases "run_loop sys invoke (l\<lparr>el_running := True\<rparr>) w st") auto
  then show ?thesis by (simp add: run_def)
qed

lemma run_stopped:
  assumes "sys_epoll_wait sys (epoll_fd l) MAX_EVENTS w = ((n, fds), w1)"
    "dispatch invoke (take (nat n) fds) (l\<lparr>el_running := True\<rparr>) w1 st = Some (logs, l2, w2, st2)" "\<not> el_running l2"
  shows "\<exists>logs'. run sys invoke l w st = Some (logs', l2, w2, st2)"
  using assms by (simp add: run_def run_loop.simps [of sys invoke "l\<lparr>el_running := True\<rparr>"] run_loop.simps [of sys invoke l2])

section \<open>A kernel with a descriptor table\<close>

text \<open>
  A concrete kernel that satisfies \<open>posix_net\<close>: the next descriptor to hand out, the open and the
  watched descriptors. Every call succeeds except connecting to port 0.
\<close>

type_synonym fd_table = "int \<times> int list \<times> int list"

definition table_new :: "fd_table \<Rightarrow> int \<times> fd_table" where
  "table_new = (\<lambda>(n, os, ws). if 0 \<le> n \<and> n < 2 ^ 30 \<and> n \<notin> set os then (n, (n + 1, n # os, ws)) else (-1, (n, os, ws)))"

definition table_kernel :: "fd_table net_sys" where
  "table_kernel = \<lparr>sys_epoll_create1 = table_new, sys_socket = (\<lambda>_. table_new),
     sys_setsockopt = (\<lambda>_ _ w. (0, w)), sys_bind = (\<lambda>_ _ w. (0, w)), sys_listen = (\<lambda>_ w. (0, w)),
     sys_inet_pton = (\<lambda>_. 1), sys_connect = (\<lambda>_ _ port w. ((if port = 0 then -1 else 0, False), w)),
     sys_getfl = (\<lambda>_ w. (2, w)), sys_setfl = (\<lambda>_ _ w. w),
     sys_epoll_ctl = (\<lambda>_ fd (n, os, ws). (0, (n, os, fd # ws))),
     sys_epoll_wait = (\<lambda>_ k (n, os, ws). ((int (length (take k ws)), take k ws), (n, os, ws))),
     sys_close = (\<lambda>fd (n, os, ws). (n, removeAll fd os, removeAll fd ws))\<rparr>"

definition table_opened :: "fd_table \<Rightarrow> int set" where
  "table_opened = (\<lambda>(n, os, ws). set os)"

definition table_watched :: "fd_table \<Rightarrow> int set" where
  "table_watched = (\<lambda>(n, os, ws). set ws)"

lemma table_posix: "posix_net table_kernel table_opened table_watched"
  by (auto simp: posix_net_def table_kernel_def table_new_def table_opened_def table_watched_def
      new_fd_def keeps_fds_def adds_fd_def reports_fds_def dest: in_set_takeD)

section \<open>Properties\<close>

text \<open>
  C32. On a fresh loop any sequence of calls that add sockets returns; the descriptors left open and
  watched are exactly those that were returned, so a failing call leaks nothing; and an event of
  any of them runs the callback it was added with.
\<close>

theorem event_loop_adds:
  assumes "posix_net sys opened watched" "loop_init sys new_event_loop w = (True, logs, l, w1)" "watched w = {}"
  shows "\<exists>rs l' w'. add_all sys ss l w1 = Some (rs, l', w') \<and> length rs = length ss \<and>
    opened w' = opened w1 \<union> {r \<in> set rs. 0 \<le> r} \<and> watched w' = {r \<in> set rs. 0 \<le> r} \<and>
    (\<forall>i < length ss. 0 \<le> rs ! i \<longrightarrow>
       dispatch_event invoke (rs ! i) l' wx st = invoke (snd (ss ! i)) (rs ! i) l' wx st)"
proof -
  note i = loop_init_inv [OF assms]
  from add_all_spec [OF assms(1) i(1), of ss] show ?thesis
    unfolding i(2) good_fds_def [symmetric] by (auto simp: dispatch_event_eq)
qed

theorem event_loop_adds_witness:
  "\<exists>rs l' w'. add_all table_kernel [(Client ''127.0.0.1'' 9000, ''tcp''), (Client ''0.0.0.0'' 0, ''none''), (UDP ''239.255.0.1'' 12345, ''udp'')]
       (new_event_loop\<lparr>epoll_fd := 3\<rparr>) (4, [3], []) = Some (rs, l', w') \<and>
     table_watched w' = {r \<in> set rs. 0 \<le> r}"
proof -
  have i: "loop_init table_kernel new_event_loop (3, [], []) = (True, [], new_event_loop\<lparr>epoll_fd := 3\<rparr>, (4, [3], []))"
    by (simp add: loop_init_def table_kernel_def table_new_def)
  have e: "table_watched (3, [], []) = {}" by (simp add: table_watched_def)
  from event_loop_adds [OF table_posix i e, where invoke = "\<lambda>_ _ _ _ _. None" and st = "()" and wx = "(0, [], [])" and ss = "[(Client ''127.0.0.1'' 9000, ''tcp''), (Client ''0.0.0.0'' 0, ''none''), (UDP ''239.255.0.1'' 12345, ''udp'')]"]
  obtain rs l' w' where "add_all table_kernel [(Client ''127.0.0.1'' 9000, ''tcp''), (Client ''0.0.0.0'' 0, ''none''), (UDP ''239.255.0.1'' 12345, ''udp'')]
      (new_event_loop\<lparr>epoll_fd := 3\<rparr>) (4, [3], []) = Some (rs, l', w')" "table_watched w' = {r \<in> set rs. 0 \<le> r}"
    by (elim exE conjE)
  then show ?thesis by blast
qed

end
