(* ===== verification/Exchange_Emulator.thy ===== *)
theory Exchange_Emulator
  imports Event_Loop_Correct Strategy_Engine
begin

text \<open>
  The exchange emulator of \<open>ExchangeEmulator.cpp\<close>: a program that accepts order entry connections
  and answers every OUCH order it receives by an ITCH add order on the multicast feed. The two
  callbacks of its event loop are a datatype, their captured variables constructor arguments and
  state.
\<close>

section \<open>System calls\<close>

text \<open>
  In addition to those of the event loop: \<open>accept\<close>, \<open>sendto\<close> the multicast group and the clock.
\<close>

record 'w emu_sys = "'w sock_sys" +
  sys_accept :: "int \<Rightarrow> 'w \<Rightarrow> int \<times> 'w"
  sys_sendto :: "int \<Rightarrow> u8 list \<Rightarrow> 'w \<Rightarrow> 'w"
  sys_now :: "'w \<Rightarrow> u64 \<times> 'w"

abbreviation net :: "'w emu_sys \<Rightarrow> 'w net_sys" where
  "net sys \<equiv> net_sys.truncate sys"

section \<open>The callbacks\<close>

datatype emu_callback = OnAccept | OnClientData int

text \<open>
  The callback of a client socket. \<open>ouch_msg.stock\<close> is not terminated: the builder reads the memory
  from it on, which is the rest of the object and then \<open>beyond\<close>, the stack behind the object.
\<close>

definition on_client_data :: "'w emu_sys \<Rightarrow> int \<Rightarrow> (nat \<Rightarrow> u8) \<Rightarrow> u8 list \<Rightarrow> int \<Rightarrow> 'w \<Rightarrow> u64 \<Rightarrow>
    (log_call list \<times> 'w \<times> u64) option" where
  "on_client_data sys udp_sock junk beyond cfd w order_ref_counter =
    (let ((bytes_read, data), w) = sys_recv sys cfd 1024 w in
     if bytes_read = 0 then Some ([log_msg INFO ''Client disconnected.'' []], sys_close sys cfd w, order_ref_counter)
     else if bytes_read < 0 then Some ([], w, order_ref_counter)
     else do {
       buffer \<leftarrow> memcpy (uninit junk 1024) data (nat bytes_read);
       ouch_msg0 \<leftarrow> EnterOrderMsg_view (uninit junk 49);
       (ok, ouch_msg) \<leftarrow> parse_enter_order buffer (nat bytes_read) ouch_msg0;
       if ok then do {
         let stock = drop 20 (EnterOrderMsg_bytes ouch_msg) @ beyond;
         let log1 = log_msg INFO ''Exchange received EnterOrder: %u shares of %.8s at %u''
               [ArgU (unat (eo_shares ouch_msg)), ArgB stock, ArgU (unat (eo_price ouch_msg))];
         let (ts_ns, w) = sys_now sys w;
         (built, itch_buffer) \<leftarrow> build_add_order (uninit junk 128) 128 1 1 ts_ns order_ref_counter
           (eo_buy_sell_indicator ouch_msg) (eo_shares ouch_msg) (Some stock) (eo_price ouch_msg);
         let order_ref_counter = order_ref_counter + 1;
         if built then
           Some ([log1, log_msg INFO ''Exchange broadcasted ITCH AddOrder on multicast.'' []],
             sys_sendto sys udp_sock (take 36 itch_buffer) w, order_ref_counter)
         else Some ([log1], w, order_ref_counter) }
       else Some ([log_msg WARN ''Failed to parse OUCH EnterOrder message.'' []], w, order_ref_counter) })"

text \<open>The callback of the listening socket.\<close>

definition on_accept :: "'w emu_sys \<Rightarrow> int \<Rightarrow> emu_callback NetworkEventLoop \<Rightarrow> 'w \<Rightarrow>
    (log_call list \<times> emu_callback NetworkEventLoop \<times> 'w) option" where
  "on_accept sys sfd l w =
    (let (client_fd, w) = sys_accept sys sfd w in
     if client_fd < 0 then Some ([log_msg ERROR ''Failed to accept client connection.'' []], l, w)
     else do {
       (_, logs, l, w) \<leftarrow> addTCPClient (net sys) ''0.0.0.0'' 0 (OnClientData client_fd) l w;
       Some ([log_msg INFO ''Client connected to TCP Exchange port 9000.'' []] @ logs, l, w) })"

definition emu_invoke :: "'w emu_sys \<Rightarrow> int \<Rightarrow> (nat \<Rightarrow> u8) \<Rightarrow> u8 list \<Rightarrow> (emu_callback, 'w, u64) invoke" where
  "emu_invoke sys udp_sock junk beyond cb sfd l w order_ref_counter =
    (case cb of
       OnAccept \<Rightarrow> do {
         (logs, l, w) \<leftarrow> on_accept sys sfd l w;
         Some (logs, l, w, order_ref_counter) }
     | OnClientData client_fd \<Rightarrow> do {
         (logs, w, order_ref_counter) \<leftarrow> on_client_data sys udp_sock junk beyond sfd w order_ref_counter;
         Some (logs, l, w, order_ref_counter) })"

section \<open>The program\<close>

text \<open>
  \<open>main\<close> after the logger is set up: the exit code and the log calls. The event loop is destroyed
  on every return.
\<close>

definition emulator_main :: "'w emu_sys \<Rightarrow> (nat \<Rightarrow> u8) \<Rightarrow> u8 list \<Rightarrow> 'w \<Rightarrow> (int \<times> log_call list \<times> 'w) option" where
  "emulator_main sys junk beyond w =
    (let log0 = [log_msg INFO ''Exchange Emulator initialized.'' []];
         (ok, log1, l, w) = loop_init (net sys) new_event_loop w in
     if \<not> ok then Some (1, log0 @ log1 @ [log_msg FATAL ''Failed to init NetworkEventLoop.'' []],
       destroy_event_loop (net sys) l w)
     else let (udp_sock, w) = sys_socket sys SOCK_DGRAM w in
     if udp_sock < 0 then Some (1, log0 @ log1 @ [log_msg FATAL ''Failed to create UDP socket.'' []],
       destroy_event_loop (net sys) l w)
     else do {
       (tcp_fd, log2, l, w) \<leftarrow> addTCPListener (net sys) 9000 OnAccept l w;
       if tcp_fd < 0 then
         Some (1, log0 @ log1 @ log2 @ [log_msg FATAL ''Failed to bind TCP listener on port 9000.'' []],
           destroy_event_loop (net sys) l w)
       else do {
         (log3, l, w, _) \<leftarrow> run (net sys) (emu_invoke sys udp_sock junk beyond) l w 500000;
         Some (0, log0 @ log1 @ log2 @ log3,
           destroy_event_loop (net sys) l (sys_close sys udp_sock w)) } })"

section \<open>Echoing an order\<close>

lemma parse_order_bytes:
  assumes "49 \<le> n"
  shows "parse_enter_order (order_bytes oid side shares t price @ r) n out = Some (True, order_msg oid side shares t price)"
proof -
  have "EnterOrderMsg_view (order_bytes oid side shares t price @ r) = Some (to_wire (order_msg oid side shares t price))"
    unfolding order_bytes_def by (rule enter_order_msg.view_bytes) (simp add: order_msg_def to_wire_wf)
  then show ?thesis using assms
    by (simp add: parse_enter_order_eq to_wire_to_wire) (simp add: to_wire_def order_msg_def enter_order_def)
qed

text \<open>
  The text the builder copies from \<open>ouch_msg.stock\<close>: the eight characters of the field and what
  follows up to a zero byte, which the time in force 99998 of the strategy engine has.
\<close>

lemma stock_text:
  assumes "0 \<notin> set t"
  shows "\<exists>u. ctext (Some (drop 20 (EnterOrderMsg_bytes (order_msg oid side shares t price)) @ beyond)) =
    Some (padded t 8 @ u)"
proof -
  let ?m = "order_msg oid side shares t price"
  let ?r = "le_bytes 4 (unat price) @ le_bytes 4 99998 @ drop 36 (EnterOrderMsg_bytes ?m) @ beyond"
  have e: "drop 20 (EnterOrderMsg_bytes ?m) @ beyond = padded t 8 @ ?r"
    by (simp add: EnterOrderMsg_bytes_def order_msg_def enter_order_def)
  have four: "(4 :: nat) = Suc (Suc (Suc (Suc 0)))" by simp
  have "le_bytes 4 99998 = [158, 134, 1, 0 :: u8]" unfolding four by simp
  then have "0 \<in> set ?r" by simp
  moreover have "0 \<notin> set (padded t 8)" using assms by (auto simp: padded_def dest: in_set_takeD)
  ultimately show ?thesis unfolding e
    by (auto simp: ctext_takeWhile takeWhile_append)
qed

lemma padded_append: "length s = n \<Longrightarrow> padded (s @ u) n = s"
  by (simp add: padded_def)

lemma on_client_data_order:
  assumes rv: "sys_recv sys cfd 1024 w = ((49 + int (length rest), order_bytes oid side shares t price @ rest), w1)"
    and len: "length rest \<le> 975" and t: "0 \<notin> set t"
    and now: "sys_now sys w1 = (ts, w2)"
  shows "\<exists>logs u. on_client_data sys udp_sock junk beyond cfd w counter =
    Some (logs, sys_sendto sys udp_sock (AddOrderMsg_bytes (built_msg 1 1 ts counter side shares (padded t 8 @ u) price)) w2, counter + 1)"
proof -
  define d where "d = order_bytes oid side shares t price @ rest"
  let ?m = "order_msg oid side shares t price"
  have n: "nat (49 + int (length rest)) = length d" "length d \<le> 1024" "49 \<le> length d" using len by (simp_all add: d_def)
  define b where "b = d @ drop (length d) (uninit junk 1024)"
  have mc: "memcpy (uninit junk 1024) d (length d) = Some b" using n(2) by (simp add: memcpy_def b_def)
  obtain m0 where m0: "EnterOrderMsg_view (uninit junk 49) = Some m0"
    using enter_order_msg.bytes_view [of "uninit junk 49"] by auto
  have p: "parse_enter_order b (length d) m0 = Some (True, ?m)"
    using parse_order_bytes [OF n(3), of oid side shares t price "rest @ drop (length d) (uninit junk 1024)" m0]
    by (simp add: b_def d_def)
  define stock where "stock = drop 20 (EnterOrderMsg_bytes ?m) @ beyond"
  obtain u where u: "ctext (Some stock) = Some (padded t 8 @ u)" using stock_text [OF t] unfolding stock_def by blast
  define i where "i = AddOrderMsg_bytes (built_msg 1 1 ts counter side shares (padded t 8 @ u) price)"
  have f: "eo_buy_sell_indicator ?m = side" "eo_shares ?m = shares" "eo_price ?m = price"
    by (simp_all add: order_msg_def enter_order_def)
  have bd: "build_add_order (uninit junk 128) 128 1 1 ts counter side shares (Some stock) price =
      Some (True, i @ drop 36 (uninit junk 128))"
    unfolding i_def by (rule build_add_order_eq [OF _ _ u]) simp_all
  have i36: "take 36 (i @ drop 36 (uninit junk 128)) = i"
    using add_order_msg.length_bytes [OF built_msg_wf] by (simp add: i_def)
  have "\<exists>logs. on_client_data sys udp_sock junk beyond cfd w counter = Some (logs, sys_sendto sys udp_sock i w2, counter + 1)"
    unfolding on_client_data_def rv d_def [symmetric]
    by (simp add: n(1) mc m0 p f stock_def [symmetric] bd now Let_def i36 del: take_append)
  then show ?thesis unfolding i_def by blast
qed

text \<open>
  C33. The emulator echoes orders. When a receive on a client socket returns an order as the
  strategy engine encodes it, followed by any other bytes, the callback sends one datagram to the
  multicast group and counts its reference number up; the system's parser reads the datagram as an
  add order with the reference number, side, shares and price of that order. The bytes behind the
  first message, even a second order, have no effect.
\<close>

theorem emulator_echoes_order:
  assumes "sys_recv sys cfd 1024 w = ((49 + int (length rest), order_bytes oid side shares t price @ rest), w1)"
    and "length rest \<le> 975" "0 \<notin> set t" "sys_now sys w1 = (ts, w2)"
  shows "\<exists>logs d. on_client_data sys udp_sock junk beyond cfd w counter =
      Some (logs, sys_sendto sys udp_sock d w2, counter + 1) \<and> length d = 36 \<and>
    (\<forall>out. parse d 36 out = Some (True, out\<lparr>im_type := ch (CHR ''A''), im_id := counter,
       im_quantity := ucast shares, im_price := ucast price,
       im_side := (if side = ch (CHR ''B'') then BUY else SELL)\<rparr>, []))"
proof -
  from on_client_data_order [OF assms] obtain logs u where e: "on_client_data sys udp_sock junk beyond cfd w counter =
    Some (logs, sys_sendto sys udp_sock (AddOrderMsg_bytes (built_msg 1 1 ts counter side shares (padded t 8 @ u) price)) w2, counter + 1)"
    by blast
  let ?d = "AddOrderMsg_bytes (built_msg 1 1 ts counter side shares (padded t 8 @ u) price)"
  have l: "length ?d = 36" by (rule add_order_msg.length_bytes [OF built_msg_wf])
  have "parse ?d 36 out = Some (True, out\<lparr>im_type := ch (CHR ''A''), im_id := counter,
       im_quantity := ucast shares, im_price := ucast price,
       im_side := (if side = ch (CHR ''B'') then BUY else SELL)\<rparr>, [])" for out
    by (rule parse_built [of 36 ?d 1 1 ts counter side shares "padded t 8 @ u" price "[]"]) (use l in simp_all)
  with e l show ?thesis by blast
qed

text \<open>Kernels for the witnesses: one that delivers an order, and a descriptor table with \<open>accept\<close>.\<close>

definition order_kernel :: "u8 list list emu_sys" where
  "order_kernel = \<lparr>sys_epoll_create1 = (\<lambda>w. (-1, w)), sys_socket = (\<lambda>_ w. (-1, w)),
     sys_setsockopt = (\<lambda>_ _ w. (-1, w)), sys_bind = (\<lambda>_ _ w. (-1, w)), sys_listen = (\<lambda>_ w. (-1, w)),
     sys_inet_pton = (\<lambda>_. 0), sys_connect = (\<lambda>_ _ _ w. ((-1, False), w)),
     sys_getfl = (\<lambda>_ w. (-1, w)), sys_setfl = (\<lambda>_ _ w. w), sys_epoll_ctl = (\<lambda>_ _ w. (-1, w)),
     sys_epoll_wait = (\<lambda>_ _ w. ((-1, []), w)), sys_close = (\<lambda>_ w. w),
     sys_recv = (\<lambda>_ _ w. ((49, order_bytes 1 (ch (CHR ''B'')) 100 (map ch ''AAPL'') 15000), w)),
     sys_accept = (\<lambda>_ w. (-1, w)),
     sys_sendto = (\<lambda>_ d w. w @ [d]), sys_now = (\<lambda>w. (0, w))\<rparr>"

theorem emulator_echoes_order_witness:
  "\<exists>logs d. on_client_data order_kernel 5 (\<lambda>_. 0) [] 7 [] 500000 = Some (logs, [d], 500001) \<and>
     parse d 36 \<lparr>im_type = 0, im_id = 0, im_price = 0, im_quantity = 0, im_side = SELL\<rparr> =
       Some (True, \<lparr>im_type = ch (CHR ''A''), im_id = 500000, im_price = 15000, im_quantity = 100, im_side = BUY\<rparr>, [])"
proof -
  have r: "sys_recv order_kernel 7 1024 [] =
      ((49 + int (length ([] :: u8 list)), order_bytes 1 (ch (CHR ''B'')) 100 (map ch ''AAPL'') 15000 @ []), [])"
    by (simp add: order_kernel_def)
  have t: "0 \<notin> set (map ch ''AAPL'')" by (simp add: ch_def)
  have n: "sys_now order_kernel [] = (0, [])" by (simp add: order_kernel_def)
  have "length ([] :: u8 list) \<le> 975" by simp
  from emulator_echoes_order [OF r this t n, of 5 "\<lambda>_. 0" "[]" 500000] obtain logs d
    where "on_client_data order_kernel 5 (\<lambda>_. 0) [] 7 [] 500000 = Some (logs, sys_sendto order_kernel 5 d [], 500000 + 1)"
      "\<forall>out. parse d 36 out = Some (True, out\<lparr>im_type := ch (CHR ''A''), im_id := 500000,
       im_quantity := ucast (100 :: u32), im_price := ucast (15000 :: u32),
       im_side := (if ch (CHR ''B'') = ch (CHR ''B'') then BUY else SELL)\<rparr>, [])" by blast
  then show ?thesis by (simp add: order_kernel_def)
qed

section \<open>Accepting a client\<close>

text \<open>
  The emulator never watches the sockets of its clients. After a connection is accepted on the
  listening socket, its descriptor is open but not in the interest list of the event loop (a new,
  unconnected socket is added instead), so that no event is ever reported for it and its orders are
  not read.
\<close>

lemma accepted_client_not_watched:
  assumes "posix_net (net_sys.truncate sys) opened watched" "loop_inv opened watched l w"
    and "sys_accept sys sfd w = (client_fd, w1)" "new_fd opened watched w (client_fd, w1)" "0 \<le> client_fd"
  shows "\<exists>logs l' w'. on_accept sys sfd l w = Some (logs, l', w') \<and>
    client_fd \<in> opened w' \<and> client_fd \<notin> watched w'"
proof -
  have w1: "opened w1 = insert client_fd (opened w)" "watched w1 = watched w" "client_fd \<notin> opened w"
    using assms(4,5) by (auto simp: new_fd_def split: if_splits)
  then have inv: "loop_inv opened watched l w1" using assms(2) by (auto simp: loop_inv_def)
  from client.adds [OF assms(1) this, of "''0.0.0.0''" 0 "OnClientData client_fd"] obtain r logs l' w'
    where a: "addTCPClient (net sys) ''0.0.0.0'' 0 (OnClientData client_fd) l w1 = Some (r, logs, l', w')"
      "adds_socket opened watched (OnClientData client_fd) l w1 r l' w'" by blast
  have "client_fd \<notin> watched w1" using w1 assms(2) by (auto simp: loop_inv_def)
  with a(2) w1(1) have "client_fd \<in> opened w'" "client_fd \<notin> watched w'"
    by (auto simp: adds_socket_def split: if_splits)
  then show ?thesis using a(1) assms(3,5) by (simp add: on_accept_def)
qed

definition table_emulator :: "fd_table emu_sys" where
  "table_emulator = sock_sys.extend (net_sys.extend table_kernel (sock_sys.fields (\<lambda>_ _ w. ((-1, []), w))))
     (emu_sys.fields (\<lambda>_. table_new) (\<lambda>_ _ w. w) (\<lambda>w. (0, w)))"

end
