(* ===== verification/Order_Book_WF.thy ===== *)
theory Order_Book_WF
  imports Order_Book_Props
begin

text \<open>
  The well-formedness of the order book as a data structure, written as an executable check of its
  arrays alone, without ghost state: what the links of every level, the free list and the hash map
  must look like in memory. Every sequence of operations keeps it.
\<close>

section \<open>The check\<close>

text \<open>The orders of a level and of the free list, by following the \<open>next\<close> pointers.\<close>

definition level_nodes :: "LimitOrderBook \<Rightarrow> Side \<times> nat \<Rightarrow> nat list" where
  "level_nodes l sp = walk (order_pool l) (max_orders l) (lv_head (levels l (fst sp) ! snd sp))"

definition free_nodes :: "LimitOrderBook \<Rightarrow> nat list" where
  "free_nodes l = walk (order_pool l) (max_orders l) (free_list_head l)"

definition all_levels :: "LimitOrderBook \<Rightarrow> (Side \<times> nat) list" where
  "all_levels l = List.product [BUY, SELL] [0..<max_price l]"

text \<open>
  A level: its orders form a doubly-linked list from head to tail with null pointers at both ends,
  belong to the level, are found under their ids in the hash map, and their quantities add up to
  its volume.
\<close>

definition level_wf :: "LimitOrderBook \<Rightarrow> Side \<times> nat \<Rightarrow> bool" where
  "level_wf l sp \<longleftrightarrow> (let lv = levels l (fst sp) ! snd sp; xs = level_nodes l sp in
     dseg (order_pool l) None (lv_head lv) xs (lv_tail lv) None \<and>
     total_volume lv = sum_list (map (\<lambda>i. ord_quantity (order_pool l ! i)) xs) \<and>
     (\<forall>i \<in> set xs. ord_side (order_pool l ! i) = fst sp \<and> unat (ord_price (order_pool l ! i)) = snd sp \<and>
        map_find (order_map l) (ord_id (order_pool l ! i)) = Some (Some i)))"

text \<open>
  The book: all levels are well-formed, the free list ends with a null pointer, and every order of
  the pool is in exactly one level, once, or in the free list, once.
\<close>

definition lob_wf :: "LimitOrderBook \<Rightarrow> bool" where
  "lob_wf l \<longleftrightarrow> (\<forall>sp \<in> set (all_levels l). level_wf l sp) \<and>
     free_chain (order_pool l) (free_list_head l) (free_nodes l) \<and>
     (let nodes = concat (map (level_nodes l) (all_levels l)) @ free_nodes l
      in distinct nodes \<and> set nodes = {0..<max_orders l})"

section \<open>The representation implies the check\<close>

lemma walk_free_chain: "free_chain pool x xs \<Longrightarrow> length xs \<le> fuel \<Longrightarrow> walk pool fuel x = xs"
proof (induction xs arbitrary: x fuel)
  case Nil
  then show ?case by (cases fuel) auto
next
  case (Cons i xs)
  then show ?case by (cases fuel) auto
qed

lemma distinct_le_bound: "distinct xs \<Longrightarrow> set xs \<subseteq> {..<n} \<Longrightarrow> length xs \<le> n" for xs :: "nat list"
  using distinct_card [of xs] card_mono [of "{..<n}" "set xs"] by simp

lemma distinct_concat_map:
  assumes "distinct ks" "\<And>k. k \<in> set ks \<Longrightarrow> distinct (f k)"
    and "\<And>j k. j \<in> set ks \<Longrightarrow> k \<in> set ks \<Longrightarrow> j \<noteq> k \<Longrightarrow> set (f j) \<inter> set (f k) = {}"
  shows "distinct (concat (map f ks))"
  using assms by (induction ks) auto

lemma level_nodes_eq:
  assumes "pool_rep l Q F {}" "unat p < max_price l"
  shows "level_nodes l (s, unat p) = Q s p"
proof -
  have "level_rep (order_pool l) (levels l s ! unat p) (Q s p)" using assms by (simp add: pool_rep_def)
  moreover have "length (Q s p) \<le> max_orders l"
    using assms(1) by (intro distinct_le_bound) (auto simp: pool_rep_def pool_partition_def)
  ultimately show ?thesis by (auto simp: level_nodes_def level_rep_def intro: walk_dseg)
qed

lemma free_nodes_eq:
  assumes "pool_rep l Q F {}"
  shows "free_nodes l = F"
proof -
  have "length F \<le> max_orders l"
    using assms by (intro distinct_le_bound) (auto simp: pool_rep_def pool_partition_def)
  with assms show ?thesis by (simp add: free_nodes_def pool_rep_def walk_free_chain)
qed

text \<open>A level index of an array that fits the address space is a price.\<close>

lemma level_price:
  assumes "sp \<in> set (all_levels l)" "max_price l < 2 ^ 64"
  obtains s p where "sp = (s, unat (p :: u64))" "unat p < max_price l"
proof -
  obtain s k where sp: "sp = (s, k)" by fastforce
  with assms(1) have k: "k < max_price l" by (auto simp: all_levels_def)
  then have "unat (of_nat k :: u64) = k" using assms(2) by (simp add: unat_of_nat take_bit_eq_mod)
  with sp k that [of s "of_nat k"] show thesis by simp
qed

lemma level_wf_rep:
  assumes "book_rep l Q F b" "unat (p :: u64) < max_price l"
  shows "level_wf l (s, unat p)"
proof -
  note R = book_repD(1) [OF assms(1)]
  have "map_find (order_map l) (ord_id (order_pool l ! i)) = Some (Some i)" if "i \<in> set (Q s p)" for i
  proof -
    have "om_abs (order_map l) (ord_id (order_pool l ! i)) = Some i" using that book_repD(3) [OF assms(1)] by blast
    then show ?thesis using map_find_eq [OF book_repD(2) [OF assms(1)], of "ord_id (order_pool l ! i)"] by simp
  qed
  moreover have "level_rep (order_pool l) (levels l s ! unat p) (Q s p)" using R assms(2) by (simp add: pool_rep_def)
  ultimately show ?thesis using level_nodes_eq [OF R assms(2), of s] pool_rep_levelD(3,4) [OF R]
    by (simp add: level_wf_def level_rep_def)
qed

lemma nodes_rep:
  assumes R: "pool_rep l Q F {}" and m: "max_price l < 2 ^ 64"
  shows "distinct (concat (map (level_nodes l) (all_levels l)) @ F)"
    and "set (concat (map (level_nodes l) (all_levels l)) @ F) = {0..<max_orders l}"
proof -
  have P: "pool_partition (max_orders l) Q F {}" using R by (simp add: pool_rep_def)
  have "\<Union> (set ` level_nodes l ` set (all_levels l)) = live Q"
  proof (intro equalityI subsetI)
    fix i assume "i \<in> \<Union> (set ` level_nodes l ` set (all_levels l))"
    then obtain sp where "sp \<in> set (all_levels l)" "i \<in> set (level_nodes l sp)" by blast
    with level_nodes_eq [OF R] show "i \<in> live Q" by (metis level_price [OF _ m] mem_liveI)
  next
    fix i assume "i \<in> live Q"
    then obtain s p where i: "i \<in> set (Q s p)" by (auto simp: live_def)
    then have p: "unat p < max_price l" by (rule pool_rep_levelD(1) [OF R])
    moreover have "(s, unat p) \<in> set (all_levels l)" using p by (cases s) (simp_all add: all_levels_def)
    ultimately show "i \<in> \<Union> (set ` level_nodes l ` set (all_levels l))" using level_nodes_eq [OF R p, of s] i by (auto intro!: bexI [of _ "(s, unat p)"])
  qed
  then have s: "set (concat (map (level_nodes l) (all_levels l))) = live Q" by simp
  show "set (concat (map (level_nodes l) (all_levels l)) @ F) = {0..<max_orders l}"
    using P s by (auto simp: pool_partition_def)
  have "distinct (concat (map (level_nodes l) (all_levels l)))"
  proof (rule distinct_concat_map)
    show "distinct (all_levels l)" unfolding all_levels_def by (rule distinct_product) simp_all
    show "distinct (level_nodes l sp)" if "sp \<in> set (all_levels l)" for sp
      using that level_nodes_eq [OF R] P by (metis level_price [OF _ m] pool_partition_def)
    show "set (level_nodes l j) \<inter> set (level_nodes l k) = {}"
      if jk: "j \<in> set (all_levels l)" "k \<in> set (all_levels l)" "j \<noteq> k" for j k
    proof -
      obtain s p where j: "j = (s, unat (p :: u64))" "unat p < max_price l" by (rule level_price [OF jk(1) m])
      obtain t q where k: "k = (t, unat (q :: u64))" "unat q < max_price l" by (rule level_price [OF jk(2) m])
      have "(s, p) \<noteq> (t, q)" using jk(3) j k by auto
      with pool_rep_disjoint [OF R] j k show ?thesis by (simp add: level_nodes_eq [OF R])
    qed
  qed
  with P s show "distinct (concat (map (level_nodes l) (all_levels l)) @ F)" by (auto simp: pool_partition_def)
qed

lemma refines_wf:
  assumes "lob_refines l b" "max_price l < 2 ^ 64"
  shows "lob_wf l"
proof -
  from assms(1) obtain Q F where B: "book_rep l Q F b" by (auto simp: lob_refines_def)
  note R = book_repD(1) [OF B]
  have "\<forall>sp \<in> set (all_levels l). level_wf l sp" using level_wf_rep [OF B] by (metis level_price [OF _ assms(2)])
  moreover have "free_chain (order_pool l) (free_list_head l) F" using R by (simp add: pool_rep_def)
  ultimately show ?thesis using nodes_rep [OF R assms(2)] free_nodes_eq [OF R] by (simp only: lob_wf_def Let_def)
qed

section \<open>Properties\<close>

text \<open>
  C7. The order book stays well-formed: after every sequence of add, cancel and modify on a fresh
  book that contains fewer than \<open>2 * max_orders\<close> adds, each level is a doubly-linked list of orders
  of that side and price which the hash map finds under their ids and whose quantities add up to
  the volume of the level, and the levels and the free list divide the whole pool among them: no
  order is lost, linked twice, or linked and free.
\<close>

theorem lob_stays_well_formed:
  assumes "init_memory_pool mmap_ok mo mp = Inr l" "0 < mo"
    and "sum_list (map slots_used cs) < 2 * unat mo"
  shows "\<exists>answers l'. run_steps lob_step l cs = Some (answers, l') \<and> lob_wf l'"
proof -
  note I = init_memory_pool_refines [OF assms(1,2)]
  then have "sized_refines (unat mo) (unat mp) l []" by (simp add: sized_refines_def)
  from lob.run_sim [OF this, of cs] assms(3) I(2) obtain l' b answers
    where "run_steps lob_step l cs = Some (answers, l')" "lob_refines l' b" "max_price l' = unat mp"
    by (auto simp: sized_refines_def)
  moreover have "unat mp < 2 ^ 64" using unsigned_less [of mp, where ?'a = nat] by simp
  ultimately show ?thesis using refines_wf by metis
qed

theorem lob_stays_well_formed_witness:
  "\<exists>l answers l'. init_memory_pool (\<lambda>_. True) 2 8 = Inr l \<and>
     run_steps lob_step l [Add 1 BUY 5 100, Add 2 BUY 5 50, Modify 1 150, Cancel 2, Add 7 SELL 6 1] = Some (answers, l') \<and>
     distinct (free_nodes l') \<and> level_wf l' (BUY, 5)"
proof -
  obtain l where l: "init_memory_pool (\<lambda>_. True) 2 8 = Inr l" "max_price l = 8" using demo_empty by blast
  let ?cs = "[Add 1 BUY 5 100, Add 2 BUY 5 50, Modify 1 150, Cancel 2, Add 7 SELL 6 1]"
  obtain answers l' where r: "run_steps lob_step l ?cs = Some (answers, l')" "lob_wf l'"
    using lob_stays_well_formed [OF l(1), of ?cs] by auto
  from lob.run_sim [of 2 8 l "[]" ?cs] init_memory_pool_refines [OF l(1)] r(1) have "max_price l' = 8"
    by (auto simp: sized_refines_def)
  then have "(BUY, 5) \<in> set (all_levels l')" by (simp add: all_levels_def)
  with r(2) have "level_wf l' (BUY, 5)" "distinct (free_nodes l')" by (simp_all add: lob_wf_def Let_def)
  with l(1) r(1) show ?thesis by blast
qed

end
