(* ===== verification/Naive_Book.thy ===== *)
theory Naive_Book
  imports Order_Book_Props
begin

text \<open>
  The reference order book \<open>benchmarks/NaiveOrderBook.hpp\<close>, against which the benchmarks compare
  \<open>LimitOrderBook\<close>: ordered maps from prices to linked lists and a hash map from ids to list
  iterators. Standard maps are partial functions; a node of a \<open>std::list\<close> is an order with its
  address, an iterator is the address of a node. The book meets the contract of \<open>Book_Spec\<close>, which
  gives its equivalence with \<open>LimitOrderBook\<close>.
\<close>

section \<open>Data\<close>

datatype NaiveSide = NaiveBUY | NaiveSELL

record NaiveOrder =
  no_id :: u64
  no_price :: u64
  no_quantity :: u64
  no_side :: NaiveSide

type_synonym node = "nat \<times> NaiveOrder"

record OrderLocation =
  loc_side :: NaiveSide
  loc_price :: u64
  loc_it :: nat

text \<open>\<open>nb_next\<close> is the address the allocator gives to the next node.\<close>

record NaiveOrderBook =
  nb_bids :: "u64 \<rightharpoonup> node list"
  nb_asks :: "u64 \<rightharpoonup> node list"
  nb_orders :: "u64 \<rightharpoonup> OrderLocation"
  nb_next :: nat

definition new_naive :: NaiveOrderBook where
  "new_naive = \<lparr>nb_bids = Map.empty, nb_asks = Map.empty, nb_orders = Map.empty, nb_next = 0\<rparr>"

section \<open>Operations\<close>

text \<open>\<open>operator[]\<close> of a map: a missing key gets an empty list.\<close>

definition at_key :: "('k \<rightharpoonup> 'v list) \<Rightarrow> 'k \<Rightarrow> 'v list" where
  "at_key m k = (case m k of None \<Rightarrow> [] | Some xs \<Rightarrow> xs)"

text \<open>\<open>std::list::erase\<close>: no defined result for an iterator that is not in the list.\<close>

fun list_erase :: "node list \<Rightarrow> nat \<Rightarrow> node list option" where
  "list_erase [] it = None"
| "list_erase (n # ns) it = (if fst n = it then Some ns else map_option ((#) n) (list_erase ns it))"

definition naive_add :: "NaiveOrderBook \<Rightarrow> u64 \<Rightarrow> NaiveSide \<Rightarrow> u64 \<Rightarrow> u64 \<Rightarrow> bool \<times> NaiveOrderBook" where
  "naive_add b oid side price quantity =
    (if nb_orders b oid \<noteq> None then (False, b)
     else
       let order = \<lparr>no_id = oid, no_price = price, no_quantity = quantity, no_side = side\<rparr> in
       if side = NaiveBUY then
         let lst = at_key (nb_bids b) price @ [(nb_next b, order)]; it = fst (last lst)
         in (True, b\<lparr>nb_bids := (nb_bids b)(price \<mapsto> lst), nb_next := nb_next b + 1,
               nb_orders := (nb_orders b)(oid \<mapsto> \<lparr>loc_side = side, loc_price = price, loc_it = it\<rparr>)\<rparr>)
       else
         let lst = at_key (nb_asks b) price @ [(nb_next b, order)]; it = fst (last lst)
         in (True, b\<lparr>nb_asks := (nb_asks b)(price \<mapsto> lst), nb_next := nb_next b + 1,
               nb_orders := (nb_orders b)(oid \<mapsto> \<lparr>loc_side = side, loc_price = price, loc_it = it\<rparr>)\<rparr>))"

definition naive_cancel :: "NaiveOrderBook \<Rightarrow> u64 \<Rightarrow> (bool \<times> NaiveOrderBook) option" where
  "naive_cancel b oid =
    (case nb_orders b oid of
       None \<Rightarrow> Some (False, b)
     | Some loc \<Rightarrow> do {
         b \<leftarrow> (if loc_side loc = NaiveBUY then do {
                 lst \<leftarrow> list_erase (at_key (nb_bids b) (loc_price loc)) (loc_it loc);
                 Some (b\<lparr>nb_bids := (nb_bids b)(loc_price loc := if lst = [] then None else Some lst)\<rparr>) }
               else do {
                 lst \<leftarrow> list_erase (at_key (nb_asks b) (loc_price loc)) (loc_it loc);
                 Some (b\<lparr>nb_asks := (nb_asks b)(loc_price loc := if lst = [] then None else Some lst)\<rparr>) });
         Some (True, b\<lparr>nb_orders := (nb_orders b)(oid := None)\<rparr>) })"

text \<open>Calls on the reference book, and the same calls on \<open>LimitOrderBook\<close>.\<close>

datatype naive_cmd = NAdd u64 Side u64 u64 | NCancel u64

primrec naive_side :: "Side \<Rightarrow> NaiveSide" where
  "naive_side BUY = NaiveBUY"
| "naive_side SELL = NaiveSELL"

primrec naive_step :: "NaiveOrderBook \<Rightarrow> naive_cmd \<Rightarrow> (bool \<times> NaiveOrderBook) option" where
  "naive_step b (NAdd oid s p q) = Some (naive_add b oid (naive_side s) p q)"
| "naive_step b (NCancel oid) = naive_cancel b oid"

primrec book_call :: "naive_cmd \<Rightarrow> book_cmd" where
  "book_call (NAdd oid s p q) = Add oid s p q"
| "book_call (NCancel oid) = Cancel oid"

primrec naive_levels :: "NaiveOrderBook \<Rightarrow> Side \<Rightarrow> u64 \<rightharpoonup> node list" where
  "naive_levels b BUY = nb_bids b"
| "naive_levels b SELL = nb_asks b"

text \<open>The orders of a price level, oldest first.\<close>

definition naive_queue :: "NaiveOrderBook \<Rightarrow> Side \<Rightarrow> u64 \<Rightarrow> (u64 \<times> u64) list" where
  "naive_queue b s p = map (\<lambda>n. (no_id (snd n), no_quantity (snd n))) (at_key (naive_levels b s) p)"

section \<open>The reference book meets the contract\<close>

definition node_of :: "NaiveOrderBook \<Rightarrow> resting \<Rightarrow> node" where
  "node_of b r = (loc_it (the (nb_orders b (r_id r))),
     \<lparr>no_id = r_id r, no_price = r_price r, no_quantity = r_quantity r, no_side = naive_side (r_side r)\<rparr>)"

abbreviation level_of :: "resting list \<Rightarrow> Side \<Rightarrow> u64 \<Rightarrow> resting list" where
  "level_of rs s p \<equiv> filter (\<lambda>r. r_side r = s \<and> r_price r = p) rs"

text \<open>
  The lists of the levels hold the resting orders in priority order, the hash map holds their
  locations, different orders have different nodes, and no map entry has an empty list.
\<close>

definition naive_rep :: "NaiveOrderBook \<Rightarrow> resting list \<Rightarrow> bool" where
  "naive_rep b rs \<longleftrightarrow> distinct (map r_id rs) \<and> dom (nb_orders b) = r_id ` set rs \<and>
     (\<forall>r \<in> set rs. loc_side (the (nb_orders b (r_id r))) = naive_side (r_side r) \<and>
        loc_price (the (nb_orders b (r_id r))) = r_price r \<and> loc_it (the (nb_orders b (r_id r))) < nb_next b) \<and>
     inj_on (\<lambda>r. loc_it (the (nb_orders b (r_id r)))) (set rs) \<and>
     (\<forall>s p. at_key (naive_levels b s) p = map (node_of b) (level_of rs s p) \<and> naive_levels b s p \<noteq> Some [])"

definition naive_room :: "nat \<Rightarrow> NaiveOrderBook \<Rightarrow> nat" where
  "naive_room n b = n - card (dom (nb_orders b))"

lemma naive_rep_find: "naive_rep b rs \<Longrightarrow> nb_orders b oid = None \<longleftrightarrow> spec_find rs oid = None"
  by (auto simp: naive_rep_def spec_find_None_iff)

lemma naive_rep_room: "naive_rep b rs \<Longrightarrow> naive_room n b = n - length rs"
  using distinct_card [of "map r_id rs"] by (simp add: naive_rep_def naive_room_def)

lemma naive_rep_queue: "naive_rep b rs \<Longrightarrow> naive_queue b s p = level_queue rs s p"
  by (simp add: naive_rep_def naive_queue_def level_queue_def node_of_def)

lemma naive_rep_new: "naive_rep new_naive []"
proof -
  have "naive_levels new_naive s = Map.empty" for s by (cases s) (simp_all add: new_naive_def)
  then show ?thesis by (simp add: naive_rep_def at_key_def) (simp add: new_naive_def)
qed

lemma naive_side_eq [simp]: "naive_side s = naive_side t \<longleftrightarrow> s = t"
  by (cases s; cases t) simp_all

text \<open>Both branches of an operation as an update of the levels of one side.\<close>

definition set_naive_levels :: "NaiveOrderBook \<Rightarrow> Side \<Rightarrow> (u64 \<rightharpoonup> node list) \<Rightarrow> NaiveOrderBook" where
  "set_naive_levels b s m = (case s of BUY \<Rightarrow> b\<lparr>nb_bids := m\<rparr> | SELL \<Rightarrow> b\<lparr>nb_asks := m\<rparr>)"

lemma set_naive_levels_simps [simp]:
  "nb_orders (set_naive_levels b s m) = nb_orders b" "nb_next (set_naive_levels b s m) = nb_next b"
  "naive_levels (set_naive_levels b s m) t = (if t = s then m else naive_levels b t)"
  "naive_levels (b\<lparr>nb_orders := om, nb_next := k\<rparr>) t = naive_levels b t"
  "naive_levels (b\<lparr>nb_orders := om\<rparr>) t = naive_levels b t"
  by (cases s; cases t; simp add: set_naive_levels_def)+

lemma naive_add_eq:
  "nb_orders b oid = None \<Longrightarrow> naive_add b oid (naive_side s) p q =
     (True, (set_naive_levels b s ((naive_levels b s)(p \<mapsto> at_key (naive_levels b s) p @
        [(nb_next b, \<lparr>no_id = oid, no_price = p, no_quantity = q, no_side = naive_side s\<rparr>)])))
       \<lparr>nb_orders := (nb_orders b)(oid \<mapsto> \<lparr>loc_side = naive_side s, loc_price = p, loc_it = nb_next b\<rparr>), nb_next := nb_next b + 1\<rparr>)"
  by (cases s) (simp_all add: naive_add_def set_naive_levels_def)

lemma naive_cancel_eq:
  assumes "nb_orders b oid = Some \<lparr>loc_side = naive_side s, loc_price = p, loc_it = it\<rparr>"
    and "list_erase (at_key (naive_levels b s) p) it = Some lst"
  shows "naive_cancel b oid = Some (True, (set_naive_levels b s ((naive_levels b s)(p := if lst = [] then None else Some lst)))
       \<lparr>nb_orders := (nb_orders b)(oid := None)\<rparr>)"
  using assms by (cases s) (simp_all add: naive_cancel_def set_naive_levels_def)

lemma list_erase_map:
  assumes "distinct (map (fst \<circ> f) xs)" "x \<in> set xs"
  shows "list_erase (map f xs) (fst (f x)) = Some (map f (filter (\<lambda>y. y \<noteq> x) xs))"
  using assms
proof (induction xs)
  case (Cons y ys)
  show ?case
  proof (cases "y = x")
    case True
    with Cons.prems(1) have "filter (\<lambda>z. z \<noteq> x) ys = ys" by (auto intro: filter_True)
    with True show ?thesis by simp
  next
    case False
    with Cons show ?thesis by force
  qed
qed simp

lemma node_of_other:
  "r_id r \<noteq> oid \<Longrightarrow> node_of (b'\<lparr>nb_orders := (nb_orders b)(oid := x)\<rparr>) r = node_of b r"
  "r_id r \<noteq> oid \<Longrightarrow> node_of (b'\<lparr>nb_orders := (nb_orders b)(oid := x), nb_next := k\<rparr>) r = node_of b r"
  by (simp_all add: node_of_def)

lemma naive_add_rep:
  assumes R: "naive_rep b rs" and new: "spec_find rs oid = None"
  shows "\<exists>b'. naive_add b oid (naive_side s) p q = (True, b') \<and>
    naive_rep b' (rs @ [\<lparr>r_id = oid, r_side = s, r_price = p, r_quantity = q\<rparr>])"
proof -
  let ?r = "\<lparr>r_id = oid, r_side = s, r_price = p, r_quantity = q\<rparr>"
  have no: "nb_orders b oid = None" using naive_rep_find [OF R] new by simp
  have ni: "oid \<notin> r_id ` set rs" using new by (simp add: spec_find_None_iff)
  then have neq: "r_id r \<noteq> oid" if "r \<in> set rs" for r using that by auto
  let ?n = "(nb_next b, \<lparr>no_id = oid, no_price = p, no_quantity = q, no_side = naive_side s\<rparr>)"
  let ?m = "(naive_levels b s)(p \<mapsto> at_key (naive_levels b s) p @ [?n])"
  let ?b = "(set_naive_levels b s ?m)\<lparr>nb_orders := (nb_orders b)(oid \<mapsto> \<lparr>loc_side = naive_side s, loc_price = p, loc_it = nb_next b\<rparr>), nb_next := nb_next b + 1\<rparr>"
  have lv: "at_key (naive_levels ?b t) p' = map (node_of ?b) (level_of (rs @ [?r]) t p')"
    "naive_levels ?b t p' \<noteq> Some []" for t p'
  proof -
    have "map (node_of ?b) (level_of rs t p') = map (node_of b) (level_of rs t p')"
      using neq by (intro map_cong refl node_of_other) auto
    moreover have "at_key (naive_levels b t) p' = map (node_of b) (level_of rs t p')" "naive_levels b t p' \<noteq> Some []"
      using R by (simp_all add: naive_rep_def)
    moreover have "node_of ?b ?r = ?n" by (simp add: node_of_def)
    ultimately show "at_key (naive_levels ?b t) p' = map (node_of ?b) (level_of (rs @ [?r]) t p')" "naive_levels ?b t p' \<noteq> Some []"
      by (auto simp: at_key_def)
  qed
  have "naive_rep ?b (rs @ [?r])"
    unfolding naive_rep_def
  proof (intro conjI ballI allI lv)
    show "distinct (map r_id (rs @ [?r]))" using R ni by (simp add: naive_rep_def)
    show "dom (nb_orders ?b) = r_id ` set (rs @ [?r])" using R by (simp add: naive_rep_def)
    show "inj_on (\<lambda>r. loc_it (the (nb_orders ?b (r_id r)))) (set (rs @ [?r]))"
      using R neq by (fastforce simp: naive_rep_def inj_on_def)
  qed (use R neq in \<open>auto simp: naive_rep_def less_SucI\<close>)
  with naive_add_eq [OF no] show ?thesis by blast
qed

lemma naive_cancel_rep:
  assumes R: "naive_rep b rs" and old: "spec_find rs oid \<noteq> None"
  shows "\<exists>b'. naive_cancel b oid = Some (True, b') \<and> naive_rep b' (filter (\<lambda>r. r_id r \<noteq> oid) rs)"
proof -
  from old obtain r where r: "r \<in> set rs" "r_id r = oid" by (auto simp: spec_find_None_iff)
  let ?s = "r_side r" and ?p = "r_price r" and ?it = "loc_it (the (nb_orders b oid))"
  have same: "r' = r" if "r' \<in> set rs" "r_id r' = oid" for r'
    using R r that by (auto simp: naive_rep_def distinct_map inj_on_def)
  obtain loc where loc: "nb_orders b oid = Some loc" using naive_rep_find [OF R, of oid] old by (cases "nb_orders b oid") auto
  with R r have l: "nb_orders b oid = Some \<lparr>loc_side = naive_side ?s, loc_price = ?p, loc_it = ?it\<rparr>"
    by (cases loc) (force simp: naive_rep_def)
  have d: "distinct (map (fst \<circ> node_of b) (level_of rs ?s ?p))"
    using R by (auto simp: naive_rep_def distinct_map node_of_def comp_def intro: inj_on_subset)
  have e: "filter (\<lambda>y. y \<noteq> r) (level_of rs t p') = level_of (filter (\<lambda>r. r_id r \<noteq> oid) rs) t p'" for t p'
    using same r(2) by (auto simp: filter_filter intro!: filter_cong)
  let ?lst = "map (node_of b) (level_of (filter (\<lambda>r. r_id r \<noteq> oid) rs) ?s ?p)"
  have "list_erase (map (node_of b) (level_of rs ?s ?p)) (fst (node_of b r)) = Some ?lst"
    unfolding e [symmetric] using r by (intro list_erase_map [OF d]) simp
  then have er: "list_erase (at_key (naive_levels b ?s) ?p) ?it = Some ?lst"
    using R r(2) by (simp add: naive_rep_def node_of_def)
  let ?m = "(naive_levels b ?s)(?p := if ?lst = [] then None else Some ?lst)"
  let ?b = "(set_naive_levels b ?s ?m)\<lparr>nb_orders := (nb_orders b)(oid := None)\<rparr>"
  have lv: "at_key (naive_levels ?b t) p' = map (node_of ?b) (level_of (filter (\<lambda>r. r_id r \<noteq> oid) rs) t p')"
    "naive_levels ?b t p' \<noteq> Some []" for t p'
  proof -
    have n: "map (node_of ?b) (level_of (filter (\<lambda>r. r_id r \<noteq> oid) rs) t p') = map (node_of b) (level_of (filter (\<lambda>r. r_id r \<noteq> oid) rs) t p')"
      by (intro map_cong refl node_of_other) auto
    have o: "at_key (naive_levels b t) p' = map (node_of b) (level_of rs t p')" "naive_levels b t p' \<noteq> Some []"
      using R by (simp_all add: naive_rep_def)
    have "level_of (filter (\<lambda>r. r_id r \<noteq> oid) rs) t p' = level_of rs t p'" if "t \<noteq> ?s \<or> p' \<noteq> ?p"
      using that same by (auto simp: filter_filter intro!: filter_cong)
    then show "at_key (naive_levels ?b t) p' = map (node_of ?b) (level_of (filter (\<lambda>r. r_id r \<noteq> oid) rs) t p')"
      "naive_levels ?b t p' \<noteq> Some []" unfolding n using o by (auto simp: at_key_def)
  qed
  have "naive_rep ?b (filter (\<lambda>r. r_id r \<noteq> oid) rs)"
    unfolding naive_rep_def
  proof (intro conjI allI lv)
    show "distinct (map r_id (filter (\<lambda>r. r_id r \<noteq> oid) rs))" using R by (simp add: naive_rep_def distinct_map_filter)
    show "dom (nb_orders ?b) = r_id ` set (filter (\<lambda>r. r_id r \<noteq> oid) rs)" using R by (auto simp: naive_rep_def)
    show "inj_on (\<lambda>r. loc_it (the (nb_orders ?b (r_id r)))) (set (filter (\<lambda>r. r_id r \<noteq> oid) rs))"
      using R by (auto simp: naive_rep_def inj_on_def)
  qed (use R in \<open>auto simp: naive_rep_def\<close>)
  with naive_cancel_eq [OF l er] show ?thesis by blast
qed

text \<open>The reference book has no limit on prices, so its specification has all 2^64 of them.\<close>

interpretation naive: bounded_sim naive_step "\<lambda>rs c. spec_step n (2 ^ 64) rs (book_call c)" naive_rep
  "naive_room n" "\<lambda>c. slots_used (book_call c)" for n
proof (unfold_locales, goal_cases)
  case (1 b rs c)
  show ?case
  proof (cases c)
    case (NAdd oid s p q)
    have p: "unat p < 2 ^ 64" using unsigned_less [of p, where ?'a = nat] by simp
    have n: "length rs < n" using 1 naive_rep_room [OF 1(1)] by simp
    show ?thesis
    proof (cases "spec_find rs oid = None")
      case True
      from naive_add_rep [OF 1(1) True, of s p q] obtain b' where b': "naive_add b oid (naive_side s) p q = (True, b')"
        "naive_rep b' (rs @ [\<lparr>r_id = oid, r_side = s, r_price = p, r_quantity = q\<rparr>])" by blast
      with NAdd True n p naive_rep_room [OF 1(1)] naive_rep_room [OF b'(2)] show ?thesis
        by (simp add: spec_add_def not_le [symmetric])
    next
      case False
      then have "naive_add b oid (naive_side s) p q = (False, b)" using naive_rep_find [OF 1(1)] by (simp add: naive_add_def)
      with NAdd False 1(1) show ?thesis by (simp add: spec_add_def)
    qed
  next
    case (NCancel oid)
    show ?thesis
    proof (cases "spec_find rs oid = None")
      case True
      then have "nb_orders b oid = None" using naive_rep_find [OF 1(1)] by simp
      with NCancel True 1(1) show ?thesis by (simp add: naive_cancel_def spec_cancel_def)
    next
      case False
      from naive_cancel_rep [OF 1(1) this] obtain b' where b': "naive_cancel b oid = Some (True, b')"
        "naive_rep b' (filter (\<lambda>r. r_id r \<noteq> oid) rs)" by blast
      have "n - length rs \<le> n - length (filter (\<lambda>r. r_id r \<noteq> oid) rs)" by (intro diff_le_mono2) simp
      with NCancel False b' naive_rep_room [OF 1(1)] naive_rep_room [OF b'(2)] show ?thesis
        by (auto simp: spec_cancel_def)
    qed
  qed
qed

section \<open>Properties\<close>

primrec price_below :: "nat \<Rightarrow> naive_cmd \<Rightarrow> bool" where
  "price_below m (NAdd oid s p q) = (unat p < m)"
| "price_below m (NCancel oid) = True"

lemma run_spec_prices:
  assumes "\<forall>c \<in> set cs. price_below m c"
  shows "run_spec (spec_step n m) b (map book_call cs) = run_spec (\<lambda>b c. spec_step n (2 ^ 64) b (book_call c)) b cs"
  using assms
proof (induction cs arbitrary: b)
  case (Cons c cs)
  have "spec_step n m b (book_call c) = spec_step n (2 ^ 64) b (book_call c)"
  proof (cases c)
    case (NAdd oid s p q)
    then have "\<not> m \<le> unat p" "\<not> 2 ^ 64 \<le> unat p" using Cons.prems unsigned_less [of p, where ?'a = nat] by simp_all
    with NAdd show ?thesis by (simp add: spec_add_def)
  qed simp
  with Cons show ?case by (simp add: case_prod_beta Let_def)
qed simp

text \<open>
  C8. The optimised order book is equivalent to the reference book: every sequence of adds and
  cancels at prices inside the book, with fewer adds than the book holds orders, runs to its end
  on a fresh \<open>LimitOrderBook\<close> and on a fresh \<open>NaiveOrderBook\<close>, gives the same answer to every call,
  and leaves the same queue at every price of both sides.
\<close>

theorem naive_book_equivalent:
  assumes "init_memory_pool mmap_ok mo mp = Inr l" "\<forall>c \<in> set cs. price_below (unat mp) c"
    and "sum_list (map (slots_used \<circ> book_call) cs) < unat mo"
  shows "\<exists>answers l' b'. run_steps lob_step l (map book_call cs) = Some (answers, l') \<and>
    run_steps naive_step new_naive cs = Some (answers, b') \<and>
    (\<forall>s p. queue_at l' s p = naive_queue b' s p)"
proof -
  let ?spec = "run_spec (spec_step (unat mo) (unat mp)) [] (map book_call cs)"
  have mo: "0 < mo" using assms(3) by (cases "mo = 0") (simp_all add: word_neq_0_conv)
  note I = init_memory_pool_refines [OF assms(1) mo]
  then have "sized_refines (unat mo) (unat mp) l []" by (simp add: sized_refines_def)
  from lob.run_sim [OF this, of "map book_call cs"] assms(3) I(2) obtain l'
    where l': "run_steps lob_step l (map book_call cs) = Some (fst ?spec, l')" "lob_refines l' (snd ?spec)"
    by (auto simp: sized_refines_def comp_def)
  have "sum_list (map (\<lambda>c. slots_used (book_call c)) cs) < naive_room (unat mo) new_naive"
    using assms(3) naive_rep_room [OF naive_rep_new] by (simp add: comp_def)
  from naive.run_sim [OF naive_rep_new this] run_spec_prices [OF assms(2), of "unat mo" "[]"] obtain b'
    where b': "run_steps naive_step new_naive cs = Some (fst ?spec, b')" "naive_rep b' (snd ?spec)" by auto
  have "\<forall>s p. queue_at l' s p = naive_queue b' s p"
    by (simp only: naive_rep_queue [OF b'(2)] refines_queue [OF l'(2)]) blast
  with l'(1) b'(1) show ?thesis by blast
qed

theorem naive_book_equivalent_witness:
  "\<exists>l l' b'. init_memory_pool (\<lambda>_. True) 4 8 = Inr l \<and>
     run_steps lob_step l [Add 1 BUY 5 100, Add 2 BUY 5 50, Cancel 1, Add 2 SELL 6 9] = Some ([True, True, True, False], l') \<and>
     run_steps naive_step new_naive [NAdd 1 BUY 5 100, NAdd 2 BUY 5 50, NCancel 1, NAdd 2 SELL 6 9] = Some ([True, True, True, False], b') \<and>
     queue_at l' BUY 5 = [(2, 50)]"
proof -
  let ?cs = "[NAdd 1 BUY 5 100, NAdd 2 BUY 5 50, NCancel 1, NAdd 2 SELL 6 9]"
  obtain l where l: "init_memory_pool (\<lambda>_. True) 4 8 = Inr l"
    by (simp add: init_memory_pool_def layout_fits_def Let_def case_prod_beta)
  have n: "\<exists>b'. run_steps naive_step new_naive ?cs = Some ([True, True, True, False], b') \<and> naive_queue b' BUY 5 = [(2, 50)]"
    by (simp add: naive_add_def naive_cancel_def new_naive_def at_key_def naive_queue_def)
  have "\<forall>c \<in> set ?cs. price_below (unat (8 :: u64)) c" "sum_list (map (slots_used \<circ> book_call) ?cs) < unat (4 :: u64)"
    by simp_all
  from naive_book_equivalent [OF l this] n l show ?thesis by (auto simp del: run_steps.simps)
qed

end
