(* ===== verification/TSC_Utils.thy ===== *)
theory TSC_Utils
  imports Double_Arith Pre_Trade_Risk
begin

text \<open>
  The time stamp counter of \<open>include/TSCUtils.hpp\<close> and \<open>src/TSCUtils.cpp\<close>: reading it, estimating its
  frequency against the clock, and converting cycles to nanoseconds. The counter, the clock and the
  sleep are parameters that act on the world \<open>'w\<close>; \<open>x86\<close> is the choice the preprocessor makes. The
  console output of the estimate is left out.
\<close>

section \<open>The operations\<close>

text \<open>The clock counts nanoseconds in an \<open>int64_t\<close>, the representation of \<open>high_resolution_clock\<close>.\<close>

record 'w tsc_sys =
  rdtscp :: "'w \<Rightarrow> u64 \<times> 'w"
  clock_now :: "'w \<Rightarrow> int \<times> 'w"
  sleep_for :: "nat \<Rightarrow> 'w \<Rightarrow> 'w"

definition read_tsc :: "bool \<Rightarrow> 'w tsc_sys \<Rightarrow> 'w \<Rightarrow> u64 \<times> 'w" where
  "read_tsc x86 sys w = (if x86 then rdtscp sys w else (0, w))"

text \<open>\<open>None\<close> is the signed overflow of the difference of the two time points.\<close>

definition estimate_tsc_frequency_hz :: "bool \<Rightarrow> 'w tsc_sys \<Rightarrow> 'w \<Rightarrow> (double \<times> 'w) option" where
  "estimate_tsc_frequency_hz x86 sys w =
    (if x86 then
       let (start_time, w) = clock_now sys w;
           (start_tsc, w) = read_tsc x86 sys w;
           w = sleep_for sys 100 w;
           (end_tsc, w) = read_tsc x86 sys w;
           (end_time, w) = clock_now sys w
       in do {
         duration_ns \<leftarrow> i64 (end_time - start_time);
         let tsc_delta = end_tsc - start_tsc;
         let frequency_hz = dbl_mul (dbl_div (double_of_int (int (unat tsc_delta))) (double_of_int duration_ns))
                              (Num 1000000000);
         Some (frequency_hz, w) }
     else Some (Num 0, w))"

definition cycles_to_nanoseconds :: "u64 \<Rightarrow> double \<Rightarrow> double" where
  "cycles_to_nanoseconds cycles frequency_hz =
    (if frequency_hz = Num 0 then Num 0
     else dbl_mul (dbl_div (double_of_int (int (unat cycles))) frequency_hz) (Num 1000000000))"

section \<open>Special values\<close>

lemma double_of_0 [simp]: "double_of_int 0 = Num 0"
  by (simp add: double_of_int_def)

text \<open>
  A clock that does not advance makes the estimate infinite, and every number of cycles is then
  zero nanoseconds; when the counter stands still too, the estimate and every conversion is not a
  number.
\<close>

lemma cycles_with_infinite_frequency: "\<exists>x. double_of_int (int (unat c)) = Num x \<Longrightarrow> cycles_to_nanoseconds c (Infinity s) = Num 0"
  by (auto simp: cycles_to_nanoseconds_def)

lemma cycles_with_nan: "cycles_to_nanoseconds c NaN = NaN"
  by (cases "double_of_int (int (unat c))") (simp_all add: cycles_to_nanoseconds_def)

section \<open>Accuracy\<close>

lemma normal_rangeI: "1 / 2 ^ 150 \<le> x \<Longrightarrow> x \<le> 2 ^ 150 \<Longrightarrow> normal_range x"
proof -
  assume x: "1 / 2 ^ 150 \<le> x" "x \<le> 2 ^ 150"
  have "(2 :: rat) ^ 150 < 2 ^ 1000" by (rule power_strict_increasing) simp_all
  moreover have "(1 :: rat) / 2 ^ 200 \<le> 1 / 2 ^ 150" by simp
  ultimately show ?thesis unfolding normal_range_def using x by (meson order_le_less_trans order_trans)
qed

lemma double_of_pos:
  assumes "0 < i" "i < 2 ^ 64"
  obtains r where "double_of_int i = Num r" "rounds_to (of_int i) r" "1 / 2 \<le> r" "r \<le> 2 ^ 65"
proof -
  have i: "1 \<le> rat_of_int i" using assms(1) by simp
  have "rat_of_int i \<le> of_int (2 ^ 64)" using assms(2) by (intro of_int_le_iff [THEN iffD2]) simp
  then have u: "rat_of_int i \<le> 2 ^ 64" by simp
  have "normal_range (of_int i)" using i u by (intro normal_rangeI) (simp_all add: order_trans [OF _ i] order_trans [OF u])
  from round_double_rounds [OF this] obtain r where r: "round_double (of_int i) = Num r" "rounds_to (of_int i) r" .
  have "1 / 2 \<le> r" "r \<le> 2 ^ 65" using rounds_to_bounds [OF r(2)] i u by simp_all
  with r that show thesis by (simp add: double_of_int_def)
qed

text \<open>
  A quotient of two doubles between 2^-40 and 2^100, times 10^9, with both roundings.
\<close>

lemma scaled_quotient:
  assumes "1 / 2 ^ 40 \<le> x" "x \<le> 2 ^ 65" "1 / 2 ^ 40 \<le> y" "y \<le> 2 ^ 100"
  obtains q r where "dbl_mul (dbl_div (Num x) (Num y)) (Num 1000000000) = Num r" "rounds_to (x / y) q"
    "rounds_to (q * 1000000000) r" "0 < q" "0 < r"
proof -
  have y: "0 < y" using assms(3) by (rule less_le_trans [rotated]) simp
  have lo: "1 / 2 ^ 140 \<le> x / y"
  proof -
    have "(1 / 2 ^ 40) / 2 ^ 100 \<le> x / y" using assms y by (intro frac_le) auto
    then show ?thesis by simp
  qed
  have hi: "x / y \<le> 2 ^ 105"
  proof -
    have "x / y \<le> 2 ^ 65 / (1 / 2 ^ 40)" using assms y by (intro frac_le) auto
    then show ?thesis by simp
  qed
  have "normal_range (x / y)" by (rule normal_rangeI [OF order_trans [OF _ lo] order_trans [OF hi]]) simp_all
  from round_double_rounds [OF this] obtain q where q: "round_double (x / y) = Num q" "rounds_to (x / y) q" "0 < q" .
  have b: "1 / 2 ^ 141 \<le> q" "q \<le> 2 ^ 106" using rounds_to_bounds [OF q(2)] lo hi by simp_all
  have "normal_range (q * 1000000000)" using b by (intro normal_rangeI) simp_all
  from round_double_rounds [OF this] obtain r where "round_double (q * 1000000000) = Num r"
    "rounds_to (q * 1000000000) r" "0 < r" .
  with q y that show thesis by simp
qed

lemma two_roundings:
  assumes "rounds_to x q" "rounds_to (q * k) r" "0 < k"
  shows "(1 - 1 / 2 ^ 53)\<^sup>2 * (x * k) \<le> r" "r \<le> (1 + 1 / 2 ^ 53)\<^sup>2 * (x * k)"
proof -
  have "(1 - 1 / 2 ^ 53) * ((1 - 1 / 2 ^ 53) * x * k) \<le> (1 - 1 / 2 ^ 53) * (q * k)"
    using rounds_to_bounds(1) [OF assms(1)] assms(3) by (intro mult_left_mono mult_right_mono) simp_all
  also have "\<dots> \<le> r" by (rule rounds_to_bounds(1) [OF assms(2)])
  finally show "(1 - 1 / 2 ^ 53)\<^sup>2 * (x * k) \<le> r" by (simp only: power2_eq_square mult.assoc)
  have "r \<le> (1 + 1 / 2 ^ 53) * (q * k)" by (rule rounds_to_bounds(2) [OF assms(2)])
  also have "\<dots> \<le> (1 + 1 / 2 ^ 53) * ((1 + 1 / 2 ^ 53) * x * k)"
    using rounds_to_bounds(2) [OF assms(1)] assms(3) by (intro mult_left_mono mult_right_mono) simp_all
  finally show "r \<le> (1 + 1 / 2 ^ 53)\<^sup>2 * (x * k)" by (simp only: power2_eq_square mult.assoc)
qed

text \<open>What the four readings of the estimate make of the result.\<close>

lemma estimate_eq:
  assumes "clock_now sys w = (s0, w1)" "rdtscp sys w1 = (t0, w2)"
    and "rdtscp sys (sleep_for sys 100 w2) = (t1, w3)" "clock_now sys w3 = (s1, w4)"
    and "estimate_tsc_frequency_hz True sys w = Some (freq, w')"
  shows "freq = dbl_mul (dbl_div (double_of_int (int (unat (t1 - t0)))) (double_of_int (s1 - s0))) (Num 1000000000)"
    and "s1 - s0 < 2 ^ 63"
  using assms by (auto simp: estimate_tsc_frequency_hz_def read_tsc_def i64_def Let_def split: if_splits)

lemma frequency_near:
  fixes x y d t f :: rat
  assumes f: "(1 - 1 / 2 ^ 53)\<^sup>2 * (x / y * 1000000000) \<le> f" "f \<le> (1 + 1 / 2 ^ 53)\<^sup>2 * (x / y * 1000000000)"
    and x: "rounds_to d x" "0 < d" and y: "rounds_to t y" "0 < t"
  shows "\<bar>f - d * 1000000000 / t\<bar> \<le> d * 1000000000 / t / 2 ^ 50"
proof -
  let ?l = "1 - 1 / 2 ^ 53 :: rat" and ?h = "1 + 1 / 2 ^ 53 :: rat"
  note p = rounds_to_pos [OF x] rounds_to_pos [OF y] and bx = rounds_to_bounds [OF x(1)] and b = rounds_to_bounds [OF y(1)]
  have "?l * d / (?h * t) \<le> x / y" using p by (intro frac_le [OF _ bx(1) _ b(2)]) simp_all
  moreover have "x / y \<le> ?h * d / (?l * t)" using x(2) y(2) by (intro frac_le [OF _ bx(2) _ b(1)]) simp_all
  ultimately have "?l\<^sup>2 * (?l * d / (?h * t) * 1000000000) \<le> f" "f \<le> ?h\<^sup>2 * (?h * d / (?l * t) * 1000000000)"
    using f by (meson mult_left_mono mult_right_mono order_trans zero_le_power2 zero_le_numeral)+
  moreover have "(1 - 1 / 2 ^ 50) * (d * 1000000000 / t) \<le> ?l\<^sup>2 * (?l * d / (?h * t) * 1000000000)"
    "?h\<^sup>2 * (?h * d / (?l * t) * 1000000000) \<le> (1 + 1 / 2 ^ 50) * (d * 1000000000 / t)"
    using x(2) y(2) by (simp_all add: power2_eq_square field_simps)
  ultimately have "(1 - 1 / 2 ^ 50) * (d * 1000000000 / t) \<le> f" "f \<le> (1 + 1 / 2 ^ 50) * (d * 1000000000 / t)"
    by (blast intro: order_trans)+
  then show ?thesis unfolding abs_le_iff left_diff_distrib distrib_right by simp
qed

lemma quotient_swap:
  fixes x y f a k :: rat
  assumes "0 < x" "0 < y" "0 < f" "0 < a" "0 < k"
  shows "a * (x / y * k) \<le> f \<Longrightarrow> x / f * k \<le> y / a" "f \<le> a * (x / y * k) \<Longrightarrow> y / a \<le> x / f * k"
  using assms by (simp_all add: field_simps)

lemma duration_near:
  fixes x y t f r :: rat
  assumes f: "(1 - 1 / 2 ^ 53)\<^sup>2 * (x / y * 1000000000) \<le> f" "f \<le> (1 + 1 / 2 ^ 53)\<^sup>2 * (x / y * 1000000000)"
    and r: "(1 - 1 / 2 ^ 53)\<^sup>2 * (x / f * 1000000000) \<le> r" "r \<le> (1 + 1 / 2 ^ 53)\<^sup>2 * (x / f * 1000000000)"
    and x: "0 < x" "0 < f" and y: "rounds_to t y" "0 < t"
  shows "\<bar>r - t\<bar> \<le> t / 2 ^ 50"
proof -
  let ?l = "1 - 1 / 2 ^ 53 :: rat" and ?h = "1 + 1 / 2 ^ 53 :: rat"
  note p = rounds_to_pos [OF y] and b = rounds_to_bounds [OF y(1)]
  have "?l\<^sup>2 * (?l * t / ?h\<^sup>2) \<le> ?l\<^sup>2 * (y / ?h\<^sup>2)" using b(1) by (intro mult_left_mono divide_right_mono) simp_all
  also have "\<dots> \<le> ?l\<^sup>2 * (x / f * 1000000000)" using x p f(2) by (intro mult_left_mono quotient_swap) simp_all
  also note r(1)
  finally have lo: "?l\<^sup>2 * (?l * t / ?h\<^sup>2) \<le> r" .
  note r(2)
  also have "?h\<^sup>2 * (x / f * 1000000000) \<le> ?h\<^sup>2 * (y / ?l\<^sup>2)" using x p f(1) by (intro mult_left_mono quotient_swap) simp_all
  also have "\<dots> \<le> ?h\<^sup>2 * (?h * t / ?l\<^sup>2)" using b(2) by (intro mult_left_mono divide_right_mono) simp_all
  finally have hi: "r \<le> ?h\<^sup>2 * (?h * t / ?l\<^sup>2)" .
  have "(1 - 1 / 2 ^ 50) * t \<le> ?l\<^sup>2 * (?l * t / ?h\<^sup>2)" "?h\<^sup>2 * (?h * t / ?l\<^sup>2) \<le> (1 + 1 / 2 ^ 50) * t"
    using y(2) by (simp_all add: power2_eq_square field_simps)
  then have "(1 - 1 / 2 ^ 50) * t \<le> r" "r \<le> (1 + 1 / 2 ^ 50) * t" using lo hi by (blast intro: order_trans)+
  then show ?thesis unfolding abs_le_iff left_diff_distrib distrib_right by simp
qed

section \<open>Properties\<close>

text \<open>
  C22. Calibration of the time stamp counter. When the clock advances and the counter moves during the
  estimate, the estimated frequency is finite and the cycles counted during the estimate convert
  back to the measured time, each within one part in 2^50 in spite of six rounded operations: the
  frequency is the wrapping difference of the counter times 10^9 divided by the nanoseconds of the
  clock, and \<open>cycles_to_nanoseconds\<close> inverts it.
\<close>

theorem tsc_calibration:
  assumes "clock_now sys w = (s0, w1)" "rdtscp sys w1 = (t0, w2)"
    and "rdtscp sys (sleep_for sys 100 w2) = (t1, w3)" "clock_now sys w3 = (s1, w4)"
    and "estimate_tsc_frequency_hz True sys w = Some (freq, w')" "s0 < s1" "t0 \<noteq> t1"
  shows "\<exists>f r. freq = Num f \<and> cycles_to_nanoseconds (t1 - t0) freq = Num r \<and>
    \<bar>f - of_nat (unat (t1 - t0)) * 1000000000 / of_int (s1 - s0)\<bar>
      \<le> of_nat (unat (t1 - t0)) * 1000000000 / of_int (s1 - s0) / 2 ^ 50 \<and>
    \<bar>r - of_int (s1 - s0)\<bar> \<le> of_int (s1 - s0) / 2 ^ 50"
proof -
  note E = estimate_eq [OF assms(1-5)]
  let ?d = "int (unat (t1 - t0))" and ?t = "s1 - s0"
  have "0 < unat (t1 - t0)" using assms(7) by (simp add: unat_gt_0)
  then have d: "0 < ?d" "?d < 2 ^ 64" using unsigned_less [of "t1 - t0", where ?'a = int] by (simp_all only: of_nat_0_less_iff) simp
  from double_of_pos [OF d] obtain x where x: "double_of_int ?d = Num x" "rounds_to (of_int ?d) x" "1 / 2 \<le> x" "x \<le> 2 ^ 65" .
  from double_of_pos [of ?t] assms(6) E(2) obtain y where y: "double_of_int ?t = Num y" "rounds_to (of_int ?t) y" "1 / 2 \<le> y" "y \<le> 2 ^ 65"
    by auto
  have "1 / 2 ^ 40 \<le> x" "1 / 2 ^ 40 \<le> y" "y \<le> 2 ^ 100"
    using x(3) y(3,4) by simp_all
  from scaled_quotient [OF this(1) x(4) this(2,3)] obtain q f
    where q: "dbl_mul (dbl_div (Num x) (Num y)) (Num 1000000000) = Num f" "rounds_to (x / y) q"
      "rounds_to (q * 1000000000) f" "0 < q" "0 < f" .
  note F = two_roundings [OF q(2,3)]
  have e: "1 / 2 ^ 66 \<le> x / y" "x / y \<le> 2 ^ 66"
  proof -
    have "(1 / 2) / 2 ^ 65 \<le> x / y" using x y by (intro frac_le) auto
    then show "1 / 2 ^ 66 \<le> x / y" by simp
    have "x / y \<le> 2 ^ 65 / (1 / 2)" using x y by (intro frac_le) auto
    then show "x / y \<le> 2 ^ 66" by simp
  qed
  have "1 / 2 ^ 40 \<le> f" "f \<le> 2 ^ 100" using F e by (simp_all add: power2_eq_square)
  from scaled_quotient [OF \<open>1 / 2 ^ 40 \<le> x\<close> x(4) this] obtain q' r
    where r: "dbl_mul (dbl_div (Num x) (Num f)) (Num 1000000000) = Num r" "rounds_to (x / f) q'"
      "rounds_to (q' * 1000000000) r" "0 < q'" "0 < r" .
  note R = two_roundings [OF r(2,3)]
  have "freq = Num f" using E(1) x(1) y(1) q(1) by simp
  moreover have "cycles_to_nanoseconds (t1 - t0) (Num f) = Num r" using x(1) q(5) r(1) by (simp add: cycles_to_nanoseconds_def)
  moreover have "\<bar>f - of_int ?d * 1000000000 / of_int ?t\<bar> \<le> of_int ?d * 1000000000 / of_int ?t / 2 ^ 50"
    using assms(6) by (intro frequency_near [OF F x(2) of_int_0_less_iff [THEN iffD2, OF d(1)] y(2)]) simp_all
  moreover have "\<bar>r - of_int ?t\<bar> \<le> of_int ?t / 2 ^ 50"
    using assms(6) x(3) q(5) by (intro duration_near [OF F R _ _ y(2)]) simp_all
  ultimately show ?thesis by auto
qed

text \<open>A counter of 3 GHz and a clock, over a world that is the time in nanoseconds.\<close>

definition ghz_3 :: "nat tsc_sys" where
  "ghz_3 = \<lparr>rdtscp = (\<lambda>w. (of_nat (3 * w), w)), clock_now = (\<lambda>w. (int w, w)), sleep_for = (\<lambda>ms w. w + ms * 1000000)\<rparr>"

theorem tsc_calibration_witness:
  "\<exists>f r. estimate_tsc_frequency_hz True ghz_3 0 = Some (Num f, 100000000) \<and> \<bar>f - 3000000000\<bar> \<le> 3000000000 / 2 ^ 50 \<and>
     cycles_to_nanoseconds 300000000 (Num f) = Num r \<and> \<bar>r - 100000000\<bar> \<le> 100000000 / 2 ^ 50"
proof -
  obtain freq where e: "estimate_tsc_frequency_hz True ghz_3 0 = Some (freq, 100000000)"
    by (simp add: estimate_tsc_frequency_hz_def read_tsc_def ghz_3_def i64_def)
  have "clock_now ghz_3 0 = (0, 0)" "rdtscp ghz_3 0 = (0, 0)" "rdtscp ghz_3 (sleep_for ghz_3 100 0) = (300000000, 100000000)"
    "clock_now ghz_3 100000000 = (100000000, 100000000)" by (simp_all add: ghz_3_def)
  from tsc_calibration [OF this e] e show ?thesis by auto
qed

end
