(* ===== verification/System_Support.thy ===== *)
theory System_Support
  imports HFT_Prelude
begin

text \<open>
  The helpers around the operating system: pinning threads to cores (\<open>ThreadAffinity.hpp\<close>/\<open>.cpp\<close>)
  and memory on a NUMA node (\<open>NumaAllocator.hpp\<close>/\<open>.cpp\<close>). The system calls and the functions of
  libnuma are parameters.
\<close>

section \<open>Pinning threads\<close>

text \<open>
  \<open>CPU_ZERO\<close> and \<open>CPU_SET\<close> on a \<open>cpu_set_t\<close> of 1024 bits; a core outside the set is ignored.
\<close>

definition cpu_mask :: "int \<Rightarrow> bool list" where
  "cpu_mask core_id = (if 0 \<le> core_id \<and> core_id < 1024 then (replicate 1024 False)[nat core_id := True]
     else replicate 1024 False)"

definition pin_thread_to_core :: "('h \<Rightarrow> bool list \<Rightarrow> 'w \<Rightarrow> int \<times> 'w) \<Rightarrow> 'h \<Rightarrow> int \<Rightarrow> 'w \<Rightarrow> bool \<times> log_call list \<times> 'w" where
  "pin_thread_to_core setaffinity handle core_id w =
    (let (rc, w) = setaffinity handle (cpu_mask core_id) w in
     if rc \<noteq> 0 then (False, [log_msg ERROR ''Error calling pthread_setaffinity_np: %d'' [ArgI rc]], w)
     else (True, [], w))"

definition pin_current_thread_to_core :: "('h \<Rightarrow> bool list \<Rightarrow> 'w \<Rightarrow> int \<times> 'w) \<Rightarrow> 'h \<Rightarrow> int \<Rightarrow> 'w \<Rightarrow> bool \<times> log_call list \<times> 'w" where
  "pin_current_thread_to_core setaffinity self core_id w = pin_thread_to_core setaffinity self core_id w"

section \<open>Memory on a node\<close>

datatype alloc_error = BadAlloc

record 'w numa_sys =
  numa_available :: "'w \<Rightarrow> int"
  numa_max_node :: "'w \<Rightarrow> int"
  numa_alloc_onnode :: "nat \<Rightarrow> int \<Rightarrow> 'w \<Rightarrow> ptr \<times> 'w"
  numa_free :: "nat \<Rightarrow> nat \<Rightarrow> 'w \<Rightarrow> 'w"
  operator_new :: "nat \<Rightarrow> 'w \<Rightarrow> ptr \<times> 'w"
  operator_delete :: "nat \<Rightarrow> 'w \<Rightarrow> 'w"

text \<open>
  The exception \<open>std::bad_alloc\<close> is the left summand. \<open>operator new\<close> throws it instead of returning
  a null pointer.
\<close>

definition allocate_on_node :: "'w numa_sys \<Rightarrow> nat \<Rightarrow> int \<Rightarrow> 'w \<Rightarrow> (alloc_error + ptr) \<times> log_call list \<times> 'w" where
  "allocate_on_node sys sz node w =
    (if numa_available sys w < 0 then
       let logs = [log_msg WARN ''NUMA is not available on this system. Falling back to standard allocation.'' []];
           (p, w) = operator_new sys sz w
       in (if p = None then Inl BadAlloc else Inr p, logs, w)
     else
       let (node, logs) =
             (if numa_max_node sys w < node
              then (0, [log_msg WARN ''Requested NUMA node %d exceeds maximum available node %d. Falling back to node 0.''
                          [ArgI node, ArgI (numa_max_node sys w)]])
              else (node, []));
           (p, w) = numa_alloc_onnode sys sz node w
       in (if p = None then Inl BadAlloc else Inr p, logs, w))"

definition free_memory :: "'w numa_sys \<Rightarrow> ptr \<Rightarrow> nat \<Rightarrow> 'w \<Rightarrow> 'w" where
  "free_memory sys p sz w =
    (case p of None \<Rightarrow> w
     | Some a \<Rightarrow> if numa_available sys w < 0 then operator_delete sys a w else numa_free sys a sz w)"

text \<open>
  \<open>create_on_node<T>\<close> and \<open>destroy_and_free<T>\<close> for a type of \<open>sz\<close> bytes, whose constructor and
  destructor act on the memory at an address.
\<close>

definition create_on_node :: "'w numa_sys \<Rightarrow> nat \<Rightarrow> (nat \<Rightarrow> 'w \<Rightarrow> 'w) \<Rightarrow> int \<Rightarrow> 'w \<Rightarrow> (alloc_error + ptr) \<times> log_call list \<times> 'w" where
  "create_on_node sys sz construct node w =
    (case allocate_on_node sys sz node w of
       (Inl e, logs, w) \<Rightarrow> (Inl e, logs, w)
     | (Inr None, logs, w) \<Rightarrow> (Inr None, logs, w)
     | (Inr (Some a), logs, w) \<Rightarrow> (Inr (Some a), logs, construct a w))"

definition destroy_and_free :: "'w numa_sys \<Rightarrow> nat \<Rightarrow> (nat \<Rightarrow> 'w \<Rightarrow> 'w) \<Rightarrow> ptr \<Rightarrow> 'w \<Rightarrow> 'w" where
  "destroy_and_free sys sz destruct p w =
    (case p of None \<Rightarrow> w | Some a \<Rightarrow> free_memory sys p sz (destruct a w))"

text \<open>No allocation returns a null pointer, so the callers' tests for it never succeed.\<close>

lemma create_never_null: "fst (create_on_node sys sz construct node w) \<noteq> Inr None"
  by (auto simp: create_on_node_def allocate_on_node_def Let_def case_prod_beta split: option.splits sum.splits prod.splits)

text \<open>An object is destroyed and its memory goes back to the allocator it came from.\<close>

lemma create_destroy:
  assumes "create_on_node sys sz construct node w = (Inr (Some a), logs, w')"
    and "numa_available sys (destruct a w') = numa_available sys w"
  shows "destroy_and_free sys sz destruct (Some a) w' =
    (if numa_available sys w < 0 then operator_delete sys a (destruct a w') else numa_free sys a sz (destruct a w'))"
  using assms(2) by (simp add: destroy_and_free_def free_memory_def)

text \<open>A pin sets exactly the bit of its core.\<close>

lemma cpu_mask_nth: "i < 1024 \<Longrightarrow> cpu_mask core_id ! i \<longleftrightarrow> int i = core_id"
  by (auto simp: cpu_mask_def nth_list_update split: if_splits)

end
