(* ===== verification/Main_Network.thy ===== *)
theory Main_Network
  imports Trading_System Event_Loop_Correct System_Support
begin

text \<open>
  The network thread of \<open>Main.cpp\<close>: it pins itself to a core, connects the order entry socket,
  joins the multicast group of the feed and runs the event loop, whose callbacks read the two
  sockets. Its parts are those of \<open>Event_Loop\<close>, \<open>TCP_Egress\<close> and \<open>Trading_System\<close>.
\<close>

section \<open>The callbacks\<close>

datatype main_callback = OnTcpData | OnUdpData

definition main_invoke :: "'w sock_sys \<Rightarrow> InternalMessage \<Rightarrow> (main_callback, 'w, InternalMessage SPSCQueue) invoke" where
  "main_invoke sys junk cb sfd l w q =
    (case cb of
       OnTcpData \<Rightarrow> let (_, w) = sys_recv sys sfd 1024 w in Some ([], l, w, q)
     | OnUdpData \<Rightarrow>
         let ((bytes_read, data), w) = sys_recv sys sfd 2048 w in
         if bytes_read > 0 then do {
           (logs, q) \<leftarrow> on_datagram junk (take (nat bytes_read) data) q;
           Some (logs, l, w, q) }
         else Some ([], l, w, q))"

section \<open>The thread\<close>

text \<open>
  The thread up to the call of \<open>run\<close>: whether it gets there, its log calls (the call of a failed
  pin is made before the thread registers with the logger and is dropped), the event loop and the
  gateway of the strategy thread.
\<close>

definition network_setup :: "'w sock_sys \<Rightarrow> (unit \<Rightarrow> bool list \<Rightarrow> 'w \<Rightarrow> int \<times> 'w) \<Rightarrow> TCPEgressGateway \<Rightarrow> 'w \<Rightarrow>
    (bool \<times> log_call list \<times> main_callback NetworkEventLoop \<times> TCPEgressGateway \<times> 'w) option" where
  "network_setup sys setaffinity tcp_egress w =
    (let (_, _, w) = pin_current_thread_to_core setaffinity () 0 w;
         log0 = [log_msg INFO ''Network Thread initialized on Core 0.'' []];
         (ok, log1, l, w) = loop_init (net_sys.truncate sys) new_event_loop w in
     if \<not> ok then Some (False, log0 @ log1 @ [log_msg FATAL ''Failed to init NetworkEventLoop.'' []], l, tcp_egress, w)
     else do {
       (tcp_fd, log2, l, w) \<leftarrow> addTCPClient (net_sys.truncate sys) ''127.0.0.1'' 9000 OnTcpData l w;
       let (tcp_egress, log3) =
         (if 0 \<le> tcp_fd
          then (setSocketFd tcp_egress tcp_fd,
                [log_msg INFO ''TCP Egress initialized and connected to simulator on port 9000.'' []])
          else (tcp_egress, [log_msg WARN ''Failed to connect to TCP Exchange simulator on port 9000.'' []]));
       (udp_fd, log4, l, w) \<leftarrow> addUDPMulticastListener (net_sys.truncate sys) ''239.255.0.1'' 12345 OnUdpData l w;
       let log5 = (if udp_fd < 0 then [log_msg ERROR ''Failed to bind UDP listener.'' []]
                   else [log_msg INFO ''Listening for ITCH multicast on 239.255.0.1:12345...'' []]);
       Some (True, log0 @ log1 @ log2 @ log3 @ log4 @ log5, l, tcp_egress, w) })"

definition network_thread :: "'w sock_sys \<Rightarrow> (unit \<Rightarrow> bool list \<Rightarrow> 'w \<Rightarrow> int \<times> 'w) \<Rightarrow> InternalMessage \<Rightarrow> TCPEgressGateway \<Rightarrow> 'w \<Rightarrow>
    InternalMessage SPSCQueue \<Rightarrow> (log_call list \<times> TCPEgressGateway \<times> 'w \<times> InternalMessage SPSCQueue) option" where
  "network_thread sys setaffinity junk tcp_egress w q = do {
     (ok, logs, l, tcp_egress, w) \<leftarrow> network_setup sys setaffinity tcp_egress w;
     if \<not> ok then Some (logs, tcp_egress, destroy_event_loop (net_sys.truncate sys) l w, q)
     else do {
       (logs', l, w, q) \<leftarrow> run (net_sys.truncate sys) (main_invoke sys junk) l w q;
       Some (logs @ logs' @ [log_msg INFO ''Network Thread shutting down.'' []], tcp_egress,
         destroy_event_loop (net_sys.truncate sys) l w, q) } }"

section \<open>The thread serves its sockets and never ends\<close>

lemma main_invoke_running:
  "el_running l \<Longrightarrow> main_invoke sys junk cb sfd l w q = Some (logs, l', w', q') \<Longrightarrow> el_running l'"
  by (auto simp: main_invoke_def Let_def case_prod_beta split: main_callback.splits if_splits bind_splits)

lemma network_setup_spec:
  assumes p: "posix_net (net_sys.truncate sys) opened watched"
    and a: "\<And>m w. keeps_fds opened watched w (snd (setaffinity () m w))" and e: "watched w = {}"
  shows "\<exists>ok logs l tcp' w'. network_setup sys setaffinity tcp w = Some (ok, logs, l, tcp', w') \<and>
    (ok \<longrightarrow> (\<exists>tcp_fd udp_fd. watched w' = good_fds [tcp_fd, udp_fd] \<and>
       tcp' = (if 0 \<le> tcp_fd then setSocketFd tcp tcp_fd else tcp) \<and>
       (0 \<le> tcp_fd \<longrightarrow> callback_of l tcp_fd = Some OnTcpData) \<and>
       (0 \<le> udp_fd \<longrightarrow> callback_of l udp_fd = Some OnUdpData)))"
proof -
  let ?sys = "net_sys.truncate sys"
  obtain b lo w1 where pin: "pin_current_thread_to_core setaffinity () 0 w = (b, lo, w1)" by (metis prod.collapse)
  have w1: "watched w1 = {}"
    using a [of w "cpu_mask 0"] e pin
    by (auto simp: pin_current_thread_to_core_def pin_thread_to_core_def keeps_fds_def Let_def split: prod.splits if_splits)
  obtain ok lo1 l1 w2 where i: "loop_init ?sys (new_event_loop :: main_callback NetworkEventLoop) w1 = (ok, lo1, l1, w2)"
    by (metis prod.collapse)
  show ?thesis
  proof (cases ok)
    case False
    then show ?thesis by (intro exI [of _ False]) (simp add: network_setup_def pin i)
  next
    case True
    with i have i': "loop_init ?sys (new_event_loop :: main_callback NetworkEventLoop) w1 = (True, lo1, l1, w2)" by simp
    note li = loop_init_inv [OF p i' w1]
    from add_all_spec [OF p li(1), of "[(Client ''127.0.0.1'' 9000, OnTcpData), (UDP ''239.255.0.1'' 12345, OnUdpData)]"]
    obtain rs l' w' where s: "add_all ?sys [(Client ''127.0.0.1'' 9000, OnTcpData), (UDP ''239.255.0.1'' 12345, OnUdpData)] l1 w2 = Some (rs, l', w')"
      "length rs = 2" "watched w' = good_fds rs"
      "\<forall>k < 2. 0 \<le> rs ! k \<longrightarrow> callback_of l' (rs ! k) = Some (snd ([(Client ''127.0.0.1'' 9000, OnTcpData), (UDP ''239.255.0.1'' 12345, OnUdpData)] ! k))"
      unfolding li(2) by auto
    then obtain f u where rs: "rs = [f, u]" by (auto simp: length_Suc_conv numeral_2_eq_2)
    have cf: "callback_of l' f = Some OnTcpData" if "0 \<le> f" using s(4) [rule_format, of 0] that rs by simp
    have cu: "callback_of l' u = Some OnUdpData" if "0 \<le> u" using s(4) [rule_format, of 1] that rs by simp
    from s(1) rs obtain lo2 l2 w3 lo4
      where "addTCPClient ?sys ''127.0.0.1'' 9000 OnTcpData l1 w2 = Some (f, lo2, l2, w3)"
        "addUDPMulticastListener ?sys ''239.255.0.1'' 12345 OnUdpData l2 w3 = Some (u, lo4, l', w')"
      by (auto split: bind_splits)
    then have "\<exists>logs. network_setup sys setaffinity tcp w =
        Some (True, logs, l', if 0 \<le> f then setSocketFd tcp f else tcp, w')"
      using True by (simp add: network_setup_def pin i Let_def)
    then obtain logs where "network_setup sys setaffinity tcp w =
        Some (True, logs, l', if 0 \<le> f then setSocketFd tcp f else tcp, w')" by blast
    then show ?thesis using s(3) rs cf cu
      by (intro exI [of _ True] exI [of _ logs] exI [of _ l'] exI [of _ w'] exI [of _ f] exI [of _ u]
          exI [of _ "if 0 \<le> f then setSocketFd tcp f else tcp"] conjI impI) simp_all
  qed
qed

text \<open>
  C34. The network thread. Whatever system calls fail, its setup returns; if the event loop could be
  created, exactly the sockets it could open are watched, the gateway of the strategy thread has the
  order entry socket if that was opened, every event of a watched socket runs the callback that
  reads it, and the thread itself never returns, since no callback stops the loop.
\<close>

theorem network_thread_serves:
  assumes "posix_net (net_sys.truncate sys) opened watched"
    and "\<forall>m w. keeps_fds opened watched w (snd (setaffinity () m w))" "watched w = {}"
  shows "\<exists>ok logs l tcp' w'. network_setup sys setaffinity tcp w = Some (ok, logs, l, tcp', w') \<and>
    (ok \<longrightarrow> network_thread sys setaffinity junk tcp w q = None \<and>
      (\<exists>tcp_fd udp_fd. watched w' = {r. (r = tcp_fd \<or> r = udp_fd) \<and> 0 \<le> r} \<and>
       tcp' = (if 0 \<le> tcp_fd then setSocketFd tcp tcp_fd else tcp) \<and>
       (0 \<le> tcp_fd \<longrightarrow> (\<forall>w q. dispatch_event (main_invoke sys junk) tcp_fd l w q = main_invoke sys junk OnTcpData tcp_fd l w q)) \<and>
       (0 \<le> udp_fd \<longrightarrow> (\<forall>w q. dispatch_event (main_invoke sys junk) udp_fd l w q = main_invoke sys junk OnUdpData udp_fd l w q))))"
proof -
  from network_setup_spec [OF assms(1) _ assms(3), of setaffinity tcp] assms(2)
  obtain ok logs l tcp' w' where s: "network_setup sys setaffinity tcp w = Some (ok, logs, l, tcp', w')"
    "ok \<longrightarrow> (\<exists>tcp_fd udp_fd. watched w' = good_fds [tcp_fd, udp_fd] \<and>
       tcp' = (if 0 \<le> tcp_fd then setSocketFd tcp tcp_fd else tcp) \<and>
       (0 \<le> tcp_fd \<longrightarrow> callback_of l tcp_fd = Some OnTcpData) \<and>
       (0 \<le> udp_fd \<longrightarrow> callback_of l udp_fd = Some OnUdpData))" by blast
  have "run (net_sys.truncate sys) (main_invoke sys junk) l w' q = None"
    by (rule run_never_returns) (rule main_invoke_running)
  then have never: "network_thread sys setaffinity junk tcp w q = None" if ok using that s(1) by (simp add: network_thread_def)
  have events: "\<exists>tcp_fd udp_fd. watched w' = {r. (r = tcp_fd \<or> r = udp_fd) \<and> 0 \<le> r} \<and>
       tcp' = (if 0 \<le> tcp_fd then setSocketFd tcp tcp_fd else tcp) \<and>
       (0 \<le> tcp_fd \<longrightarrow> (\<forall>w q. dispatch_event (main_invoke sys junk) tcp_fd l w q = main_invoke sys junk OnTcpData tcp_fd l w q)) \<and>
       (0 \<le> udp_fd \<longrightarrow> (\<forall>w q. dispatch_event (main_invoke sys junk) udp_fd l w q = main_invoke sys junk OnUdpData udp_fd l w q))"
    if ok
  proof -
    from s(2) that obtain f u where "watched w' = good_fds [f, u]" "tcp' = (if 0 \<le> f then setSocketFd tcp f else tcp)"
      "0 \<le> f \<longrightarrow> callback_of l f = Some OnTcpData" "0 \<le> u \<longrightarrow> callback_of l u = Some OnUdpData" by blast
    moreover have "good_fds [f, u] = {r. (r = f \<or> r = u) \<and> 0 \<le> r}" by (auto simp: good_fds_def)
    ultimately show ?thesis by (intro exI [of _ f] exI [of _ u]) (simp add: dispatch_event_eq)
  qed
  show ?thesis
    using s(1) never events by (intro exI [of _ ok] exI [of _ logs] exI [of _ l] exI [of _ tcp'] exI [of _ w']) simp
qed

definition table_sockets :: "fd_table sock_sys" where
  "table_sockets = net_sys.extend table_kernel (sock_sys.fields (\<lambda>_ _ w. ((-1, []), w)))"

theorem network_thread_serves_witness:
  "\<exists>ok logs l tcp' w'. network_setup table_sockets (\<lambda>_ _ w. (0, w)) (new_gateway_fd 0) (3, [], []) = Some (ok, logs, l, tcp', w') \<and>
     (ok \<longrightarrow> network_thread table_sockets (\<lambda>_ _ w. (0, w)) \<lparr>im_type = 0, im_id = 0, im_price = 0, im_quantity = 0, im_side = BUY\<rparr>
        (new_gateway_fd 0) (3, [], []) (new_queue 4 \<lparr>im_type = 0, im_id = 0, im_price = 0, im_quantity = 0, im_side = BUY\<rparr>) = None)"
proof -
  have t: "net_sys.truncate table_sockets = table_kernel" by (simp add: table_sockets_def net_sys.defs sock_sys.defs)
  have p: "posix_net (net_sys.truncate table_sockets) table_opened table_watched" unfolding t by (rule table_posix)
  have a: "\<forall>m w. keeps_fds table_opened table_watched w (snd ((\<lambda>_ _ w. (0 :: int, w)) () m w))" by (simp add: keeps_fds_def)
  have e: "table_watched (3, [], []) = {}" by (simp add: table_watched_def)
  from network_thread_serves [OF p a e, of "new_gateway_fd 0" "\<lparr>im_type = 0, im_id = 0, im_price = 0, im_quantity = 0, im_side = BUY\<rparr>"
      "new_queue 4 \<lparr>im_type = 0, im_id = 0, im_price = 0, im_quantity = 0, im_side = BUY\<rparr>"]
  show ?thesis by (elim exE conjE) (intro exI conjI impI, assumption, simp)
qed

section \<open>Edge-triggered events\<close>

text \<open>Iterations of the body of the loop in \<open>run\<close>.\<close>

primrec loop_rounds :: "nat \<Rightarrow> 'w net_sys \<Rightarrow> ('cb, 'w, 's) invoke \<Rightarrow> 'cb NetworkEventLoop \<Rightarrow> 'w \<Rightarrow> 's \<Rightarrow>
    (log_call list \<times> 'cb NetworkEventLoop \<times> 'w \<times> 's) option" where
  "loop_rounds 0 sys invoke l w st = Some ([], l, w, st)"
| "loop_rounds (Suc k) sys invoke l w st =
    (let ((n, fds), w) = sys_epoll_wait sys (epoll_fd l) MAX_EVENTS w in do {
       (logs, l, w, st) \<leftarrow> dispatch invoke (take (nat n) fds) l w st;
       (logs', l, w, st) \<leftarrow> loop_rounds k sys invoke l w st;
       Some (logs @ logs', l, w, st) })"

text \<open>
  The documented behaviour of a datagram socket \<open>sfd\<close> that is watched with \<open>EPOLLET\<close>, while nothing
  arrives: \<open>epoll_wait\<close> reports the socket if datagrams arrived since it was last reported, and then
  not again; \<open>recv\<close> takes the oldest datagram of the socket's buffer.
\<close>

definition edge_triggered :: "'w sock_sys \<Rightarrow> int \<Rightarrow> ('w \<Rightarrow> u8 list list) \<Rightarrow> ('w \<Rightarrow> bool) \<Rightarrow> bool" where
  "edge_triggered sys sfd buffered fresh \<longleftrightarrow>
     (\<forall>ep w. buffered (snd (sys_epoll_wait sys ep MAX_EVENTS w)) = buffered w \<and>
        \<not> fresh (snd (sys_epoll_wait sys ep MAX_EVENTS w)) \<and>
        fst (sys_epoll_wait sys ep MAX_EVENTS w) = (if fresh w then (1, [sfd]) else (0, []))) \<and>
     (\<forall>w d ds. buffered w = d # ds \<longrightarrow>
        fst (sys_recv sys sfd 2048 w) = (int (length (take 2048 d)), take 2048 d) \<and>
        buffered (snd (sys_recv sys sfd 2048 w)) = ds \<and> fresh (snd (sys_recv sys sfd 2048 w)) = fresh w)"

lemma quiet_rounds:
  assumes "edge_triggered sys sfd buffered fresh" "\<not> fresh w"
  shows "\<exists>w'. loop_rounds k (net_sys.truncate sys) invoke l w st = Some ([], l, w', st) \<and> buffered w' = buffered w"
  using assms(2)
proof (induction k arbitrary: w)
  case (Suc k)
  let ?r = "sys_epoll_wait sys (epoll_fd l) MAX_EVENTS w"
  have "fst ?r = (0, [])" "\<not> fresh (snd ?r)" "buffered (snd ?r) = buffered w"
    using assms(1) Suc.prems by (simp_all add: edge_triggered_def)
  with Suc.IH [of "snd ?r"] show ?case by (simp add: net_sys.defs Let_def case_prod_beta)
qed simp

lemma on_datagram_truncates: "on_datagram junk (take 2048 d) q = on_datagram junk d q"
  by (simp add: on_datagram_def decode_datagram_def)

lemma on_datagram_empty: "on_datagram junk [] q = Some ([], q)"
  by (simp add: on_datagram_def decode_datagram_def)

text \<open>
  C35. A burst of datagrams is not read. The sockets are watched with edge-triggered events, but the
  callback of the feed receives only one datagram per event: when several datagrams are in the
  socket's buffer at the time of an event, the loop processes the first one, and however often it
  goes round, it does not read the others until another datagram arrives.
\<close>

theorem burst_leaves_datagrams:
  assumes "edge_triggered sys sfd buffered fresh" "fresh w" "buffered w = d # ds"
    and "callback_of l sfd = Some OnUdpData" "on_datagram junk d q = Some (logs, q')"
  shows "\<exists>w'. loop_rounds (Suc k) (net_sys.truncate sys) (main_invoke sys junk) l w q = Some (logs, l, w', q') \<and> buffered w' = ds"
proof -
  let ?r = "sys_epoll_wait sys (epoll_fd l) MAX_EVENTS w"
  let ?v = "sys_recv sys sfd 2048 (snd ?r)"
  have r: "fst ?r = (1, [sfd])" "\<not> fresh (snd ?r)" "buffered (snd ?r) = d # ds"
    using assms(1-3) by (simp_all add: edge_triggered_def)
  then have v: "fst ?v = (int (length (take 2048 d)), take 2048 d)" "buffered (snd ?v) = ds" "\<not> fresh (snd ?v)"
    using assms(1) by (simp_all add: edge_triggered_def)
  have "main_invoke sys junk OnUdpData sfd l (snd ?r) q = Some (logs, l, snd ?v, q')"
  proof (cases "take 2048 d")
    case Nil
    with assms(5) have "logs = []" "q' = q" using on_datagram_truncates [of junk d q] by (simp_all add: on_datagram_empty)
    with v(1) Nil show ?thesis by (simp add: main_invoke_def case_prod_beta)
  next
    case (Cons b bs)
    with v(1) assms(5) on_datagram_truncates [of junk d q] show ?thesis by (simp add: main_invoke_def case_prod_beta)
  qed
  then have "dispatch (main_invoke sys junk) [sfd] l (snd ?r) q = Some (logs, l, snd ?v, q')"
    using assms(4) by (simp add: dispatch_event_eq)
  with quiet_rounds [OF assms(1) v(3), of k "main_invoke sys junk" l q'] r(1) v(2) show ?thesis
    by (auto simp: net_sys.defs Let_def case_prod_beta)
qed

text \<open>A socket whose buffer and readiness are the world, and a datagram the callback accepts.\<close>

definition burst_kernel :: "(u8 list list \<times> bool) sock_sys" where
  "burst_kernel = \<lparr>sys_epoll_create1 = (\<lambda>w. (-1, w)), sys_socket = (\<lambda>_ w. (-1, w)),
     sys_setsockopt = (\<lambda>_ _ w. (-1, w)), sys_bind = (\<lambda>_ _ w. (-1, w)), sys_listen = (\<lambda>_ w. (-1, w)),
     sys_inet_pton = (\<lambda>_. 0), sys_connect = (\<lambda>_ _ _ w. ((-1, False), w)),
     sys_getfl = (\<lambda>_ w. (-1, w)), sys_setfl = (\<lambda>_ _ w. w), sys_epoll_ctl = (\<lambda>_ _ w. (-1, w)),
     sys_epoll_wait = (\<lambda>_ _ (buf, new). (if new then (1, [5]) else (0, []), (buf, False))),
     sys_close = (\<lambda>_ w. w),
     sys_recv = (\<lambda>_ n (buf, new). case buf of [] \<Rightarrow> ((-1, []), (buf, new))
       | d # ds \<Rightarrow> ((int (length (take n d)), take n d), (ds, new)))\<rparr>"

lemma on_datagram_room:
  assumes "queue_inv QUEUE_CAPACITY q" "length (contents q) < unat QUEUE_CAPACITY - 1"
  shows "\<exists>logs q'. on_datagram junk d q = Some (logs, q')"
proof -
  obtain m logs where m: "decode_datagram junk d = Some (m, logs)" using decode_datagram_returns by blast
  show ?thesis
  proof (cases m)
    case (Some x)
    from push_spin_room [OF assms, of x] m Some show ?thesis by (auto simp: on_datagram_def)
  qed (simp add: on_datagram_def m)
qed

theorem burst_leaves_datagrams_witness:
  "\<exists>logs q' w'. loop_rounds 7 (net_sys.truncate burst_kernel) (main_invoke burst_kernel \<lparr>im_type = 0, im_id = 0, im_price = 0, im_quantity = 0, im_side = BUY\<rparr>)
      \<lparr>epoll_fd = 3, el_running = True, fd_callbacks = [None, None, None, None, None, Some OnUdpData]\<rparr>
      ([[68], [65], [88]], True) (new_queue QUEUE_CAPACITY \<lparr>im_type = 0, im_id = 0, im_price = 0, im_quantity = 0, im_side = BUY\<rparr>) =
    Some (logs, \<lparr>epoll_fd = 3, el_running = True, fd_callbacks = [None, None, None, None, None, Some OnUdpData]\<rparr>, w', q') \<and>
    fst w' = [[65], [88]]"
proof -
  let ?j = "\<lparr>im_type = 0, im_id = 0, im_price = 0, im_quantity = 0, im_side = BUY\<rparr>"
  let ?q = "new_queue QUEUE_CAPACITY ?j"
  let ?l = "\<lparr>epoll_fd = 3, el_running = True, fd_callbacks = [None, None, None, None, None, Some OnUdpData]\<rparr>"
  have e: "edge_triggered burst_kernel 5 fst snd"
    by (auto simp: edge_triggered_def burst_kernel_def split: if_splits)
  have "QUEUE_CAPACITY \<noteq> 0" "0 < unat QUEUE_CAPACITY - 1" by (simp_all add: QUEUE_CAPACITY_def)
  with new_queue_inv [of QUEUE_CAPACITY ?j] have "queue_inv QUEUE_CAPACITY ?q" "length (contents ?q) < unat QUEUE_CAPACITY - 1"
    by simp_all
  from on_datagram_room [OF this, of ?j "[68]"] obtain logs q' where o: "on_datagram ?j [68] ?q = Some (logs, q')" by blast
  have "\<exists>w'. loop_rounds (Suc 6) (net_sys.truncate burst_kernel) (main_invoke burst_kernel ?j) ?l ([[68], [65], [88]], True) ?q =
      Some (logs, ?l, w', q') \<and> fst w' = [[65], [88]]"
    by (rule burst_leaves_datagrams [OF e _ _ _ o]) (simp_all add: callback_of_def)
  moreover have seven: "(7 :: nat) = Suc 6" by simp
  ultimately show ?thesis unfolding seven by blast
qed

end
