(* ===== verification/Main_Program.thy ===== *)
theory Main_Program
  imports Main_Network Logger_Threads
begin

text \<open>
  The life of the program in \<open>Main.cpp\<close>: the main thread initialises the logger, allocates the ring
  buffer, starts the strategy and the network thread, waits for input, stops and joins the strategy
  thread, detaches the network thread, releases the ring buffer and shuts the logger down. The three
  threads and the background thread of the logger interleave; a thread whose log call finds its ring
  full waits there. The model follows the memory of the ring buffer, which the threads reach through
  the same pointer, and every log call of every thread.
\<close>

section \<open>Starting\<close>

text \<open>
  \<open>main\<close> up to the start of the threads, for a ring buffer of \<open>sz\<close> bytes: the exit code if it
  returns, the uncaught exception, or the pointer to the ring buffer with which it goes on.
\<close>

datatype main_outcome = Returned int | Uncaught alloc_error | Started nat

definition main_start :: "'w numa_sys \<Rightarrow> nat \<Rightarrow> (nat \<Rightarrow> 'w \<Rightarrow> 'w) \<Rightarrow> 'w \<Rightarrow> main_outcome \<times> log_call list \<times> 'w" where
  "main_start sys sz ctor w =
    (let log0 = [log_msg INFO ''System Initialization Started.'' []] in
     case create_on_node sys sz ctor 0 w of
       (Inl e, logs, w) \<Rightarrow> (Uncaught e, log0 @ logs, w)
     | (Inr None, logs, w) \<Rightarrow>
         (Returned 1, log0 @ logs @ [log_msg FATAL ''Failed to allocate SPSCQueue on NUMA Node 0.'' []], w)
     | (Inr (Some queue), logs, w) \<Rightarrow> (Started queue, log0 @ logs, w))"

text \<open>The branch for a null pointer is dead: a failed allocation is an uncaught exception.\<close>

lemma main_start_outcomes: "fst (main_start sys sz ctor w) \<noteq> Returned n"
  using create_never_null [of sys sz ctor 0 w]
  by (auto simp: main_start_def Let_def split: prod.splits sum.splits option.splits)

section \<open>The threads\<close>

datatype thread = MainThread | StrategyThread | NetworkThread

text \<open>The numbers under which the threads register with the logger.\<close>

primrec thread_no :: "thread \<Rightarrow> nat" where
  "thread_no MainThread = 0"
| "thread_no StrategyThread = 1"
| "thread_no NetworkThread = 2"

text \<open>
  The logger after \<open>init\<close>, with the results of its system calls, and \<open>registerThread(0)\<close>. Without a
  file there is no background thread.
\<close>

definition boot_logger :: "int \<Rightarrow> bool \<Rightarrow> bool \<Rightarrow> logger_system" where
  "boot_logger open_fd trunc_ok map_ok =
    (let lg = logger_init open_fd trunc_ok map_ok ''hft_system.log'' (50 * 1024 * 1024) new_logger;
         bg = (if lg_running lg then new_background else new_background\<lparr>bg_at := BG_Exit\<rparr>);
         (lg, loc) = registerThread 0 lg
     in \<lparr>ls_log = lg, ls_bg = bg, ls_tls = (\<lambda>_. new_thread_local)(thread_no MainThread := loc),
         ls_sent = [], ls_taken = [], ls_written = []\<rparr>)"

definition register :: "thread \<Rightarrow> logger_system \<Rightarrow> logger_system" where
  "register t L = (let (lg, loc) = registerThread (of_nat (thread_no t)) (ls_log L)
     in L\<lparr>ls_log := lg, ls_tls := (ls_tls L)(thread_no t := loc)\<rparr>)"

datatype main_pc = M_Spawn | M_Input | M_Join | M_Detach | M_Free | M_Shutdown | M_Close | M_Exit

datatype strategy_pc = S_None | S_Start | S_Construct | S_Check | S_Body | S_Done

datatype network_pc = N_None | N_Start | N_Loop | N_Done

text \<open>What the operating system does, with the possible outcomes of \<open>ftruncate\<close> and \<open>mremap\<close>.\<close>

record 'w platform =
  pf_send :: "'w sys_send"
  pf_sock :: "'w sock_sys"
  pf_affinity :: "unit \<Rightarrow> bool list \<Rightarrow> 'w \<Rightarrow> int \<times> 'w"
  pf_mmap_ok :: "u64 \<Rightarrow> bool"
  pf_file_ops :: "(bool \<times> bool) set"

text \<open>
  \<open>pg_calls t\<close> are the log calls thread \<open>t\<close> has still to make before its next statement, \<open>pg_logged t\<close>
  those that have returned. The ring buffer is \<open>None\<close> once it is released; \<open>pg_faults\<close> records the
  threads that have accessed it since; \<open>pg_fed\<close> the messages pushed and \<open>pg_handled\<close> those popped.
\<close>

record 'w Program =
  pg_main :: main_pc
  pg_strategy :: strategy_pc
  pg_network :: network_pc
  pg_is_running :: bool
  pg_queue :: "InternalMessage SPSCQueue option"
  pg_tcp :: TCPEgressGateway
  pg_trader :: "Trader option"
  pg_world :: 'w
  pg_logger :: logger_system
  pg_calls :: "thread \<Rightarrow> log_call list"
  pg_logged :: "thread \<Rightarrow> log_call list"
  pg_fed :: "InternalMessage list"
  pg_handled :: "InternalMessage list"
  pg_faults :: "thread list"

definition start_program :: "logger_system \<Rightarrow> log_call list \<Rightarrow> InternalMessage SPSCQueue \<Rightarrow> 'w \<Rightarrow> 'w Program" where
  "start_program L logs q w = \<lparr>pg_main = M_Spawn, pg_strategy = S_None, pg_network = N_None, pg_is_running = True,
     pg_queue = Some q, pg_tcp = new_gateway, pg_trader = None, pg_world = w, pg_logger = L,
     pg_calls = (\<lambda>_. [])(MainThread := logs), pg_logged = (\<lambda>_. []), pg_fed = [], pg_handled = [], pg_faults = []\<rparr>"

text \<open>The strategy engine refers to the gateway whose descriptor the network thread sets.\<close>

definition with_gateway :: "TCPEgressGateway \<Rightarrow> Trader \<Rightarrow> Trader" where
  "with_gateway g tr = tr\<lparr>tr_engine := (tr_engine tr)\<lparr>eng_tcp := g\<rparr>\<rparr>"

abbreviation calls :: "'w Program \<Rightarrow> thread \<Rightarrow> log_call list \<Rightarrow> 'w Program" where
  "calls s t cs \<equiv> s\<lparr>pg_calls := (pg_calls s)(t := cs)\<rparr>"

section \<open>The steps\<close>

text \<open>
  A thread goes on when its log calls have returned. The main thread waits for input, for the
  strategy thread and, in \<open>shutdown\<close>, for the background thread; the strategy thread reads the flag
  before every iteration; the network thread handles a datagram as long as the process exists. The
  message of a failed pin is logged before the thread is registered and dropped.
\<close>

inductive program_step :: "'w platform \<Rightarrow> 'w Program \<Rightarrow> 'w Program \<Rightarrow> bool" for P where
  main_spawn: "pg_main s = M_Spawn \<Longrightarrow> pg_calls s MainThread = [] \<Longrightarrow>
    program_step P s (s\<lparr>pg_strategy := S_Start, pg_network := N_Start, pg_main := M_Input\<rparr>)"
| main_input: "pg_main s = M_Input \<Longrightarrow> program_step P s (s\<lparr>pg_is_running := False, pg_main := M_Join\<rparr>)"
| main_join: "pg_main s = M_Join \<Longrightarrow> pg_strategy s = S_Done \<Longrightarrow> pg_calls s StrategyThread = [] \<Longrightarrow>
    program_step P s (s\<lparr>pg_main := M_Detach\<rparr>)"
| main_detach: "pg_main s = M_Detach \<Longrightarrow> program_step P s (s\<lparr>pg_main := M_Free\<rparr>)"
| main_free: "pg_main s = M_Free \<Longrightarrow> program_step P s (s\<lparr>pg_queue := None, pg_main := M_Shutdown\<rparr>)"
| main_shutdown: "pg_main s = M_Shutdown \<Longrightarrow> shutdown_request (ls_log (pg_logger s)) = (was_running, lg) \<Longrightarrow>
    program_step P s (s\<lparr>pg_logger := (pg_logger s)\<lparr>ls_log := lg\<rparr>, pg_main := (if was_running then M_Close else M_Exit)\<rparr>)"
| main_close: "pg_main s = M_Close \<Longrightarrow> bg_at (ls_bg (pg_logger s)) = BG_Exit \<Longrightarrow> (trunc_ok, remap_ok) \<in> pf_file_ops P \<Longrightarrow>
    program_step P s (s\<lparr>pg_logger := (pg_logger s)\<lparr>ls_log := shutdown_close trunc_ok (ls_log (pg_logger s))\<rparr>, pg_main := M_Exit\<rparr>)"
| strategy_start: "pg_strategy s = S_Start \<Longrightarrow>
    pin_current_thread_to_core (pf_affinity P) () 1 (pg_world s) = (pinned, dropped, w') \<Longrightarrow>
    program_step P s (calls (s\<lparr>pg_world := w', pg_logger := register StrategyThread (pg_logger s), pg_strategy := S_Construct\<rparr>)
      StrategyThread [log_msg INFO ''Strategy Thread initialized on Core 1.'' []])"
| strategy_construct: "pg_strategy s = S_Construct \<Longrightarrow> pg_calls s StrategyThread = [] \<Longrightarrow>
    start_trader (pf_mmap_ok P) (pg_tcp s) = Some tr \<Longrightarrow>
    program_step P s (s\<lparr>pg_trader := Some tr, pg_strategy := S_Check\<rparr>)"
| strategy_check: "pg_strategy s = S_Check \<Longrightarrow> pg_calls s StrategyThread = [] \<Longrightarrow> pg_is_running s \<Longrightarrow>
    program_step P s (s\<lparr>pg_strategy := S_Body\<rparr>)"
| strategy_stop: "pg_strategy s = S_Check \<Longrightarrow> pg_calls s StrategyThread = [] \<Longrightarrow> \<not> pg_is_running s \<Longrightarrow>
    program_step P s (calls (s\<lparr>pg_strategy := S_Done\<rparr>) StrategyThread [log_msg INFO ''Strategy Thread shutting down.'' []])"
| strategy_message: "pg_strategy s = S_Body \<Longrightarrow> pg_queue s = Some q \<Longrightarrow> pop QUEUE_CAPACITY q = Some (Some msg, q') \<Longrightarrow>
    pg_trader s = Some tr \<Longrightarrow>
    process_msg (pf_send P) (with_gateway (pg_tcp s) tr, pg_world s) msg = Some (logs, tr', w') \<Longrightarrow>
    program_step P s (calls (s\<lparr>pg_queue := Some q', pg_trader := Some tr', pg_world := w', pg_strategy := S_Check,
      pg_handled := pg_handled s @ [msg]\<rparr>) StrategyThread logs)"
| strategy_empty: "pg_strategy s = S_Body \<Longrightarrow> pg_queue s = Some q \<Longrightarrow> pop QUEUE_CAPACITY q = Some (None, q') \<Longrightarrow>
    program_step P s (s\<lparr>pg_queue := Some q', pg_strategy := S_Check\<rparr>)"
| strategy_freed: "pg_strategy s = S_Body \<Longrightarrow> pg_queue s = None \<Longrightarrow>
    program_step P s (s\<lparr>pg_faults := StrategyThread # pg_faults s\<rparr>)"
| network_start: "pg_network s = N_Start \<Longrightarrow> pg_main s \<noteq> M_Exit \<Longrightarrow>
    network_setup (pf_sock P) (pf_affinity P) (pg_tcp s) (pg_world s) = Some (ok, logs, l, tcp', w') \<Longrightarrow>
    program_step P s (calls (s\<lparr>pg_tcp := tcp', pg_logger := register NetworkThread (pg_logger s),
      pg_world := (if ok then w' else destroy_event_loop (net_sys.truncate (pf_sock P)) l w'),
      pg_network := (if ok then N_Loop else N_Done)\<rparr>) NetworkThread
      (logs @ (if ok then [log_msg INFO ''NetworkEventLoop: Starting event loop'' []] else [])))"
| network_datagram: "pg_network s = N_Loop \<Longrightarrow> pg_main s \<noteq> M_Exit \<Longrightarrow> pg_calls s NetworkThread = [] \<Longrightarrow>
    pg_queue s = Some q \<Longrightarrow> decode_datagram junk d = Some (m, logs) \<Longrightarrow> on_datagram junk d q = Some (logs, q') \<Longrightarrow>
    program_step P s (calls (s\<lparr>pg_queue := Some q', pg_fed := pg_fed s @ (case m of None \<Rightarrow> [] | Some x \<Rightarrow> [x])\<rparr>) NetworkThread logs)"
| network_freed: "pg_network s = N_Loop \<Longrightarrow> pg_main s \<noteq> M_Exit \<Longrightarrow> pg_calls s NetworkThread = [] \<Longrightarrow>
    pg_queue s = None \<Longrightarrow> decode_datagram junk d = Some (Some msg, logs) \<Longrightarrow>
    program_step P s (s\<lparr>pg_faults := NetworkThread # pg_faults s\<rparr>)"
| log_call: "pg_main s \<noteq> M_Exit \<Longrightarrow> pg_calls s t = c # cs \<Longrightarrow> pg_logger s = L \<Longrightarrow>
    local_queue (ls_tls L (thread_no t)) = Some k \<Longrightarrow>
    printf_text (lc_format c) (lc_args c) = Some tx \<Longrightarrow> length tx < 2 ^ 31 \<Longrightarrow>
    make_message junk tsc (local_thread_id (ls_tls L (thread_no t))) c = Some msg \<Longrightarrow>
    logger_log junk tsc (ls_tls L (thread_no t)) c (ls_log L) = Some lg \<Longrightarrow>
    program_step P s (calls (s\<lparr>pg_logger := L\<lparr>ls_log := lg, ls_sent := ls_sent L @ [(k, msg)]\<rparr>,
      pg_logged := (pg_logged s)(t := pg_logged s t @ [c])\<rparr>) t cs)"
| background: "pg_main s \<noteq> M_Exit \<Longrightarrow> pg_logger s = L \<Longrightarrow> bg_at (ls_bg L) \<noteq> BG_Exit \<Longrightarrow>
    (trunc_ok, remap_ok) \<in> pf_file_ops P \<Longrightarrow> bg_step trunc_ok remap_ok junk (ls_log L) (ls_bg L) = Some (lg, bg) \<Longrightarrow>
    program_step P s (s\<lparr>pg_logger := bg_system L lg bg\<rparr>)"

section \<open>Who uses the ring buffer\<close>

definition program_inv :: "'w Program \<Rightarrow> bool" where
  "program_inv s \<longleftrightarrow> StrategyThread \<notin> set (pg_faults s) \<and>
     (pg_main s \<notin> {M_Spawn, M_Input} \<longrightarrow> \<not> pg_is_running s) \<and>
     (pg_main s = M_Spawn \<longleftrightarrow> pg_strategy s = S_None) \<and>
     (pg_main s \<notin> {M_Spawn, M_Input, M_Join} \<longrightarrow> pg_strategy s = S_Done) \<and>
     (pg_queue s = None \<longrightarrow> pg_main s \<in> {M_Shutdown, M_Close, M_Exit})"

lemma program_inv_step: "program_step P s s' \<Longrightarrow> program_inv s \<Longrightarrow> program_inv s'"
  by (induction rule: program_step.induct) (auto simp: program_inv_def)

lemma program_inv_run: "(program_step P)\<^sup>*\<^sup>* (start_program L logs q w) s \<Longrightarrow> program_inv s"
proof (induction rule: rtranclp_induct)
  case base
  show ?case by (simp add: start_program_def program_inv_def)
qed (rule program_inv_step)

end
