(* ===== verification/Main_Logging.thy ===== *)
theory Main_Logging
  imports Main_Program
begin

text \<open>
  Every log call of the program, followed from the thread that makes it to the file: the threads of
  \<open>Main_Program\<close> log through the logger of \<open>Logger_Threads\<close>, each into the ring of its number.
\<close>

section \<open>What the logger holds of each thread\<close>

text \<open>The message of a call: its level and the first 239 characters of its text.\<close>

definition recorded :: "log_call \<Rightarrow> LogMessage \<Rightarrow> bool" where
  "recorded c m \<longleftrightarrow> lm_level m = lc_level c \<and>
     (\<exists>tx. printf_text (lc_format c) (lc_args c) = Some tx \<and> msg_text m = takeWhile (\<lambda>b. b \<noteq> 0) (take 239 tx))"

text \<open>
  A registered thread has the ring of its number, into which exactly the messages of its calls were
  pushed, in order; a thread that is not registered has logged nothing; every ring belongs to a
  registered thread.
\<close>

definition thread_log :: "logger_system \<Rightarrow> thread \<Rightarrow> log_call list \<Rightarrow> bool" where
  "thread_log L t cs \<longleftrightarrow> (case local_queue (ls_tls L (thread_no t)) of
     None \<Rightarrow> cs = []
   | Some k \<Rightarrow> local_thread_id (ls_tls L (thread_no t)) = of_nat (thread_no t) \<and> list_all2 recorded cs (of_ring k (ls_sent L)))"

definition thread_ids :: "logger_system \<Rightarrow> bool" where
  "thread_ids L \<longleftrightarrow> (\<forall>n \<in> tq_thread_id ` set (lg_queues (ls_log L)).
     \<exists>t. n = of_nat (thread_no t) \<and> local_queue (ls_tls L (thread_no t)) \<noteq> None)"

definition logging_inv :: "(bool \<times> bool) set \<Rightarrow> u64 \<Rightarrow> 'w Program \<Rightarrow> bool" where
  "logging_inv F sz s \<longleftrightarrow> logger_inv F sz (pg_logger s) \<and> (\<forall>t. thread_log (pg_logger s) t (pg_logged s t)) \<and>
     thread_ids (pg_logger s) \<and> (pg_main s = M_Spawn \<longrightarrow> pg_strategy s = S_None \<and> pg_network s = N_None) \<and>
     (pg_strategy s \<in> {S_None, S_Start} \<longrightarrow> local_queue (ls_tls (pg_logger s) (thread_no StrategyThread)) = None) \<and>
     (pg_network s \<in> {N_None, N_Start} \<longrightarrow> local_queue (ls_tls (pg_logger s) (thread_no NetworkThread)) = None)"

lemma thread_no_eq [simp]:
  "thread_no t = thread_no u \<longleftrightarrow> t = u" "(of_nat (thread_no t) :: u32) = of_nat (thread_no u) \<longleftrightarrow> t = u"
  by (cases t; cases u; simp)+

section \<open>The operations\<close>

lemma register_others [simp]:
  "ls_tls (register StrategyThread L) 2 = ls_tls L 2" "ls_tls (register NetworkThread L) (Suc 0) = ls_tls L (Suc 0)"
  by (simp_all add: register_def split: prod.splits)

lemma register_eq:
  assumes "thread_ids L" "local_queue (ls_tls L (thread_no t)) = None"
  shows "register t L = L\<lparr>ls_log := (ls_log L)\<lparr>lg_queues := lg_queues (ls_log L) @
       [\<lparr>tq_thread_id = of_nat (thread_no t), tq_queue = new_queue LOG_QUEUE_CAPACITY zero_message\<rparr>]\<rparr>,
     ls_tls := (ls_tls L)(thread_no t := \<lparr>local_queue = Some (length (lg_queues (ls_log L))), local_thread_id = of_nat (thread_no t)\<rparr>)\<rparr>"
proof -
  have "of_nat (thread_no t) \<notin> tq_thread_id ` set (lg_queues (ls_log L))"
    using assms by (auto simp: thread_ids_def)
  then have "find_thread (of_nat (thread_no t)) 0 (lg_queues (ls_log L)) = None" by (simp add: find_thread_None)
  then show ?thesis by (simp add: register_def registerThread_def)
qed

lemma register_keeps:
  assumes "logger_inv F sz L" "\<forall>u. thread_log L u (cs u)" "thread_ids L" "local_queue (ls_tls L (thread_no t)) = None"
  shows "logger_inv F sz (register t L) \<and> (\<forall>u. thread_log (register t L) u (cs u)) \<and> thread_ids (register t L) \<and>
    (\<forall>u. u \<noteq> t \<longrightarrow> ls_tls (register t L) (thread_no u) = ls_tls L (thread_no u))"
proof (intro conjI allI impI)
  obtain lg loc where r: "registerThread (of_nat (thread_no t)) (ls_log L) = (lg, loc)" by fastforce
  then have "register t L = L\<lparr>ls_log := lg, ls_tls := (ls_tls L)(thread_no t := loc)\<rparr>" by (simp add: register_def)
  with register_inv [OF assms(1) r] show "logger_inv F sz (register t L)" by simp
  note e = register_eq [OF assms(3,4)]
  show "thread_ids (register t L)" using assms(3) unfolding e by (fastforce simp: thread_ids_def)
  have "of_ring (length (lg_queues (ls_log L))) (ls_sent L) = []"
    using assms(1) by (fastforce simp: logger_inv_def rings_ok_def of_ring_def filter_empty_conv)
  moreover have "cs t = []" using assms(2) [rule_format, of t] assms(4) by (simp add: thread_log_def)
  ultimately show "thread_log (register t L) u (cs u)" for u
    using assms(2) [rule_format, of u] unfolding e
    by (cases "u = t"; cases "local_queue (ls_tls L (thread_no u))") (simp_all add: thread_log_def)
  show "ls_tls (register t L) (thread_no u) = ls_tls L (thread_no u)" if "u \<noteq> t" for u using that unfolding e by simp
qed

text \<open>Different threads have different rings.\<close>

lemma own_ring:
  assumes "logger_inv F sz L" "thread_log L t cs" "thread_log L u ds"
    and "local_queue (ls_tls L (thread_no t)) = Some k" "local_queue (ls_tls L (thread_no u)) = Some k"
  shows "t = u"
proof -
  have "registered_ok L" using assms(1) by (simp add: logger_inv_def)
  then have "local_thread_id (ls_tls L (thread_no t)) = local_thread_id (ls_tls L (thread_no u))"
    using assms(4,5) unfolding registered_ok_def by metis
  then have "(of_nat (thread_no t) :: u32) = of_nat (thread_no u)" using assms(2-5) by (simp only: thread_log_def option.case)
  then show ?thesis by (simp only: thread_no_eq)
qed

lemma log_keeps:
  assumes inv: "logger_inv F sz L" and th: "\<forall>u. thread_log L u (cs u)" "thread_ids L"
    and k: "local_queue (ls_tls L (thread_no t)) = Some k"
    and tx: "printf_text (lc_format c) (lc_args c) = Some tx" "length tx < 2 ^ 31"
    and msg: "make_message junk tsc (local_thread_id (ls_tls L (thread_no t))) c = Some msg"
    and lg: "logger_log junk tsc (ls_tls L (thread_no t)) c (ls_log L) = Some lg"
    and L': "L' = L\<lparr>ls_log := lg, ls_sent := ls_sent L @ [(k, msg)]\<rparr>"
  shows "logger_inv F sz L' \<and> (\<forall>u. thread_log L' u ((cs(t := cs t @ [c])) u)) \<and> thread_ids L'"
proof (intro conjI allI)
  show "logger_inv F sz L'" unfolding L' by (rule log_inv [OF inv k tx msg lg])
  have "k < length (lg_queues (ls_log L))" using inv k by (auto simp: logger_inv_def registered_ok_def)
  then have "queue_inv LOG_QUEUE_CAPACITY (ring (ls_log L) k)" using inv by (simp add: logger_inv_def rings_ok_def)
  from logger_log_returns [OF lg k msg this] obtain q where q: "lg = set_ring (ls_log L) k q" by blast
  have "map tq_thread_id (lg_queues lg) = map tq_thread_id (lg_queues (ls_log L))" unfolding q by (rule set_ring_simps)
  then have "tq_thread_id ` set (lg_queues lg) = tq_thread_id ` set (lg_queues (ls_log L))" by (metis list.set_map)
  then show "thread_ids L'" using th(2) by (simp add: thread_ids_def L')
  have r: "recorded c msg" using make_message_eq [OF tx, of junk tsc "local_thread_id (ls_tls L (thread_no t))"] msg tx(1)
    by (auto simp: recorded_def)
  show "thread_log L' u ((cs(t := cs t @ [c])) u)" for u
  proof (cases "u = t")
    case True
    with th(1) k r show ?thesis by (auto simp: thread_log_def L' dest!: spec [of _ t] intro: list_all2_appendI)
  next
    case False
    have "local_queue (ls_tls L (thread_no u)) \<noteq> Some k" using own_ring [OF inv, of t _ u _ k] th(1) k False by blast
    with False th(1) show ?thesis by (auto simp: thread_log_def L' split: option.splits dest!: spec [of _ u])
  qed
qed

text \<open>The background thread and \<open>shutdown\<close> leave the registrations and the pushed messages alone.\<close>

lemma writeToFile_queues [frame]: "writeToFile t r junk m lg = Some lg' \<Longrightarrow> lg_queues lg' = lg_queues lg"
  by (auto simp: writeToFile_def Let_def frame split: bind_splits if_splits)

lemma bg_step_ids:
  assumes "bg_step t r junk lg bg = Some (lg', bg')"
  shows "map tq_thread_id (lg_queues lg') = map tq_thread_id (lg_queues lg)"
proof -
  have "map tq_thread_id (xs[k := (xs ! k)\<lparr>tq_queue := q\<rparr>]) = map tq_thread_id xs" for xs k q
    by (cases "k < length xs") (auto simp: map_update nth_list_update intro!: nth_equalityI)
  with assms show ?thesis
    by (auto simp: bg_step_def Let_def aread_def awrite_def dest!: writeToFile_queues
        split: bg_pc.splits list.splits if_splits bind_splits option.splits prod.splits)
qed

lemma logger_keeps:
  assumes "\<forall>u. thread_log L u (cs u)" "thread_ids L" "ls_tls L' = ls_tls L" "ls_sent L' = ls_sent L"
    and "map tq_thread_id (lg_queues (ls_log L')) = map tq_thread_id (lg_queues (ls_log L))"
  shows "(\<forall>u. thread_log L' u (cs u)) \<and> thread_ids L'"
proof -
  have "tq_thread_id ` set (lg_queues (ls_log L')) = tq_thread_id ` set (lg_queues (ls_log L))"
    using assms(5) by (metis list.set_map)
  with assms(1,2) show ?thesis by (simp only: thread_log_def thread_ids_def assms(3,4)) blast
qed

section \<open>The invariant\<close>

lemma boot_logger_parts:
  assumes "L = boot_logger ofd t m"
  shows "lg_queues (ls_log L) = [\<lparr>tq_thread_id = 0, tq_queue = new_queue LOG_QUEUE_CAPACITY zero_message\<rparr>]"
    "ls_tls L = (\<lambda>_. new_thread_local)(0 := \<lparr>local_queue = Some 0, local_thread_id = 0\<rparr>)"
    "ls_sent L = []" "ls_taken L = []" "ls_written L = []" "active_queues (ls_bg L) = []" "lg_current_offset (ls_log L) = 0"
    "lg_running (ls_log L) \<longleftrightarrow> ofd \<noteq> -1 \<and> t \<and> m"
    "bg_at (ls_bg L) = (if lg_running (ls_log L) then BG_While else BG_Exit)"
    "lg_mapped (ls_log L) \<longleftrightarrow> lg_running (ls_log L)"
    "ofd \<noteq> -1 \<Longrightarrow> t \<Longrightarrow> m \<Longrightarrow> lg_mmap_size (ls_log L) = 52428800 \<and> lg_file (ls_log L) = replicate 52428800 0"
  unfolding assms boot_logger_def logger_init_def registerThread_def new_logger_def new_background_def ftruncate_def resize_file_def Let_def
  by simp_all

lemma boot_logger_inv:
  assumes "lg_running (ls_log (boot_logger ofd t m)) \<or> F = {}"
  shows "logging_inv F (50 * 1024 * 1024) (start_program (boot_logger ofd t m) logs q w)"
proof -
  define L where "L = boot_logger ofd t m"
  note p = boot_logger_parts [OF L_def]
  have "rings_ok L" "registered_ok L" "bg_ok L"
    using p new_queue_inv [OF LOG_QUEUE_CAPACITY_nz, of zero_message]
    by (auto simp: rings_ok_def registered_ok_def bg_ok_def new_thread_local_def split: if_splits)
  moreover have "written_ok F (50 * 1024 * 1024) L" using p assms by (auto simp: written_ok_def file_ok_def simp flip: L_def)
  moreover have "thread_ids L" using p by (auto simp: thread_ids_def intro!: exI [of _ MainThread])
  moreover have "thread_log L u []" for u using p by (cases u) (simp_all add: thread_log_def new_thread_local_def)
  ultimately show ?thesis using p
    by (simp add: logging_inv_def start_program_def logger_inv_def new_thread_local_def flip: L_def)
qed

text \<open>
  Every step keeps the invariant. The outcomes of the file operations matter only to the background
  thread and to the end of \<open>shutdown\<close>.
\<close>

lemma logging_inv_step:
  assumes "program_step P s s'" "logging_inv F sz s"
    and "bg_at (ls_bg (pg_logger s)) \<noteq> BG_Exit \<or> pg_main s = M_Close \<Longrightarrow> F = pf_file_ops P"
  shows "logging_inv F sz s'"
  using assms
proof (induction rule: program_step.induct)
  case (main_shutdown s was_running lg)
  let ?L = "(pg_logger s)\<lparr>ls_log := (ls_log (pg_logger s))\<lparr>lg_running := False\<rparr>\<rparr>"
  have lg: "lg = (ls_log (pg_logger s))\<lparr>lg_running := False\<rparr>" using main_shutdown(2) by (simp add: shutdown_request_def)
  have "logger_inv F sz ?L" using main_shutdown(3) by (intro shutdown_inv) (simp add: logging_inv_def)
  moreover have "(\<forall>u. thread_log ?L u (pg_logged s u)) \<and> thread_ids ?L"
    using main_shutdown(3) by (intro logger_keeps [of "pg_logger s"]) (simp_all add: logging_inv_def)
  ultimately show ?case using main_shutdown(3) by (simp add: logging_inv_def lg)
next
  case (main_close s trunc_ok remap_ok)
  let ?L = "(pg_logger s)\<lparr>ls_log := shutdown_close trunc_ok (ls_log (pg_logger s))\<rparr>"
  have "logger_inv F sz ?L" using main_close by (intro close_inv) (simp_all add: logging_inv_def)
  moreover have "(\<forall>u. thread_log ?L u (pg_logged s u)) \<and> thread_ids ?L"
    using main_close(4) by (intro logger_keeps [of "pg_logger s"]) (simp_all add: logging_inv_def shutdown_close_def)
  ultimately show ?case using main_close(4) by (simp add: logging_inv_def)
next
  case (strategy_start s pinned dropped w')
  then have "local_queue (ls_tls (pg_logger s) (thread_no StrategyThread)) = None" by (simp add: logging_inv_def)
  with register_keeps [of F sz "pg_logger s" "pg_logged s" StrategyThread] strategy_start(1,3)
  show ?case by (auto simp: logging_inv_def)
next
  case (network_start s ok logs l tcp' w')
  then have "local_queue (ls_tls (pg_logger s) (thread_no NetworkThread)) = None" by (simp add: logging_inv_def)
  with register_keeps [of F sz "pg_logger s" "pg_logged s" NetworkThread] network_start(1,4)
  show ?case by (auto simp: logging_inv_def)
next
  case (log_call s t c cs L k tx junk tsc msg lg)
  have inv: "logger_inv F sz L" "\<forall>u. thread_log L u (pg_logged s u)" "thread_ids L"
    using log_call(3,9) by (simp_all add: logging_inv_def)
  from log_keeps [OF inv log_call(4-8) refl] log_call(3,9) show ?case by (simp add: logging_inv_def)
next
  case (background s L trunc_ok remap_ok junk lg bg)
  have inv: "logger_inv F sz L" "\<forall>u. thread_log L u (pg_logged s u)" "thread_ids L"
    using background(2,6) by (simp_all add: logging_inv_def)
  have "(trunc_ok, remap_ok) \<in> F" using background(2-4,7) by simp
  from bg_progress [OF inv(1) this background(3), of junk] background(5) have "logger_inv F sz (bg_system L lg bg)" by simp
  moreover have "(\<forall>u. thread_log (bg_system L lg bg) u (pg_logged s u)) \<and> thread_ids (bg_system L lg bg)"
    using bg_step_ids [OF background(5)] by (intro logger_keeps [OF inv(2,3)]) (simp_all add: bg_system_def)
  ultimately show ?case using background(2,6) by (simp add: logging_inv_def bg_system_def)
qed (auto simp: logging_inv_def)

lemma logging_inv_run:
  assumes "(program_step P)\<^sup>*\<^sup>* (start_program (boot_logger ofd True True) logs q w) s" "ofd \<noteq> -1"
  shows "logging_inv (pf_file_ops P) (50 * 1024 * 1024) s"
  using assms(1)
proof (induction rule: rtranclp_induct)
  case base
  show ?case using assms(2) by (intro boot_logger_inv) (simp add: boot_logger_parts(8) [OF refl])
qed (erule (1) logging_inv_step, simp)

section \<open>A logger without a file\<close>

text \<open>
  When the file cannot be opened, extended or mapped there is no background thread: nothing is ever
  taken from a ring.
\<close>

definition stalled_inv :: "'w Program \<Rightarrow> bool" where
  "stalled_inv s \<longleftrightarrow> logging_inv {} (50 * 1024 * 1024) s \<and> bg_at (ls_bg (pg_logger s)) = BG_Exit \<and>
     \<not> lg_running (ls_log (pg_logger s)) \<and> pg_main s \<noteq> M_Close \<and> ls_taken (pg_logger s) = []"

lemma register_frame [simp]:
  "ls_bg (register t L) = ls_bg L" "lg_running (ls_log (register t L)) = lg_running (ls_log L)"
  "ls_taken (register t L) = ls_taken L"
  by (simp_all add: register_def registerThread_def split: option.splits prod.splits)

lemma logger_log_running: "logger_log junk tsc loc c lg = Some lg' \<Longrightarrow> lg_running lg' = lg_running lg"
  by (auto simp: logger_log_def split: option.splits bind_splits)

lemma stalled_inv_step:
  assumes "program_step P s s'" "stalled_inv s"
  shows "stalled_inv s'"
proof -
  have "logging_inv {} (50 * 1024 * 1024) s'"
    using assms by (intro logging_inv_step [OF assms(1)]) (auto simp: stalled_inv_def)
  with assms show ?thesis
    by (induction rule: program_step.induct) (auto simp: stalled_inv_def shutdown_request_def dest: logger_log_running)
qed

lemma stalled_inv_run:
  assumes "(program_step P)\<^sup>*\<^sup>* (start_program (boot_logger ofd t m) logs q w) s" "ofd = -1 \<or> \<not> t \<or> \<not> m"
  shows "stalled_inv s"
  using assms(1)
proof (induction rule: rtranclp_induct)
  case base
  note p = boot_logger_parts [OF refl, of ofd t m]
  have "logging_inv {} (50 * 1024 * 1024) (start_program (boot_logger ofd t m) logs q w)" by (rule boot_logger_inv) simp
  then show ?case using assms(2) p by (auto simp: stalled_inv_def start_program_def)
qed (rule stalled_inv_step)

end
