(* ===== verification/Main_Trading.thy ===== *)
theory Main_Trading
  imports Main_Program
begin

text \<open>
  What the strategy thread does in the whole program: from its start to its end, while the other
  threads log, set up the sockets and shut down, the order book and the engine follow the messages
  of the feed.
\<close>

section \<open>The shared gateway\<close>

lemma start_trader_gateway:
  assumes "start_trader mmap_ok g = Some tr"
  shows "start_trader mmap_ok g' = Some (with_gateway g' tr)" "with_gateway g tr = tr"
  using assms unfolding start_trader_def new_market_maker_main
  by (auto simp: with_gateway_def addStrategy_def new_strategy_engine_def split: sum.splits)

lemma engine_inv_gateway: "engine_inv n (e\<lparr>eng_tcp := g\<rparr>) b = engine_inv n e b"
  by (simp add: engine_inv_def)

lemma with_gateway_same: "eng_tcp (tr_engine tr) = g \<Longrightarrow> with_gateway g tr = tr"
  by (simp add: with_gateway_def)

lemma trading_inv_gateway:
  assumes "trading_inv out tr0 w0 ms tr w" "eng_tcp (tr_engine tr0) = g"
  shows "trading_inv out tr0 w0 ms (with_gateway g tr) w"
proof (cases "filter triggers ms")
  case Nil
  with assms have "with_gateway g tr = tr" by (intro with_gateway_same) (simp add: trading_inv_def)
  with assms show ?thesis by simp
next
  case (Cons m ms')
  with assms show ?thesis by (simp add: trading_inv_def with_gateway_def engine_inv_gateway)
qed

lemma trading_inv_start:
  assumes "trading_inv out tr0 w0 [] tr w"
  shows "tr_engine tr = tr_engine tr0"
  using assms by (simp add: trading_inv_def)

text \<open>Before the first message the gateway and the world may still change.\<close>

lemma trading_inv_restart:
  assumes start: "start_trader mmap_ok g = Some tr0" and inv: "trading_inv out tr0 w0 [] (with_gateway g tr) w"
  shows "trading_inv out (with_gateway g' tr0) w' [] (with_gateway g' tr) w'"
proof -
  have e: "tr_engine (with_gateway g tr) = tr_engine tr0" using trading_inv_start [OF inv] .
  have "tr_engine (with_gateway g' tr) = (tr_engine (with_gateway g tr))\<lparr>eng_tcp := g'\<rparr>" by (simp add: with_gateway_def)
  then have "tr_engine (with_gateway g' tr) = tr_engine (with_gateway g' tr0)" unfolding e by (simp add: with_gateway_def)
  moreover have "tr_lob (with_gateway g' tr) = tr_lob (with_gateway g tr)" by (simp add: with_gateway_def)
  ultimately show ?thesis using inv by (simp add: trading_inv_def)
qed

section \<open>The invariant\<close>

text \<open>The objects of the strategy thread after the messages \<open>ms\<close>, with the gateway \<open>g\<close>.\<close>

definition traded :: "'w platform \<Rightarrow> ('w \<Rightarrow> u8 list) \<Rightarrow> TCPEgressGateway \<Rightarrow> Trader option \<Rightarrow> InternalMessage list \<Rightarrow> 'w \<Rightarrow> bool" where
  "traded P out g t ms w \<longleftrightarrow> (case t of
     None \<Rightarrow> ms = []
   | Some tr \<Rightarrow> adds ms < 2000000 \<longrightarrow>
       (\<exists>tr0 w0. start_trader (pf_mmap_ok P) g = Some tr0 \<and> trading_inv out tr0 w0 ms (with_gateway g tr) w))"

definition ring_fed :: "'w Program \<Rightarrow> bool" where
  "ring_fed s \<longleftrightarrow> (\<forall>q. pg_queue s = Some q \<longrightarrow> queue_inv QUEUE_CAPACITY q \<and> pg_fed s = pg_handled s @ contents q)"

definition trading_run :: "'w platform \<Rightarrow> ('w \<Rightarrow> u8 list) \<Rightarrow> 'w Program \<Rightarrow> bool" where
  "trading_run P out s \<longleftrightarrow> traded P out (pg_tcp s) (pg_trader s) (pg_handled s) (pg_world s) \<and> ring_fed s \<and>
     (pg_strategy s \<in> {S_None, S_Start, S_Construct} \<longrightarrow> pg_trader s = None) \<and>
     (pg_network s \<in> {N_None, N_Start} \<longrightarrow> pg_fed s = [] \<and> pg_handled s = []) \<and>
     (pg_main s = M_Spawn \<longrightarrow> pg_strategy s = S_None \<and> pg_network s = N_None)"

lemma ring_pop:
  assumes "queue_inv QUEUE_CAPACITY q" "pop QUEUE_CAPACITY q = Some (r, q')"
  shows "queue_inv QUEUE_CAPACITY q'" "contents q = (case r of None \<Rightarrow> [] | Some x \<Rightarrow> [x]) @ contents q'"
proof -
  have "queue_inv QUEUE_CAPACITY q' \<and> contents q = (case r of None \<Rightarrow> [] | Some x \<Rightarrow> [x]) @ contents q'"
  proof (cases "contents q")
    case Nil
    with spsc.deq_Nil [OF assms(1)] assms show ?thesis by auto
  next
    case (Cons x xs)
    with spsc.deq_Cons [OF assms(1)] assms(2) show ?thesis by fastforce
  qed
  then show "queue_inv QUEUE_CAPACITY q'" "contents q = (case r of None \<Rightarrow> [] | Some x \<Rightarrow> [x]) @ contents q'" by blast+
qed

lemma ring_push:
  assumes "queue_inv QUEUE_CAPACITY q" "decode_datagram junk d = Some (m, logs)" "on_datagram junk d q = Some (logs', q')"
  shows "queue_inv QUEUE_CAPACITY q' \<and> contents q' = contents q @ (case m of None \<Rightarrow> [] | Some x \<Rightarrow> [x])"
  using assms push_spin_returns [of QUEUE_CAPACITY _ q q']
  by (cases m) (auto simp: on_datagram_def bind_eq_Some_conv)

lemma traded_message:
  assumes "traded P out g (Some tr) ms w" "posix_stream (pf_send P) out"
    and "process_msg (pf_send P) (with_gateway g tr, w) msg = Some (logs, tr', w')"
  shows "traded P out g (Some tr') (ms @ [msg]) w'"
proof -
  have "\<exists>tr0 w0. start_trader (pf_mmap_ok P) g = Some tr0 \<and> trading_inv out tr0 w0 (ms @ [msg]) (with_gateway g tr') w'"
    if "adds (ms @ [msg]) < 2000000"
  proof -
    have a: "adds ms < 2000000" using that by (simp add: adds_def)
    with assms(1) obtain tr0 w0 where t: "start_trader (pf_mmap_ok P) g = Some tr0"
      "trading_inv out tr0 w0 ms (with_gateway g tr) w" by (auto simp: traded_def)
    from process_step [OF t(1) assms(2) t(2) a, of msg] assms(3) have "trading_inv out tr0 w0 (ms @ [msg]) tr' w'" by auto
    with start_trader_parts(9) [OF t(1)] have "trading_inv out tr0 w0 (ms @ [msg]) (with_gateway g tr') w'"
      by (rule trading_inv_gateway [rotated])
    with t(1) show ?thesis by blast
  qed
  then show ?thesis by (simp add: traded_def)
qed

lemma traded_start: "start_trader (pf_mmap_ok P) g = Some tr \<Longrightarrow> traded P out g (Some tr) [] w"
  using start_trader_gateway(2) start_inv by (fastforce simp: traded_def)

lemma traded_restart:
  assumes "traded P out g t [] w"
  shows "traded P out g' t [] w'"
proof (cases t)
  case (Some tr)
  with assms obtain tr0 w0 where t: "start_trader (pf_mmap_ok P) g = Some tr0" "trading_inv out tr0 w0 [] (with_gateway g tr) w"
    by (auto simp: traded_def adds_def)
  from trading_inv_restart [OF t] start_trader_gateway(1) [OF t(1)] Some show ?thesis by (auto simp: traded_def)
qed (simp add: traded_def)

lemma traded_None: "traded P out g None ms w \<longleftrightarrow> ms = []"
  by (simp add: traded_def)

lemma ring_fedD: "ring_fed s \<Longrightarrow> pg_queue s = Some q \<Longrightarrow> queue_inv QUEUE_CAPACITY q \<and> pg_fed s = pg_handled s @ contents q"
  by (simp add: ring_fed_def)

lemma trading_run_step:
  assumes "program_step P s s'" "trading_run P out s" "posix_stream (pf_send P) out"
  shows "trading_run P out s'"
  using assms
proof (induction rule: program_step.induct)
  case (strategy_start s pinned dropped w')
  then show ?case by (auto simp: trading_run_def ring_fed_def traded_None)
next
  case (strategy_construct s tr)
  with traded_start [OF strategy_construct(3)] show ?case by (auto simp: trading_run_def ring_fed_def traded_None)
next
  case (strategy_message s q msg q' tr logs tr' w')
  have "ring_fed s" using strategy_message(6) by (simp add: trading_run_def)
  note f = ring_fedD [OF this strategy_message(2)]
  note q = ring_pop [OF f [THEN conjunct1] strategy_message(3)] f [THEN conjunct2]
  have "pg_network s \<notin> {N_None, N_Start}" using strategy_message(6) q by (auto simp: trading_run_def)
  moreover have "traded P out (pg_tcp s) (Some tr') (pg_handled s @ [msg]) w'"
    using strategy_message(4,6) by (intro traded_message [OF _ strategy_message(7,5)]) (simp add: trading_run_def)
  ultimately show ?case using strategy_message(1,6) q by (simp add: trading_run_def ring_fed_def)
next
  case (strategy_empty s q q')
  have "ring_fed s" using strategy_empty(4) by (simp add: trading_run_def)
  note f = ring_fedD [OF this strategy_empty(2)]
  note q = ring_pop [OF f [THEN conjunct1] strategy_empty(3)] f [THEN conjunct2]
  with strategy_empty(1,2,4) show ?case by (auto simp: trading_run_def ring_fed_def)
next
  case (network_start s ok logs l tcp' w')
  then have "pg_handled s = []" by (simp add: trading_run_def)
  with network_start(1,4) show ?case by (auto simp: trading_run_def ring_fed_def elim: traded_restart)
next
  case (network_datagram s q junk d m logs q')
  have "ring_fed s" using network_datagram(7) by (simp add: trading_run_def)
  note q = ring_fedD [OF this network_datagram(4)]
  from ring_push [OF q [THEN conjunct1] network_datagram(5,6)] q network_datagram(1,7) show ?case
    by (auto simp: trading_run_def ring_fed_def)
qed (auto simp: trading_run_def ring_fed_def)

lemma trading_run_reach:
  assumes "(program_step P)\<^sup>*\<^sup>* (start_program L logs (new_queue QUEUE_CAPACITY junk) w) s" "posix_stream (pf_send P) out"
  shows "trading_run P out s"
  using assms(1)
proof (induction rule: rtranclp_induct)
  case base
  have "QUEUE_CAPACITY \<noteq> 0" by (simp add: QUEUE_CAPACITY_def)
  from new_queue_inv [OF this, of junk] show ?case by (simp add: trading_run_def traded_None ring_fed_def start_program_def)
next
  case (step y z)
  then show ?case using trading_run_step assms(2) by blast
qed

end
