(* ===== verification/Main_Props.thy ===== *)
theory Main_Props
  imports Main_Logging Main_Trading Logger_Props
begin

text \<open>
  The properties of the whole program: its log, its behaviour without a log file, and the life of
  the ring buffer.
\<close>

section \<open>The messages of a thread\<close>

lemma taken_ids:
  assumes "logger_inv F sz L" "x \<in> set (ls_taken L)"
  shows "lm_thread_id (snd x) = tq_thread_id (lg_queues (ls_log L) ! fst x)" "fst x < length (lg_queues (ls_log L))"
proof -
  have r: "rings_ok L" using assms(1) by (simp add: logger_inv_def)
  with assms(2) show l: "fst x < length (lg_queues (ls_log L))" by (simp add: rings_ok_def)
  have "snd x \<in> set (of_ring (fst x) (ls_taken L))" using assms(2) by (auto simp: of_ring_def)
  then have "snd x \<in> set (of_ring (fst x) (ls_sent L))" using r l by (simp add: rings_ok_def)
  then have "x \<in> set (ls_sent L)" by (auto simp: of_ring_def)
  with r show "lm_thread_id (snd x) = tq_thread_id (lg_queues (ls_log L) ! fst x)" by (simp add: rings_ok_def)
qed

lemma of_ring_thread:
  assumes inv: "logger_inv F sz L" and k: "local_queue (ls_tls L u) = Some k"
  shows "filter (\<lambda>m. lm_thread_id m = local_thread_id (ls_tls L u)) (map snd (ls_taken L)) = of_ring k (ls_taken L)"
proof -
  have reg: "distinct (map tq_thread_id (lg_queues (ls_log L)))" "k < length (lg_queues (ls_log L))"
    "tq_thread_id (lg_queues (ls_log L) ! k) = local_thread_id (ls_tls L u)"
    using inv k by (auto simp: logger_inv_def registered_ok_def)
  have "lm_thread_id (snd x) = local_thread_id (ls_tls L u) \<longleftrightarrow> fst x = k" if "x \<in> set (ls_taken L)" for x
    using taken_ids [OF inv that] reg nth_eq_iff_index_eq [OF reg(1), of "fst x" k] by simp
  then have "filter ((\<lambda>m. lm_thread_id m = local_thread_id (ls_tls L u)) \<circ> snd) (ls_taken L) = filter (\<lambda>x. fst x = k) (ls_taken L)"
    by (intro filter_cong) simp_all
  then show ?thesis by (simp add: of_ring_def filter_map)
qed

lemma thread_messages:
  assumes inv: "logger_inv F sz L" and th: "thread_log L t cs" and k: "local_queue (ls_tls L (thread_no t)) = Some k"
  obtains ms n where "list_all2 recorded cs ms"
    "filter (\<lambda>m. lm_thread_id m = of_nat (thread_no t)) (map snd (ls_taken L)) = take n ms"
proof -
  have kl: "k < length (lg_queues (ls_log L))" using inv k by (auto simp: logger_inv_def registered_ok_def)
  then have r: "of_ring k (ls_sent L) = of_ring k (ls_taken L) @ contents (ring (ls_log L) k)"
    using inv by (simp add: logger_inv_def rings_ok_def)
  have c: "local_thread_id (ls_tls L (thread_no t)) = of_nat (thread_no t)" "list_all2 recorded cs (of_ring k (ls_sent L))"
    using th k by (simp_all add: thread_log_def)
  from of_ring_thread [OF inv k] c(1) have "filter (\<lambda>m. lm_thread_id m = of_nat (thread_no t)) (map snd (ls_taken L)) = of_ring k (ls_taken L)"
    by simp
  then show thesis using c(2) r
    by (intro that [of "of_ring k (ls_sent L)" "length (of_ring k (ls_taken L))"]) simp_all
qed

lemma thread_ring:
  assumes "logger_inv F sz L" "thread_log L t cs" "local_queue (ls_tls L (thread_no t)) = Some k"
  shows "k < length (lg_queues (ls_log L))" "length (contents (ring (ls_log L) k)) \<le> length cs"
    "queue_inv LOG_QUEUE_CAPACITY (ring (ls_log L) k)"
proof -
  show k: "k < length (lg_queues (ls_log L))" using assms by (auto simp: logger_inv_def registered_ok_def)
  show "queue_inv LOG_QUEUE_CAPACITY (ring (ls_log L) k)" using assms(1) k by (simp add: logger_inv_def rings_ok_def)
  have "of_ring k (ls_sent L) = of_ring k (ls_taken L) @ contents (ring (ls_log L) k)"
    using assms(1) k by (simp add: logger_inv_def rings_ok_def)
  moreover have "list_all2 recorded cs (of_ring k (ls_sent L))" using assms(2,3) by (simp add: thread_log_def)
  ultimately show "length (contents (ring (ls_log L) k)) \<le> length cs" by (simp add: list_all2_lengthD)
qed

section \<open>Log calls that find room return\<close>

lemma log_calls_return:
  fixes s :: "'w Program"
  assumes "logging_inv F sz s" "pg_main s \<noteq> M_Exit" "local_queue (ls_tls (pg_logger s) (thread_no t)) = Some k"
    and "\<forall>c \<in> set (pg_calls s t). printable c" "length (pg_logged s t) + length (pg_calls s t) \<le> 1023"
    and "bg_at (ls_bg (pg_logger s)) \<noteq> BG_Exit \<Longrightarrow> F = pf_file_ops P" "pg_main s \<noteq> M_Close"
  shows "\<exists>L. (program_step P)\<^sup>*\<^sup>* s (s\<lparr>pg_logger := L, pg_logged := (pg_logged s)(t := pg_logged s t @ pg_calls s t),
      pg_calls := (pg_calls s)(t := [])\<rparr>) \<and> ls_tls L = ls_tls (pg_logger s) \<and> ls_bg L = ls_bg (pg_logger s)"
  using assms
proof (induction "pg_calls s t" arbitrary: s)
  case Nil
  have "s\<lparr>pg_logger := pg_logger s, pg_logged := (pg_logged s)(t := pg_logged s t @ pg_calls s t), pg_calls := (pg_calls s)(t := [])\<rparr> = s"
    using Nil(1) by (cases s) (simp add: fun_upd_idem)
  then show ?case by (metis rtranclp.rtrancl_refl)
next
  case (Cons c cs)
  let ?L = "pg_logger s"
  have inv: "logger_inv F sz ?L" "thread_log ?L t (pg_logged s t)" using Cons.prems(1) by (simp_all add: logging_inv_def)
  from Cons.prems(4) Cons.hyps(2) have "printable c" by (metis list.set_intros(1))
  then obtain tx where tx: "printf_text (lc_format c) (lc_args c) = Some tx" "length tx < 2 ^ 31" by (auto simp: printable_def)
  from make_message_eq [OF tx, of "\<lambda>_. 0" 0 "local_thread_id (ls_tls ?L (thread_no t))"] obtain m
    where m: "make_message (\<lambda>_. 0) 0 (local_thread_id (ls_tls ?L (thread_no t))) c = Some m" by blast
  note r = thread_ring [OF inv Cons.prems(3)]
  have "length (contents (ring (ls_log ?L) k)) < 1023" using r(2) Cons.prems(5) Cons.hyps(2) by (cases "pg_calls s t") auto
  then obtain lg where lg: "logger_log (\<lambda>_. 0) 0 (ls_tls ?L (thread_no t)) c (ls_log ?L) = Some lg"
    using logger_log_room [OF Cons.prems(3) r(1) m r(3)] by blast
  define s1 where "s1 = calls (s\<lparr>pg_logger := ?L\<lparr>ls_log := lg, ls_sent := ls_sent ?L @ [(k, m)]\<rparr>,
      pg_logged := (pg_logged s)(t := pg_logged s t @ [c])\<rparr>) t cs"
  have st: "program_step P s s1" unfolding s1_def
    by (rule log_call [OF Cons.prems(2) Cons.hyps(2) [symmetric] refl Cons.prems(3) tx m lg])
  have "logging_inv F sz s1" using Cons.prems(6,7) by (intro logging_inv_step [OF st Cons.prems(1)]) auto
  then have "\<exists>L. (program_step P)\<^sup>*\<^sup>* s1 (s1\<lparr>pg_logger := L, pg_logged := (pg_logged s1)(t := pg_logged s1 t @ pg_calls s1 t),
      pg_calls := (pg_calls s1)(t := [])\<rparr>) \<and> ls_tls L = ls_tls (pg_logger s1) \<and> ls_bg L = ls_bg (pg_logger s1)"
    using Cons.prems Cons.hyps(2) [symmetric] by (intro Cons.hyps(1)) (simp_all add: s1_def)
  then show ?case using st Cons.hyps(2) [symmetric] by (auto simp: s1_def intro: converse_rtranclp_into_rtranclp)
qed

section \<open>Cancel messages are logged\<close>

lemma cancel_logs: "cancel l oid = Some (r, l', logs) \<Longrightarrow> logs \<noteq> []"
  by (auto simp: cancel_def split: bind_splits option.splits)

abbreviation cancels :: "InternalMessage list \<Rightarrow> nat" where
  "cancels ms \<equiv> length (filter (\<lambda>m. im_type m = ch (CHR ''D'')) ms)"

lemma process_cancel_logs:
  assumes "process_msg sys s msg = Some (logs, tr, w)" "im_type msg = ch (CHR ''D'')"
  shows "1 \<le> length logs"
proof -
  obtain tr0 w0 where s: "s = (tr0, w0)" by fastforce
  have "ch (CHR ''D'') \<noteq> ch (CHR ''A'')" by (simp add: ch_def)
  with assms s obtain l1 l2 l where "apply_to_book (tr_lob tr0) msg = Some (l1, l)" "logs = l1 @ l2"
    by (auto simp: process_msg_def split: bind_splits)
  moreover have "l1 \<noteq> []" if "apply_to_book (tr_lob tr0) msg = Some (l1, l)"
    using that assms(2) \<open>ch (CHR ''D'') \<noteq> ch (CHR ''A'')\<close>
    by (auto simp: apply_to_book_def dest: cancel_logs split: bind_splits)
  ultimately show ?thesis by (cases l1) auto
qed

text \<open>
  The strategy thread has announced itself, and has a log call, made or still to be made, for every
  cancel message it has handled; it handles the next message when all its calls have returned.
\<close>

definition cancels_inv :: "'w Program \<Rightarrow> bool" where
  "cancels_inv s \<longleftrightarrow> (if pg_strategy s \<in> {S_None, S_Start} then pg_handled s = []
       else cancels (pg_handled s) + 1 \<le> length (pg_logged s StrategyThread) + length (pg_calls s StrategyThread)) \<and>
     (pg_strategy s = S_Body \<longrightarrow> pg_calls s StrategyThread = []) \<and>
     (pg_main s = M_Spawn \<longrightarrow> pg_strategy s = S_None)"

lemma cancels_inv_step: "program_step P s s' \<Longrightarrow> cancels_inv s \<Longrightarrow> cancels_inv s'"
proof (induction rule: program_step.induct)
  case (strategy_message s q msg q' tr logs tr' w')
  then show ?case using process_cancel_logs [OF strategy_message(5)] by (auto simp: cancels_inv_def)
next
  case (log_call s t c cs L k tx junk tsc msg lg)
  then show ?case by (cases t) (auto simp: cancels_inv_def split: if_splits)
qed (auto simp: cancels_inv_def split: if_splits)

lemma cancels_inv_run: "(program_step P)\<^sup>*\<^sup>* (start_program L logs q w) s \<Longrightarrow> cancels_inv s"
proof (induction rule: rtranclp_induct)
  case base
  show ?case by (simp add: cancels_inv_def start_program_def)
qed (rule cancels_inv_step)

section \<open>Properties\<close>

text \<open>
  C36. The log of the program. In every state the program can reach after the log file was opened, the
  calls a registered thread has made are recorded as messages in the order of the calls, each with
  its level and the first 239 characters of its text; the lines of the thread in the file are, in
  this order, lines of these messages, the file holds exactly the lines of the messages written,
  and as long as the file can grow the lines of the thread are those of its first calls, with none
  left out.
\<close>

theorem program_logs_in_order:
  assumes "(program_step P)\<^sup>*\<^sup>* (start_program (boot_logger ofd True True) logs q w) s" "ofd \<noteq> -1"
    and "pg_logger s = L" "local_queue (ls_tls L (thread_no t)) = Some k"
  shows "\<exists>ms. list_all2 recorded (pg_logged s t) ms \<and>
    subseq (filter (\<lambda>m. lm_thread_id m = of_nat (thread_no t)) (ls_written L)) ms \<and>
    take (unat (lg_current_offset (ls_log L))) (lg_file (ls_log L)) = concat (map msg_line (ls_written L)) \<and>
    (pf_file_ops P = {(True, True)} \<and> unat (lg_current_offset (ls_log L)) + 286 < 2 ^ 62 \<longrightarrow>
      (\<exists>n. filter (\<lambda>m. lm_thread_id m = of_nat (thread_no t)) (ls_written L) = take n ms))"
proof -
  have "logging_inv (pf_file_ops P) (50 * 1024 * 1024) s" by (rule logging_inv_run [OF assms(1,2)])
  then have inv: "logger_inv (pf_file_ops P) (50 * 1024 * 1024) L" "thread_log L t (pg_logged s t)"
    using assms(3) by (auto simp: logging_inv_def)
  let ?own = "\<lambda>m. lm_thread_id m = of_nat (thread_no t)"
  obtain ms n where ms: "list_all2 recorded (pg_logged s t) ms" "filter ?own (map snd (ls_taken L)) = take n ms"
    by (rule thread_messages [OF inv assms(4)])
  have w: "written_ok (pf_file_ops P) (50 * 1024 * 1024) L" using inv(1) by (simp add: logger_inv_def)
  then have "subseq (filter ?own (ls_written L)) (filter ?own (map snd (ls_taken L)))"
    by (intro subseq_filter) (simp add: written_ok_def)
  then have "subseq (filter ?own (ls_written L)) ms" unfolding ms(2) by (rule subseq_order.trans) (rule prefix_imp_subseq [OF take_is_prefix])
  moreover have "take (unat (lg_current_offset (ls_log L))) (lg_file (ls_log L)) = concat (map msg_line (ls_written L))"
    using w by (simp add: written_ok_def file_ok_def split: if_splits)
  moreover have "\<exists>n. filter ?own (ls_written L) = take n ms"
    if "pf_file_ops P = {(True, True)} \<and> unat (lg_current_offset (ls_log L)) + 286 < 2 ^ 62"
    using w that ms(2) by (auto simp: written_ok_def)
  ultimately show ?thesis using ms(1) by blast
qed

text \<open>
  C37. Without a log file the program stops trading. When the log file cannot be opened, extended or
  mapped, nothing reports it to the rest of the program, but in every state it can reach, under
  every interleaving, each thread has made at most 1023 log calls, and the strategy thread has
  handled at most 1023 delete messages: it waits for ever in the call that finds its ring full.
\<close>

theorem no_log_file_stops_trading:
  assumes "(program_step P)\<^sup>*\<^sup>* (start_program (boot_logger ofd tr_ok map_ok) logs q w) s"
    and "ofd = -1 \<or> \<not> tr_ok \<or> \<not> map_ok"
  shows "length (pg_logged s t) \<le> 1023 \<and>
    length (filter (\<lambda>m. im_type m = ch (CHR ''D'')) (pg_handled s)) \<le> 1023"
proof -
  have bound: "length (pg_logged s' u) \<le> 1023" if "stalled_inv s'" for s' :: "'a Program" and u
  proof (cases "local_queue (ls_tls (pg_logger s') (thread_no u))")
    case None
    with that show ?thesis by (auto simp: stalled_inv_def logging_inv_def thread_log_def dest!: spec [of _ u])
  next
    case (Some k)
    have inv: "logger_inv {} (50 * 1024 * 1024) (pg_logger s')" "thread_log (pg_logger s') u (pg_logged s' u)" "ls_taken (pg_logger s') = []"
      using that by (auto simp: stalled_inv_def logging_inv_def)
    note r = thread_ring [OF inv(1,2) Some]
    have "of_ring k (ls_sent (pg_logger s')) = contents (ring (ls_log (pg_logger s')) k)"
      using inv(1,3) r(1) by (simp add: logger_inv_def rings_ok_def)
    moreover have "list_all2 recorded (pg_logged s' u) (of_ring k (ls_sent (pg_logger s')))" using inv(2) Some by (simp add: thread_log_def)
    ultimately have "length (pg_logged s' u) = length (contents (ring (ls_log (pg_logger s')) k))" by (simp add: list_all2_lengthD)
    with spsc.bounded [OF r(3)] show ?thesis by (simp only: log_capacity)
  qed
  have "cancels (pg_handled s) \<le> 1023" using assms(1)
  proof (induction rule: rtranclp_induct)
    case base
    show ?case by (simp add: start_program_def)
  next
    case (step y z)
    have c: "cancels_inv y" by (rule cancels_inv_run [OF step(1)])
    have "length (pg_logged y StrategyThread) \<le> 1023" by (rule bound [OF stalled_inv_run [OF step(1) assms(2)]])
    with step(2) c step(3) show ?case
      by (induction rule: program_step.induct) (auto simp: cancels_inv_def)
  qed
  with bound [OF stalled_inv_run [OF assms]] show ?thesis by simp
qed

text \<open>The start of the program with its first log call, under both outcomes of \<open>init\<close>.\<close>

lemma first_calls:
  assumes "s = start_program (boot_logger ofd t m) cs q w" "\<forall>c \<in> set cs. printable c" "length cs \<le> 1023"
  obtains L where "(program_step P)\<^sup>*\<^sup>* s (s\<lparr>pg_logger := L, pg_logged := (pg_logged s)(MainThread := cs), pg_calls := (pg_calls s)(MainThread := [])\<rparr>)"
    "ls_tls L = ls_tls (pg_logger s)"
proof -
  note p = boot_logger_parts [OF refl, of ofd t m]
  define F where "F = (if lg_running (ls_log (boot_logger ofd t m)) then pf_file_ops P else {})"
  have "logging_inv F (50 * 1024 * 1024) s" unfolding assms(1) by (rule boot_logger_inv) (simp add: F_def)
  moreover have s: "pg_main s = M_Spawn" "pg_logger s = boot_logger ofd t m" "pg_calls s MainThread = cs" "pg_logged s MainThread = []"
    by (simp_all add: assms(1) start_program_def)
  moreover have "F = pf_file_ops P" if "bg_at (ls_bg (pg_logger s)) \<noteq> BG_Exit"
    using that p(9) s(2) by (simp add: F_def split: if_splits)
  moreover have "local_queue (ls_tls (pg_logger s) (thread_no MainThread)) = Some 0" by (simp add: s(2) p(2))
  ultimately show thesis using log_calls_return [of F "50 * 1024 * 1024" s MainThread 0 P] assms(2,3) that by auto
qed

definition plain_platform :: "fd_table platform" where
  "plain_platform = \<lparr>pf_send = (\<lambda>w f b. (w, -1, EAGAIN)), pf_sock = table_sockets, pf_affinity = (\<lambda>_ _ w. (0, w)),
     pf_mmap_ok = (\<lambda>_. True), pf_file_ops = {(True, True)}\<rparr>"

abbreviation blank :: InternalMessage where
  "blank \<equiv> \<lparr>im_type = 0, im_id = 0, im_price = 0, im_quantity = 0, im_side = BUY\<rparr>"

theorem program_logs_in_order_witness:
  "\<exists>s m. (program_step plain_platform)\<^sup>*\<^sup>* (start_program (boot_logger 3 True True)
        [log_msg INFO ''System Initialization Started.'' []] (new_queue QUEUE_CAPACITY blank) (3, [], [])) s \<and>
     recorded (log_msg INFO ''System Initialization Started.'' []) m \<and>
     subseq (filter (\<lambda>m. lm_thread_id m = 0) (ls_written (pg_logger s))) [m]"
proof -
  let ?c = "log_msg INFO ''System Initialization Started.'' []"
  let ?s = "start_program (boot_logger 3 True True) [?c] (new_queue QUEUE_CAPACITY blank) (3, [], []) :: fd_table Program"
  have "\<forall>c \<in> set [?c]. printable c" by (simp add: printable_def log_msg_def)
  then obtain L where L: "(program_step plain_platform)\<^sup>*\<^sup>* ?s (?s\<lparr>pg_logger := L, pg_logged := (pg_logged ?s)(MainThread := [?c]),
      pg_calls := (pg_calls ?s)(MainThread := [])\<rparr>)" "ls_tls L = ls_tls (pg_logger ?s)"
    by (rule first_calls [OF refl]) simp
  have "local_queue (ls_tls L (thread_no MainThread)) = Some 0"
    by (simp add: L(2) start_program_def boot_logger_parts(2) [OF refl])
  from program_logs_in_order [OF L(1) _ _ this] obtain ms where "list_all2 recorded [?c] ms"
    "subseq (filter (\<lambda>m. lm_thread_id m = 0) (ls_written L)) ms" by auto
  then obtain m where "recorded ?c m" "subseq (filter (\<lambda>m. lm_thread_id m = 0) (ls_written L)) [m]"
    by (auto simp: list_all2_Cons1)
  then show ?thesis using L(1) by (intro exI conjI) (assumption, assumption, simp)
qed

theorem no_log_file_stops_trading_witness:
  "\<exists>s. (program_step plain_platform)\<^sup>*\<^sup>* (start_program (boot_logger (-1) True True)
        (replicate 1023 (log_msg WARN ''wait'' [])) (new_queue QUEUE_CAPACITY blank) (3, [], [])) s \<and>
     length (pg_logged s MainThread) = 1023 \<and> length (pg_logged s StrategyThread) \<le> 1023 \<and>
     length (filter (\<lambda>m. im_type m = ch (CHR ''D'')) (pg_handled s)) \<le> 1023"
proof -
  let ?cs = "replicate 1023 (log_msg WARN ''wait'' [])"
  let ?s = "start_program (boot_logger (-1) True True) ?cs (new_queue QUEUE_CAPACITY blank) (3, [], []) :: fd_table Program"
  have "\<forall>c \<in> set ?cs. printable c" by (simp add: printable_def log_msg_def)
  then obtain L where L: "(program_step plain_platform)\<^sup>*\<^sup>* ?s (?s\<lparr>pg_logger := L, pg_logged := (pg_logged ?s)(MainThread := ?cs),
      pg_calls := (pg_calls ?s)(MainThread := [])\<rparr>)"
    by (rule first_calls [OF refl]) simp
  from no_log_file_stops_trading [OF this, of StrategyThread] L show ?thesis by (intro exI conjI) (assumption, simp_all)
qed

section \<open>Releasing the ring buffer\<close>

text \<open>
  C38. Releasing the ring buffer. In every interleaving the main thread releases it only after the
  strategy thread has ended, so the strategy thread never accesses released memory. The network
  thread is not stopped: from every reachable state in which main has joined the strategy thread
  and the network thread is waiting for events, the program can go on so that a datagram that
  parses is pushed into the released memory.
\<close>

theorem queue_released:
  assumes "(program_step P)\<^sup>*\<^sup>* (start_program L cs q w) s"
  shows "StrategyThread \<notin> set (pg_faults s) \<and> (pg_queue s = None \<longrightarrow> pg_strategy s = S_Done \<and> \<not> pg_is_running s) \<and>
    (pg_main s = M_Detach \<and> pg_network s = N_Loop \<and> pg_calls s NetworkThread = [] \<and>
     decode_datagram junk d = Some (Some msg, logs) \<longrightarrow>
       (\<exists>s'. (program_step P)\<^sup>*\<^sup>* s s' \<and> NetworkThread \<in> set (pg_faults s')))"
proof (intro conjI impI)
  from program_inv_run [OF assms]
  show "StrategyThread \<notin> set (pg_faults s)" "pg_queue s = None \<Longrightarrow> pg_strategy s = S_Done" "pg_queue s = None \<Longrightarrow> \<not> pg_is_running s"
    by (auto simp: program_inv_def)
next
  assume a: "pg_main s = M_Detach \<and> pg_network s = N_Loop \<and> pg_calls s NetworkThread = [] \<and>
     decode_datagram junk d = Some (Some msg, logs)"
  let ?f = "s\<lparr>pg_main := M_Free\<rparr>" and ?r = "s\<lparr>pg_queue := None, pg_main := M_Shutdown\<rparr>"
  have "program_step P s ?f" using a by (intro main_detach) simp
  moreover have "program_step P ?f ?r" using main_free [of ?f P] by simp
  moreover have "program_step P ?r (?r\<lparr>pg_faults := NetworkThread # pg_faults ?r\<rparr>)"
    using a by (intro network_freed [of ?r junk d msg logs]) simp_all
  ultimately have "(program_step P)\<^sup>*\<^sup>* s (?r\<lparr>pg_faults := NetworkThread # pg_faults ?r\<rparr>)"
    by (meson converse_rtranclp_into_rtranclp rtranclp.rtrancl_refl)
  then show "\<exists>s'. (program_step P)\<^sup>*\<^sup>* s s' \<and> NetworkThread \<in> set (pg_faults s')" by (intro exI conjI) (assumption, simp)
qed

text \<open>A run up to the join of the strategy thread, on sockets that can all be opened.\<close>

lemma register_own: "local_queue (ls_tls (register t L) (thread_no t)) \<noteq> None"
  by (simp add: register_def registerThread_def split: option.splits prod.splits)

lemma plain_setup:
  "\<exists>cs l w'. network_setup table_sockets (\<lambda>_ _ w. (0, w)) g (3, [], []) = Some (True, cs, l, setSocketFd g 4, w') \<and>
     (\<forall>c \<in> set cs. printable c) \<and> length cs = 5"
proof -
  have t: "net_sys.truncate table_sockets = table_kernel" by (simp add: table_sockets_def net_sys.defs sock_sys.defs)
  have d: "length (dec_digits 9000) \<le> 5" "length (dec_digits 12345) \<le> 5" by (rule length_dec_digits; simp)+
  have p: "printable (log_msg INFO ''NetworkEventLoop: Connecting to TCP %s:%u'' [ArgS ''127.0.0.1'', ArgU 9000])"
    "printable (log_msg INFO ''NetworkEventLoop: Listening on UDP multicast %s:%u'' [ArgS ''239.255.0.1'', ArgU 12345])"
    using d by (simp_all add: printable_def log_msg_def conversion_def ctext_takeWhile ch_def)
  have "printable (log_msg lv f [])" if "\<exists>tx. printf_text f [] = Some tx \<and> length tx < 2 ^ 31" for lv f
    using that by (simp add: printable_def log_msg_def)
  then show ?thesis unfolding network_setup_def t
    by (simp add: p pin_current_thread_to_core_def pin_thread_to_core_def loop_init_def table_kernel_def table_new_def
        addTCPClient_def addUDPMulticastListener_def registerFd_def setNonBlocking_def new_event_loop_def Let_def)
qed

text \<open>A thread whose calls find room, as a step of a run.\<close>

lemma flush_thread:
  assumes r: "(program_step P)\<^sup>*\<^sup>* (start_program (boot_logger 3 True True) logs q w) s"
    and "local_queue (ls_tls (pg_logger s) (thread_no t)) \<noteq> None" "pg_main s \<in> {M_Spawn, M_Input, M_Join}"
    and "\<forall>c \<in> set (pg_calls s t). printable c" "length (pg_logged s t) + length (pg_calls s t) \<le> 1023"
  obtains L where "(program_step P)\<^sup>*\<^sup>* (start_program (boot_logger 3 True True) logs q w)
      (s\<lparr>pg_logger := L, pg_logged := (pg_logged s)(t := pg_logged s t @ pg_calls s t), pg_calls := (pg_calls s)(t := [])\<rparr>)"
    "ls_tls L = ls_tls (pg_logger s)"
proof -
  have "logging_inv (pf_file_ops P) (50 * 1024 * 1024) s" by (rule logging_inv_run [OF r]) simp
  with log_calls_return [of "pf_file_ops P" "50 * 1024 * 1024" s t _ P] assms(2-5) obtain L
    where "(program_step P)\<^sup>*\<^sup>* s (s\<lparr>pg_logger := L, pg_logged := (pg_logged s)(t := pg_logged s t @ pg_calls s t), pg_calls := (pg_calls s)(t := [])\<rparr>)"
      "ls_tls L = ls_tls (pg_logger s)" by fastforce
  with r that show thesis by (meson rtranclp_trans)
qed

text \<open>The program after its start: both threads run, and the gateway has the order entry socket.\<close>

lemma started_reachable:
  obtains s where "(program_step plain_platform)\<^sup>*\<^sup>* (start_program (boot_logger 3 True True) [] (new_queue QUEUE_CAPACITY blank) (3, [], [])) s"
    "pg_main s = M_Input" "pg_strategy s = S_Check" "pg_network s = N_Loop" "pg_tcp s = setSocketFd new_gateway 4"
    "pg_calls s StrategyThread = []" "pg_calls s NetworkThread = []" "length (pg_logged s StrategyThread) = 1"
    "local_queue (ls_tls (pg_logger s) (thread_no StrategyThread)) \<noteq> None"
    "pg_is_running s" "pg_queue s = Some (new_queue QUEUE_CAPACITY blank)" "pg_handled s = []" "pg_trader s \<noteq> None"
proof -
  let ?P = plain_platform and ?s = "start_program (boot_logger 3 True True) [] (new_queue QUEUE_CAPACITY blank) (3, [], []) :: fd_table Program"
  let ?hello = "log_msg INFO ''Strategy Thread initialized on Core 1.'' []"
  let ?run = "log_msg INFO ''NetworkEventLoop: Starting event loop'' []"
  have pr: "printable ?hello" "printable ?run" by (simp_all add: printable_def log_msg_def)
  let ?s1 = "?s\<lparr>pg_strategy := S_Start, pg_network := N_Start, pg_main := M_Input\<rparr>"
  have "program_step ?P ?s ?s1" by (rule main_spawn) (simp_all add: start_program_def)
  then have r1: "(program_step ?P)\<^sup>*\<^sup>* ?s ?s1" by (rule r_into_rtranclp)
  let ?s2 = "calls (?s1\<lparr>pg_world := (3, [], []), pg_logger := register StrategyThread (pg_logger ?s1), pg_strategy := S_Construct\<rparr>) StrategyThread [?hello]"
  have "program_step ?P ?s1 ?s2" by (rule strategy_start) (simp_all add: start_program_def plain_platform_def pin_current_thread_to_core_def pin_thread_to_core_def)
  with r1 have r2: "(program_step ?P)\<^sup>*\<^sup>* ?s ?s2" by (rule rtranclp.rtrancl_into_rtrancl)
  obtain L3 where r3: "(program_step ?P)\<^sup>*\<^sup>* ?s (?s2\<lparr>pg_logger := L3, pg_logged := (pg_logged ?s2)(StrategyThread := [?hello]), pg_calls := (pg_calls ?s2)(StrategyThread := [])\<rparr>)"
    and L3: "ls_tls L3 = ls_tls (pg_logger ?s2)"
    using flush_thread [OF r2, of StrategyThread] pr register_own [of StrategyThread "pg_logger ?s1"] by (auto simp: start_program_def)
  let ?s3 = "?s2\<lparr>pg_logger := L3, pg_logged := (pg_logged ?s2)(StrategyThread := [?hello]), pg_calls := (pg_calls ?s2)(StrategyThread := [])\<rparr>"
  obtain tr where tr: "start_trader (\<lambda>_. True) new_gateway = Some tr" using start_exists by blast
  let ?s4 = "?s3\<lparr>pg_trader := Some tr, pg_strategy := S_Check\<rparr>"
  have "program_step ?P ?s3 ?s4" by (rule strategy_construct) (simp_all add: start_program_def plain_platform_def tr)
  with r3 have r4: "(program_step ?P)\<^sup>*\<^sup>* ?s ?s4" by (rule rtranclp.rtrancl_into_rtrancl)
  obtain cs l w' where n: "network_setup table_sockets (\<lambda>_ _ w. (0, w)) new_gateway (3, [], []) = Some (True, cs, l, setSocketFd new_gateway 4, w')"
    "\<forall>c \<in> set cs. printable c" "length cs = 5" using plain_setup by blast
  let ?s5 = "calls (?s4\<lparr>pg_tcp := setSocketFd new_gateway 4, pg_logger := register NetworkThread (pg_logger ?s4), pg_world := w', pg_network := N_Loop\<rparr>)
    NetworkThread (cs @ [?run])"
  have "program_step ?P ?s4 ?s5"
    using network_start [of ?s4 ?P True cs l "setSocketFd new_gateway 4" w'] n(1) by (simp add: start_program_def plain_platform_def)
  with r4 have r5: "(program_step ?P)\<^sup>*\<^sup>* ?s ?s5" by (rule rtranclp.rtrancl_into_rtrancl)
  obtain L6 where r6: "(program_step ?P)\<^sup>*\<^sup>* ?s (?s5\<lparr>pg_logger := L6, pg_logged := (pg_logged ?s5)(NetworkThread := cs @ [?run]), pg_calls := (pg_calls ?s5)(NetworkThread := [])\<rparr>)"
    and L6: "ls_tls L6 = ls_tls (pg_logger ?s5)"
    using flush_thread [OF r5, of NetworkThread] pr n(2,3) register_own [of NetworkThread L3] by (auto simp: start_program_def)
  let ?s6 = "?s5\<lparr>pg_logger := L6, pg_logged := (pg_logged ?s5)(NetworkThread := cs @ [?run]), pg_calls := (pg_calls ?s5)(NetworkThread := [])\<rparr>"
  have q: "local_queue (ls_tls (pg_logger ?s6) (thread_no StrategyThread)) \<noteq> None"
    using L3 L6 register_own [of StrategyThread "pg_logger ?s1"] by simp
  show thesis by (rule that [OF r6 _ _ _ _ _ _ _ q]) (simp_all add: start_program_def)
qed

lemma joined_reachable:
  obtains s where "(program_step plain_platform)\<^sup>*\<^sup>* (start_program (boot_logger 3 True True) [] (new_queue QUEUE_CAPACITY blank) (3, [], [])) s"
    "pg_main s = M_Detach" "pg_network s = N_Loop" "pg_calls s NetworkThread = []"
proof -
  let ?P = plain_platform and ?s = "start_program (boot_logger 3 True True) [] (new_queue QUEUE_CAPACITY blank) (3, [], []) :: fd_table Program"
  let ?bye = "log_msg INFO ''Strategy Thread shutting down.'' []"
  have pr: "printable ?bye" by (simp add: printable_def log_msg_def)
  obtain a where a: "(program_step ?P)\<^sup>*\<^sup>* ?s a" "pg_main a = M_Input" "pg_strategy a = S_Check" "pg_network a = N_Loop"
    "pg_tcp a = setSocketFd new_gateway 4" "pg_calls a StrategyThread = []" "pg_calls a NetworkThread = []"
    "length (pg_logged a StrategyThread) = 1" "local_queue (ls_tls (pg_logger a) (thread_no StrategyThread)) \<noteq> None"
    by (rule started_reachable)
  let ?b = "a\<lparr>pg_is_running := False, pg_main := M_Join\<rparr>"
  let ?c = "calls (?b\<lparr>pg_strategy := S_Done\<rparr>) StrategyThread [?bye]"
  have "program_step ?P a ?b" using a(2) by (rule main_input)
  moreover have "program_step ?P ?b ?c" by (rule strategy_stop) (simp_all add: a)
  ultimately have c: "(program_step ?P)\<^sup>*\<^sup>* ?s ?c" using a(1) by (meson rtranclp.rtrancl_into_rtrancl)
  have q: "local_queue (ls_tls (pg_logger ?c) (thread_no StrategyThread)) \<noteq> None" using a(9) by simp
  obtain L where "(program_step ?P)\<^sup>*\<^sup>* ?s (?c\<lparr>pg_logger := L, pg_logged := (pg_logged ?c)(StrategyThread := pg_logged ?c StrategyThread @ pg_calls ?c StrategyThread),
      pg_calls := (pg_calls ?c)(StrategyThread := [])\<rparr>)"
    by (rule flush_thread [OF c q]) (use a(8) pr in simp_all)
  moreover have "program_step ?P (?c\<lparr>pg_logger := L, pg_logged := (pg_logged ?c)(StrategyThread := pg_logged ?c StrategyThread @ pg_calls ?c StrategyThread),
      pg_calls := (pg_calls ?c)(StrategyThread := [])\<rparr>) (?c\<lparr>pg_logger := L, pg_logged := (pg_logged ?c)(StrategyThread := pg_logged ?c StrategyThread @ pg_calls ?c StrategyThread),
      pg_calls := (pg_calls ?c)(StrategyThread := []), pg_main := M_Detach\<rparr>)"
    using main_join [of "?c\<lparr>pg_logger := L, pg_logged := (pg_logged ?c)(StrategyThread := pg_logged ?c StrategyThread @ pg_calls ?c StrategyThread),
      pg_calls := (pg_calls ?c)(StrategyThread := [])\<rparr>" ?P] by simp
  ultimately have "(program_step ?P)\<^sup>*\<^sup>* ?s (?c\<lparr>pg_logger := L, pg_logged := (pg_logged ?c)(StrategyThread := pg_logged ?c StrategyThread @ pg_calls ?c StrategyThread),
      pg_calls := (pg_calls ?c)(StrategyThread := []), pg_main := M_Detach\<rparr>)" by (rule rtranclp.rtrancl_into_rtrancl)
  then show thesis by (rule that) (simp_all add: a)
qed

text \<open>A datagram with an order to buy 100 shares at 15000.\<close>

definition demo_datagram :: "u8 list" where
  "demo_datagram = AddOrderMsg_bytes (built_msg 1 1 0 500000 66 100 (map ch ''AAPL'') 15000)"

abbreviation demo_order :: InternalMessage where
  "demo_order \<equiv> \<lparr>im_type = ch (CHR ''A''), im_id = 500000, im_price = 15000, im_quantity = 100, im_side = BUY\<rparr>"

lemma demo_decodes: "decode_datagram blank demo_datagram = Some (Some demo_order, [])"
proof -
  have l: "length demo_datagram = 36" unfolding demo_datagram_def by (rule add_order_msg.length_bytes [OF built_msg_wf])
  then have "parse demo_datagram 36 blank = Some (True, demo_order, [])"
    using parse_built [of 36 demo_datagram 1 1 0 500000 66 100 "map ch ''AAPL''" 15000 "[]" blank] by (simp add: demo_datagram_def ch_def)
  moreover have "take 2048 demo_datagram = demo_datagram" using l by simp
  ultimately show ?thesis using l unfolding decode_datagram_def Let_def by simp
qed

theorem queue_released_witness:
  "\<exists>s. (program_step plain_platform)\<^sup>*\<^sup>* (start_program (boot_logger 3 True True) [] (new_queue QUEUE_CAPACITY blank) (3, [], [])) s \<and>
     NetworkThread \<in> set (pg_faults s)"
proof -
  obtain s where s: "(program_step plain_platform)\<^sup>*\<^sup>* (start_program (boot_logger 3 True True) [] (new_queue QUEUE_CAPACITY blank) (3, [], [])) s"
    "pg_main s = M_Detach" "pg_network s = N_Loop" "pg_calls s NetworkThread = []" by (rule joined_reachable)
  with queue_released [OF s(1), of blank demo_datagram demo_order "[]"] demo_decodes
  obtain s' where "(program_step plain_platform)\<^sup>*\<^sup>* s s'" "NetworkThread \<in> set (pg_faults s')" by blast
  with s(1) show ?thesis by (meson rtranclp_trans)
qed

section \<open>A run that handles a message\<close>

lemma plain_posix: "posix_stream (pf_send plain_platform) (\<lambda>_. [])"
  by (simp add: posix_stream_def plain_platform_def)

lemma handled_reachable:
  obtains s where "(program_step plain_platform)\<^sup>*\<^sup>* (start_program (boot_logger 3 True True) [] (new_queue QUEUE_CAPACITY blank) (3, [], [])) s"
    "pg_handled s = [demo_order]" "pg_trader s \<noteq> None"
proof -
  let ?P = plain_platform and ?s = "start_program (boot_logger 3 True True) [] (new_queue QUEUE_CAPACITY blank) (3, [], []) :: fd_table Program"
  let ?q = "new_queue QUEUE_CAPACITY blank"
  obtain a tr where a: "(program_step ?P)\<^sup>*\<^sup>* ?s a" "pg_main a = M_Input" "pg_strategy a = S_Check" "pg_network a = N_Loop"
    "pg_calls a StrategyThread = []" "pg_calls a NetworkThread = []" "pg_is_running a" "pg_queue a = Some ?q" "pg_handled a = []" "pg_trader a = Some tr"
    by (rule started_reachable) auto
  have q: "queue_inv QUEUE_CAPACITY ?q" "contents ?q = []" using new_queue_inv [of QUEUE_CAPACITY blank] by (simp_all add: QUEUE_CAPACITY_def)
  then obtain q1 where q1: "on_datagram blank demo_datagram ?q = Some ([], q1)"
    using on_datagram_room [OF q(1), of blank demo_datagram] demo_decodes by (auto simp: QUEUE_CAPACITY_def on_datagram_def split: bind_splits)
  let ?b = "calls (a\<lparr>pg_queue := Some q1, pg_fed := pg_fed a @ [demo_order]\<rparr>) NetworkThread []"
  let ?c = "?b\<lparr>pg_strategy := S_Body\<rparr>"
  have "program_step ?P a ?b" using network_datagram [OF a(4) _ a(6,8) demo_decodes q1, of ?P] a(2) by simp
  moreover have "program_step ?P ?b ?c" by (rule strategy_check) (simp_all add: a)
  ultimately have c: "(program_step ?P)\<^sup>*\<^sup>* ?s ?c" using a(1) by (meson rtranclp.rtrancl_into_rtrancl)
  from ring_push [OF q(1) demo_decodes q1] q(2) have "queue_inv QUEUE_CAPACITY q1" "contents q1 = [demo_order]" by simp_all
  then obtain q2 where p: "pop QUEUE_CAPACITY q1 = Some (Some demo_order, q2)" using spsc.deq_Cons [of QUEUE_CAPACITY q1 demo_order "[]"] by blast
  have "trading_run ?P (\<lambda>_. []) ?c" by (rule trading_run_reach [OF c plain_posix])
  then have "traded ?P (\<lambda>_. []) (pg_tcp a) (Some tr) [] (pg_world a)" using a by (simp add: trading_run_def)
  then obtain tr0 w0 where t: "start_trader (pf_mmap_ok ?P) (pg_tcp a) = Some tr0"
    "trading_inv (\<lambda>_. []) tr0 w0 [] (with_gateway (pg_tcp a) tr) (pg_world a)" by (auto simp: traded_def adds_def)
  from process_step [OF t(1) plain_posix t(2), of demo_order] obtain cs tr' w'
    where m: "process_msg (pf_send ?P) (with_gateway (pg_tcp a) tr, pg_world a) demo_order = Some (cs, tr', w')" by (auto simp: adds_def)
  let ?d = "calls (?c\<lparr>pg_queue := Some q2, pg_trader := Some tr', pg_world := w', pg_strategy := S_Check,
      pg_handled := pg_handled ?c @ [demo_order]\<rparr>) StrategyThread cs"
  have "program_step ?P ?c ?d" by (rule strategy_message [OF _ _ p]) (use a m in simp_all)
  with c have "(program_step ?P)\<^sup>*\<^sup>* ?s ?d" by (rule rtranclp.rtrancl_into_rtrancl)
  then show thesis by (rule that) (simp_all add: a)
qed

end
