(* ===== verification/Closed_Loop.thy ===== *)
theory Closed_Loop
  imports Trading_System Exchange_Emulator
begin

text \<open>
  The trading program and the exchange emulator together: the order the strategy sends over TCP is
  what the emulator parses, and the add order the emulator broadcasts is what the network thread
  parses and the strategy thread puts into its book.
\<close>

section \<open>The book never holds more orders than were added\<close>

lemma spec_step_length: "length (snd (spec_step n m b c)) \<le> length b + slots_used c"
proof (cases c)
  case (Modify oid q)
  have "length (filter (\<lambda>r. r_id r \<noteq> oid) b) < length b" if "spec_find b oid = Some r" for r
  proof -
    have "r \<in> set b" "r_id r = oid" using that by (auto simp: spec_find_def find_Some_iff)
    then show ?thesis by (intro length_filter_less [of r]) simp_all
  qed
  then show ?thesis by (auto simp: Modify spec_modify_def spec_cancel_def Suc_le_eq split: option.splits intro: less_imp_le)
qed (auto simp: spec_add_def spec_cancel_def)

lemma spec_book_length: "length (spec_book n m msgs) \<le> adds msgs"
proof (induction msgs rule: rev_induct)
  case Nil
  show ?case by (simp add: spec_book_def book_cmds_def map_filter_def)
next
  case (snoc msg msgs)
  have a: "adds (msgs @ [msg]) = adds msgs + adds [msg]" by (simp add: adds_def)
  show ?case
  proof (cases "book_cmd_of msg")
    case None
    with snoc a show ?thesis by (simp add: spec_book_snoc)
  next
    case (Some c)
    then have "slots_used c \<le> adds [msg]" by (auto simp: book_cmd_of_def adds_def split: if_splits)
    with Some snoc a spec_step_length [of n m "spec_book n m msgs" c] show ?thesis by (simp add: spec_book_snoc)
  qed
qed

section \<open>The order on its way\<close>

text \<open>What the socket took of the one order of the market maker, when it took all 49 bytes.\<close>

lemma whole_order:
  assumes start: "start_trader mmap_ok tcp = Some tr0" and inv: "trading_inv out tr0 w0 msgs tr w"
    and "out w = out w0 @ b" "length b = 49"
  obtains m ms where "filter triggers msgs = m # ms" "b = order_bytes 1000 (ch (CHR ''S'')) 100 (map ch ''AAPL'') (ucast (im_price m))"
    "eng_strategies (tr_engine tr) = [MarketMaker (main_mm\<lparr>position_taken := True\<rparr>)]" "current_position (eng_risk (tr_engine tr)) = - 100"
proof (cases "filter triggers msgs")
  case Nil
  with inv assms(3,4) show thesis by (simp add: trading_inv_def)
next
  case (Cons m ms)
  let ?o = "order_bytes 1000 (ch (CHR ''S'')) 100 (map ch ''AAPL'') (ucast (im_price m))"
  from Cons inv have e: "eng_strategies (tr_engine tr) = [MarketMaker (main_mm\<lparr>position_taken := True\<rparr>)]"
    "current_position (eng_risk (tr_engine tr)) = - 100" "\<exists>k. out w = out w0 @ take k ?o"
    unfolding trading_inv_def by simp_all
  then obtain k where "b = take k ?o" using assms(3) by auto
  with assms(4) have "b = ?o" by simp
  with that [OF Cons _ e(1,2)] show thesis .
qed

text \<open>The message of the emulator in the strategy thread: the book changes, the strategy does not react.\<close>

lemma echo_handled:
  assumes inv: "trading_inv out tr0 w0 msgs tr w" and room: "adds msgs < 2000000"
    and strat: "eng_strategies (tr_engine tr) = [MarketMaker (main_mm\<lparr>position_taken := True\<rparr>)]"
  shows "\<exists>logs tr'. process_msg sys (tr, w) msg = Some (logs, tr', w) \<and> tr_engine tr' = tr_engine tr \<and>
    sized_refines 1000000 100000 (tr_lob tr') (spec_book 1000000 100000 (msgs @ [msg]))"
proof -
  have "sized_refines 1000000 100000 (tr_lob tr) (spec_book 1000000 100000 msgs)" "0 < lob_room (tr_lob tr)"
    using inv room by (auto simp: trading_inv_def)
  from apply_to_book_refines [OF this, of msg] obtain logs l where
    l: "apply_to_book (tr_lob tr) msg = Some (logs, l)" "sized_refines 1000000 100000 l (spec_book 1000000 100000 (msgs @ [msg]))" by blast
  have "onMarketDataUpdate sys (tr_engine tr) msg w = Some ([], tr_engine tr, w)"
    by (rule market_data_idle [OF strat]) (simp_all add: main_mm_def)
  with l show ?thesis by (simp add: process_msg_def)
qed

text \<open>A datagram with an add order of the emulator.\<close>

lemma echo_decodes:
  "decode_datagram junk (AddOrderMsg_bytes (built_msg 1 1 ts counter (ch (CHR ''S'')) 100 t price)) =
    Some (Some (junk\<lparr>im_type := ch (CHR ''A''), im_id := counter, im_quantity := 100, im_price := ucast price, im_side := SELL\<rparr>), [])"
proof -
  let ?d = "AddOrderMsg_bytes (built_msg 1 1 ts counter (ch (CHR ''S'')) 100 t price)"
  have l: "length ?d = 36" by (rule add_order_msg.length_bytes [OF built_msg_wf])
  have s: "ch (CHR ''S'') \<noteq> ch (CHR ''B'')" by (simp add: ch_def)
  have "parse ?d 36 junk = Some (True, junk\<lparr>im_type := ch (CHR ''A''), im_id := counter, im_quantity := 100,
      im_price := ucast price, im_side := SELL\<rparr>, [])"
    using parse_built [of 36 ?d 1 1 ts counter "ch (CHR ''S'')" 100 t price "[]" junk] l s by simp
  moreover have "take 2048 ?d = ?d" using l by simp
  ultimately show ?thesis using l unfolding decode_datagram_def Let_def by simp
qed

section \<open>Properties\<close>

text \<open>
  C25. The order comes back. When the strategy thread has handled messages and the socket has taken the
  whole order of the market maker, and the emulator's callback receives these bytes (with any others
  behind them), then the emulator broadcasts one datagram, the callback of the feed decodes it, and
  the strategy thread puts it into its book: the reference number of the emulator joins the end of
  the sell queue at the 32-bit price of the buy order that triggered the sale, if the price is one
  of the book, the reference number is not in use and fewer than a million orders were added. The
  strategy sends nothing more and its position stays at -100.
\<close>

theorem order_returns_on_feed:
  assumes "start_trader mmap_ok tcp = Some tr0" "posix_stream sys out" "adds msgs < 1000000"
    and "run_steps (process_msg sys) (tr0, w0) msgs = Some (logs, tr, w)" "out w = out w0 @ b" "length b = 49"
    and "sys_recv emu cfd 1024 ew = ((49 + int (length rest), b @ rest), ew1)" "length rest \<le> 975" "sys_now emu ew1 = (ts, ew2)"
  shows "\<exists>m ms elogs d msg plogs tr'. filter triggers msgs = m # ms \<and>
    on_client_data emu udp_sock ejunk beyond cfd ew counter = Some (elogs, sys_sendto emu udp_sock d ew2, counter + 1) \<and>
    decode_datagram junk d = Some (Some msg, []) \<and> process_msg sys (tr, w) msg = Some (plogs, tr', w) \<and>
    current_position (eng_risk (tr_engine tr')) = - 100 \<and>
    (im_price m < 100000 \<and> (\<forall>s p. counter \<notin> fst ` set (queue_at (tr_lob tr) s p)) \<longrightarrow>
       queue_at (tr_lob tr') SELL (im_price m) = queue_at (tr_lob tr) SELL (im_price m) @ [(counter, 100)])"
proof -
  have "adds ([] @ msgs) < 2000000" using assms(3) by simp
  from process_run [OF assms(1,2) start_inv [OF assms(1), of out w0] this] assms(4)
  have inv: "trading_inv out tr0 w0 msgs tr w" by auto
  from whole_order [OF assms(1) inv assms(5,6)] obtain m ms where
    m: "filter triggers msgs = m # ms" "b = order_bytes 1000 (ch (CHR ''S'')) 100 (map ch ''AAPL'') (ucast (im_price m))"
    "eng_strategies (tr_engine tr) = [MarketMaker (main_mm\<lparr>position_taken := True\<rparr>)]" "current_position (eng_risk (tr_engine tr)) = - 100" .
  have t: "0 \<notin> set (map ch ''AAPL'')" by (simp add: ch_def)
  from on_client_data_order [OF assms(7) [unfolded m(2)] assms(8) t assms(9)] obtain elogs u where
    e: "on_client_data emu udp_sock ejunk beyond cfd ew counter = Some (elogs, sys_sendto emu udp_sock
      (AddOrderMsg_bytes (built_msg 1 1 ts counter (ch (CHR ''S'')) 100 (padded (map ch ''AAPL'') 8 @ u) (ucast (im_price m)))) ew2, counter + 1)" by blast
  let ?msg = "junk\<lparr>im_type := ch (CHR ''A''), im_id := counter, im_quantity := 100, im_price := ucast (ucast (im_price m) :: u32), im_side := SELL\<rparr>"
  have "adds msgs < 2000000" using assms(3) by simp
  from echo_handled [OF inv this m(3), of sys ?msg] obtain plogs tr' where
    p: "process_msg sys (tr, w) ?msg = Some (plogs, tr', w)" "tr_engine tr' = tr_engine tr"
    "sized_refines 1000000 100000 (tr_lob tr') (spec_book 1000000 100000 (msgs @ [?msg]))" by blast
  let ?b = "spec_book 1000000 100000 msgs"
  have q: "queue_at (tr_lob tr) s pr = level_queue ?b s pr" for s pr
    using trading_inv_observed(1) [OF assms(1) inv] by blast
  have "queue_at (tr_lob tr') SELL (im_price m) = queue_at (tr_lob tr) SELL (im_price m) @ [(counter, 100)]"
    if "im_price m < 100000" "\<forall>s p. counter \<notin> fst ` set (queue_at (tr_lob tr) s p)"
  proof -
    have pr: "ucast (ucast (im_price m) :: u32) = im_price m" "unat (im_price m) < 100000"
      using that(1) by (simp_all add: word_less_nat_alt word_unat_eq_iff unsigned_ucast_eq take_bit_eq_mod unat_mod_distrib)
    have "spec_find ?b counter = None" using that(2) by (simp add: spec_find_None_iff ids_level_queue q)
    moreover have "length ?b < 1000000" using spec_book_length [of 1000000 100000 msgs] assms(3) by simp
    ultimately have "spec_book 1000000 100000 (msgs @ [?msg]) = ?b @ [\<lparr>r_id = counter, r_side = SELL, r_price = im_price m, r_quantity = 100\<rparr>]"
      using pr by (simp add: spec_book_snoc book_cmd_of_def spec_add_def)
    moreover have "queue_at (tr_lob tr') SELL (im_price m) = level_queue (spec_book 1000000 100000 (msgs @ [?msg])) SELL (im_price m)"
      using p(3) by (intro refines_queue) (simp add: sized_refines_def)
    ultimately show ?thesis by (simp add: q)
  qed
  then show ?thesis using m(1,4) e echo_decodes p(1,2) by (intro exI conjI) (assumption, assumption, rule echo_decodes, assumption, simp, blast)
qed

section \<open>A concrete loop\<close>

lemma sendOrder_world:
  assumes "sendOrder sys e side shares price symb ref w = Some ((True, logs), e', w')" "ctext symb = Some t"
  shows "\<exists>r. tcp_send sys (eng_tcp e) (order_bytes (order_id_counter e) side shares t price @ drop 49 (replicate 64 0)) 49 w = Some (r, w')"
  using assms(1) ouch_bytes_fixed [OF _ assms(2), of "replicate 64 0" "order_id_counter e" side shares price]
  by (auto simp: sendOrder_def Let_def bind_eq_Some_conv split: if_splits)

text \<open>A socket that takes all 49 bytes at once.\<close>

lemma scripted_whole:
  assumes "49 \<le> length buf"
  shows "tcp_send scripted (new_gateway_fd 7) buf 49 ([Some 49], []) = Some ((True, []), ([], take 49 buf))"
  using assms by (simp add: tcp_send_def new_gateway_fd_def)
    (subst send_loop.simps, subst send_loop.simps, simp add: scripted_def Let_def)

text \<open>An emulator that receives the order of the market maker.\<close>

definition loop_kernel :: "u8 list list emu_sys" where
  "loop_kernel = order_kernel\<lparr>sys_recv := (\<lambda>_ _ w. ((49, order_bytes 1000 (ch (CHR ''S'')) 100 (map ch ''AAPL'') 15000), w))\<rparr>"

lemma first_order_sent:
  assumes start: "start_trader mmap_ok (new_gateway_fd 7) = Some tr0"
  shows "\<exists>logs tr. run_steps (process_msg scripted) (tr0, ([Some 49], []))
      [\<lparr>im_type = ch (CHR ''A''), im_id = 1, im_price = 15000, im_quantity = 10, im_side = BUY\<rparr>] =
    Some (logs, tr, ([], order_bytes 1000 (ch (CHR ''S'')) 100 (map ch ''AAPL'') 15000))"
proof -
  let ?m = "\<lparr>im_type = ch (CHR ''A''), im_id = 1, im_price = 15000, im_quantity = 10, im_side = BUY\<rparr>" and ?w = "([Some 49], []) :: nat option list \<times> u8 list"
  note S = start_trader_parts [OF start]
  have a: "adds [] < 2000000" "triggers ?m" by (simp_all add: adds_def triggers_def)
  from process_step [OF start scripted_posix start_inv [OF start, of snd ?w] a(1), of ?m] obtain logs tr w where
    p: "process_msg scripted (tr0, ?w) ?m = Some (logs, tr, w)" "trading_inv snd tr0 ?w [?m] tr w" by auto
  from p(2) a(2) have pos: "current_position (eng_risk (tr_engine tr)) = - 100" by (simp add: trading_inv_def)
  have mm: "\<not> position_taken main_mm" "threshold_price main_mm = 15000" "order_qty main_mm = 100" by (simp_all add: main_mm_def)
  have symb: "ctext (Some (symbol main_mm)) = Some (map ch ''AAPL'')" by (simp add: ctext_def main_mm_def ch_def)
  from p(1) S(8) mm obtain ok slogs e' where
    o: "sendOrder scripted (tr_engine tr0) (ch (CHR ''S'')) 100 15000 (Some (symbol main_mm)) 15000 ?w = Some ((ok, slogs), e', w)"
    "eng_risk (tr_engine tr) = eng_risk e'"
    by (auto simp: process_msg_def onMarketDataUpdate_def mm_onMarketDataUpdate_def bind_eq_Some_conv)
  have ok
  proof (rule ccontr)
    assume "\<not> ok"
    with o(1) have "eng_risk e' = eng_risk (tr_engine tr0)"
      by (auto simp: sendOrder_def Let_def bind_eq_Some_conv split: if_splits)
    with pos o(2) S(5) show False by simp
  qed
  with sendOrder_world [of scripted "tr_engine tr0" "ch (CHR ''S'')" 100 15000 "Some (symbol main_mm)" 15000 ?w slogs e' w, OF _ symb] o(1)
  obtain r where "tcp_send scripted (eng_tcp (tr_engine tr0)) (order_bytes (order_id_counter (tr_engine tr0)) (ch (CHR ''S'')) 100 (map ch ''AAPL'') 15000 @
      drop 49 (replicate 64 0)) 49 ?w = Some (r, w)" by auto
  moreover note scripted_whole [of "order_bytes 1000 (ch (CHR ''S'')) 100 (map ch ''AAPL'') 15000 @ drop 49 (replicate 64 0)"]
  ultimately have "w = ([], order_bytes 1000 (ch (CHR ''S'')) 100 (map ch ''AAPL'') 15000)" using S(7,9) by simp
  with p(1) show ?thesis by (simp del: list.map)
qed

theorem order_returns_on_feed_witness:
  "\<exists>tr0 logs tr elogs d msg plogs tr'. start_trader (\<lambda>_. True) (new_gateway_fd 7) = Some tr0 \<and>
     run_steps (process_msg scripted) (tr0, ([Some 49], []))
       [\<lparr>im_type = ch (CHR ''A''), im_id = 1, im_price = 15000, im_quantity = 10, im_side = BUY\<rparr>] =
       Some (logs, tr, ([], order_bytes 1000 (ch (CHR ''S'')) 100 (map ch ''AAPL'') 15000)) \<and>
     on_client_data loop_kernel 5 (\<lambda>_. 0) [] 7 [] 500000 = Some (elogs, [d], 500001) \<and>
     decode_datagram \<lparr>im_type = 0, im_id = 0, im_price = 0, im_quantity = 0, im_side = BUY\<rparr> d = Some (Some msg, []) \<and>
     process_msg scripted (tr, ([], order_bytes 1000 (ch (CHR ''S'')) 100 (map ch ''AAPL'') 15000)) msg =
       Some (plogs, tr', ([], order_bytes 1000 (ch (CHR ''S'')) 100 (map ch ''AAPL'') 15000)) \<and>
     queue_at (tr_lob tr') SELL 15000 = [(500000, 100)]"
proof -
  let ?m = "\<lparr>im_type = ch (CHR ''A''), im_id = 1, im_price = 15000, im_quantity = 10, im_side = BUY\<rparr>"
  let ?o = "order_bytes 1000 (ch (CHR ''S'')) 100 (map ch ''AAPL'') 15000"
  obtain tr0 where s: "start_trader (\<lambda>_. True) (new_gateway_fd 7) = Some tr0" using start_exists by blast
  from first_order_sent [OF s] obtain logs tr where
    r: "run_steps (process_msg scripted) (tr0, ([Some 49], [])) [?m] = Some (logs, tr, ([], ?o))" by blast
  have a: "adds [?m] < 1000000" "snd ([] :: nat option list, ?o) = snd ([Some 49 :: nat option], []) @ ?o" "length ?o = 49"
    by (simp_all add: adds_def)
  have k: "sys_recv loop_kernel 7 1024 [] = ((49 + int (length ([] :: u8 list)), ?o @ []), [])" "length ([] :: u8 list) \<le> 975"
    "sys_now loop_kernel [] = (0, [])" "\<And>f d w. sys_sendto loop_kernel f d w = w @ [d]" by (simp_all add: loop_kernel_def order_kernel_def)
  have "adds ([] @ [?m]) < 2000000" by (simp add: adds_def)
  from process_run [OF s scripted_posix start_inv [OF s, of snd "([Some 49], [])"] this] r
  have "trading_inv snd tr0 ([Some 49 :: nat option], []) [?m] tr ([], ?o)" by auto
  from trading_inv_observed(1) [OF s this]
  have q: "queue_at (tr_lob tr) sd p = (if sd = BUY \<and> p = 15000 then [(1, 10)] else [])" for sd p
    by (auto simp: spec_book_def book_cmds_def map_filter_def book_cmd_of_def spec_add_def spec_find_def)
  have "\<forall>sd p. (500000 :: u64) \<notin> fst ` set (queue_at (tr_lob tr) sd p)" by (auto simp: q split: if_splits)
  with order_returns_on_feed [OF s scripted_posix a(1) r a(2,3) k(1-3), of 5 "\<lambda>_. 0" "[]" 500000
      "\<lparr>im_type = 0, im_id = 0, im_price = 0, im_quantity = 0, im_side = BUY\<rparr>"] q [of SELL 15000]
  obtain elogs d msg plogs tr' where
    "on_client_data loop_kernel 5 (\<lambda>_. 0) [] 7 [] 500000 = Some (elogs, [d], 500001)"
    "decode_datagram \<lparr>im_type = 0, im_id = 0, im_price = 0, im_quantity = 0, im_side = BUY\<rparr> d = Some (Some msg, [])"
    "process_msg scripted (tr, ([], ?o)) msg = Some (plogs, tr', ([], ?o))" "queue_at (tr_lob tr') SELL 15000 = [(500000, 100)]"
    by (auto simp: k(4) triggers_def)
  with s r show ?thesis by (intro exI conjI)
qed

end
