(* ===== verification/Bench_Pipeline.thy ===== *)
theory Bench_Pipeline
  imports ITCH5 SPSC_Queue
begin

text \<open>
  The two threads the pipeline programs under \<open>benchmarks/\<close> share: a network thread parses prepared
  buffers one after the other and pushes the messages into a ring buffer, a consumer thread pops and
  handles them until the producer is finished and all messages are processed. What a message does to
  the consumer is a parameter; the two programs are in \<open>Bench_Churn\<close> and \<open>Bench_Trade\<close>. No thread
  registers with the logger, so that every log call returns at once; the times that are printed
  do not influence the threads and are left out here.
\<close>

section \<open>The threads\<close>

definition PIPELINE_CAPACITY :: u64 where
  "PIPELINE_CAPACITY = 65536"

datatype consumer_at = At_Check | At_Body | At_End

text \<open>
  \<open>pl_next\<close> is the loop variable of the network thread, \<open>pl_parsed\<close> its local message, which keeps the
  members the parser does not set; \<open>pl_done\<close> is the atomic flag.
\<close>

record 's Pipeline =
  pl_next :: nat
  pl_parsed :: InternalMessage
  pl_done :: bool
  pl_queue :: "InternalMessage SPSCQueue"
  pl_at :: consumer_at
  pl_processed :: nat
  pl_state :: 's

definition start_pipeline :: "InternalMessage \<Rightarrow> InternalMessage \<Rightarrow> 's \<Rightarrow> 's Pipeline" where
  "start_pipeline junk x st = \<lparr>pl_next = 0, pl_parsed = junk, pl_done = False, pl_queue = new_queue PIPELINE_CAPACITY x,
     pl_at = At_Check, pl_processed = 0, pl_state = st\<rparr>"

text \<open>
  \<open>n\<close> is the constant \<open>NUM_MESSAGES\<close>. A producer that finds the ring full spins, which changes nothing.
\<close>

inductive pipeline_step :: "nat \<Rightarrow> u8 list list \<Rightarrow> ('s \<Rightarrow> InternalMessage \<Rightarrow> 's option) \<Rightarrow> 's Pipeline \<Rightarrow> 's Pipeline \<Rightarrow> bool"
  for n bufs handle where
  produce: "pl_next s < n \<Longrightarrow> aread bufs (pl_next s) = Some buffer \<Longrightarrow>
    parse buffer (length buffer) (pl_parsed s) = Some (True, msg, logs) \<Longrightarrow>
    push PIPELINE_CAPACITY msg (pl_queue s) = Some (True, q) \<Longrightarrow>
    pipeline_step n bufs handle s (s\<lparr>pl_parsed := msg, pl_queue := q, pl_next := pl_next s + 1\<rparr>)"
| skip: "pl_next s < n \<Longrightarrow> aread bufs (pl_next s) = Some buffer \<Longrightarrow>
    parse buffer (length buffer) (pl_parsed s) = Some (False, msg, logs) \<Longrightarrow>
    pipeline_step n bufs handle s (s\<lparr>pl_parsed := msg, pl_next := pl_next s + 1\<rparr>)"
| finish: "pl_next s = n \<Longrightarrow> \<not> pl_done s \<Longrightarrow> pipeline_step n bufs handle s (s\<lparr>pl_done := True\<rparr>)"
| check: "pl_at s = At_Check \<Longrightarrow> \<not> pl_done s \<or> pl_processed s < n \<Longrightarrow>
    pipeline_step n bufs handle s (s\<lparr>pl_at := At_Body\<rparr>)"
| stop: "pl_at s = At_Check \<Longrightarrow> pl_done s \<Longrightarrow> \<not> pl_processed s < n \<Longrightarrow>
    pipeline_step n bufs handle s (s\<lparr>pl_at := At_End\<rparr>)"
| consume: "pl_at s = At_Body \<Longrightarrow> pop PIPELINE_CAPACITY (pl_queue s) = Some (Some msg, q) \<Longrightarrow>
    handle (pl_state s) msg = Some st \<Longrightarrow>
    pipeline_step n bufs handle s
      (s\<lparr>pl_queue := q, pl_state := st, pl_processed := pl_processed s + 1, pl_at := At_Check\<rparr>)"
| empty: "pl_at s = At_Body \<Longrightarrow> pop PIPELINE_CAPACITY (pl_queue s) = Some (None, q) \<Longrightarrow>
    pipeline_step n bufs handle s (s\<lparr>pl_queue := q, pl_at := At_Check\<rparr>)"

section \<open>The contract of the two ends\<close>

text \<open>
  Every buffer parses to a message that \<open>says\<close> what the sender meant, whatever the local message held
  before, and the consumer handles the \<open>i\<close>-th message in any state that is \<open>good\<close> after \<open>i\<close> messages.
\<close>

locale feed_pipeline =
  fixes n :: nat
    and bufs :: "u8 list list"
    and handle :: "'s \<Rightarrow> InternalMessage \<Rightarrow> 's option"
    and says :: "nat \<Rightarrow> InternalMessage \<Rightarrow> bool"
    and good :: "nat \<Rightarrow> 's \<Rightarrow> bool"
  assumes enough: "n \<le> length bufs"
    and parses: "i < n \<Longrightarrow> \<exists>msg logs. parse (bufs ! i) (length (bufs ! i)) m = Some (True, msg, logs) \<and> says i msg"
    and handles: "i < n \<Longrightarrow> good i st \<Longrightarrow> says i msg \<Longrightarrow> \<exists>st'. handle st msg = Some st' \<and> good (Suc i) st'"
begin

definition pipeline_inv :: "'s Pipeline \<Rightarrow> bool" where
  "pipeline_inv s \<longleftrightarrow> queue_inv PIPELINE_CAPACITY (pl_queue s) \<and> pl_next s \<le> n \<and>
     pl_processed s + length (contents (pl_queue s)) = pl_next s \<and>
     (\<forall>k < length (contents (pl_queue s)). says (pl_processed s + k) (contents (pl_queue s) ! k)) \<and>
     good (pl_processed s) (pl_state s) \<and> (pl_done s \<longrightarrow> pl_next s = n) \<and>
     (pl_at s = At_End \<longrightarrow> pl_done s \<and> pl_processed s = n)"

lemma inv_start: "good 0 st \<Longrightarrow> pipeline_inv (start_pipeline junk x st)"
  using new_queue_inv [of PIPELINE_CAPACITY x]
  by (simp add: pipeline_inv_def start_pipeline_def PIPELINE_CAPACITY_def)

lemma buffer_at: "i < n \<Longrightarrow> aread bufs i = Some (bufs ! i)"
  using enough by (simp add: aread_def)

lemma inv_push:
  assumes "pipeline_inv s" "pl_next s < n" "says (pl_next s) msg"
    and "push PIPELINE_CAPACITY msg (pl_queue s) = Some (True, q)"
  shows "pipeline_inv (s\<lparr>pl_parsed := msg, pl_queue := q, pl_next := pl_next s + 1\<rparr>)"
proof -
  have q: "queue_inv PIPELINE_CAPACITY (pl_queue s)" using assms(1) by (simp add: pipeline_inv_def)
  have "length (contents (pl_queue s)) < unat PIPELINE_CAPACITY - 1"
    using spsc.enq_full [OF q, of msg] spsc.bounded [OF q] assms(4) by fastforce
  from spsc.enq_room [OF q this, of msg] assms(4)
  have "queue_inv PIPELINE_CAPACITY q" "contents q = contents (pl_queue s) @ [msg]" by auto
  then show ?thesis using assms by (auto simp: pipeline_inv_def nth_append less_Suc_eq)
qed

lemma inv_pop:
  assumes "pipeline_inv s" "contents (pl_queue s) = msg # ms"
  shows "\<exists>q st. pop PIPELINE_CAPACITY (pl_queue s) = Some (Some msg, q) \<and> handle (pl_state s) msg = Some st \<and>
    pipeline_inv (s\<lparr>pl_queue := q, pl_state := st, pl_processed := pl_processed s + 1, pl_at := At_Check\<rparr>)"
proof -
  have q: "queue_inv PIPELINE_CAPACITY (pl_queue s)" using assms(1) by (simp add: pipeline_inv_def)
  from spsc.deq_Cons [OF q assms(2)] obtain q' where
    q': "pop PIPELINE_CAPACITY (pl_queue s) = Some (Some msg, q')" "queue_inv PIPELINE_CAPACITY q'" "contents q' = ms" by auto
  have i: "pl_processed s < n" "good (pl_processed s) (pl_state s)" "says (pl_processed s) msg"
    "\<forall>k < length ms. says (Suc (pl_processed s + k)) (ms ! k)"
  proof -
    have all: "\<forall>k < Suc (length ms). says (pl_processed s + k) ((msg # ms) ! k)" using assms by (simp add: pipeline_inv_def)
    show "says (pl_processed s) msg" "\<forall>k < length ms. says (Suc (pl_processed s + k)) (ms ! k)"
      using all [rule_format, of 0] all [rule_format, of "Suc _"] by auto
    show "pl_processed s < n" "good (pl_processed s) (pl_state s)" using assms by (auto simp: pipeline_inv_def)
  qed
  from handles [OF i(1-3)] obtain st where "handle (pl_state s) msg = Some st" "good (Suc (pl_processed s)) st" by auto
  with q' i(4) assms show ?thesis by (auto simp: pipeline_inv_def)
qed

lemma inv_step: "pipeline_step n bufs handle s s' \<Longrightarrow> pipeline_inv s \<Longrightarrow> pipeline_inv s'"
proof (induction rule: pipeline_step.induct)
  case (produce s buffer msg logs q)
  with parses [of "pl_next s" "pl_parsed s"] buffer_at [of "pl_next s"] show ?case by (intro inv_push) auto
next
  case (skip s buffer msg logs)
  with parses [of "pl_next s" "pl_parsed s"] buffer_at [of "pl_next s"] show ?case by auto
next
  case (consume s msg q st)
  then have q: "queue_inv PIPELINE_CAPACITY (pl_queue s)" by (simp add: pipeline_inv_def)
  from consume(2) spsc.deq_Nil [OF q] obtain m ms where c: "contents (pl_queue s) = m # ms"
    by (cases "contents (pl_queue s)") auto
  from inv_pop [OF consume(4) c] consume(2,3) show ?case by auto
next
  case (empty s q)
  then have qi: "queue_inv PIPELINE_CAPACITY (pl_queue s)" by (simp add: pipeline_inv_def)
  have "contents (pl_queue s) = []" using empty(2) spsc.deq_Cons [OF qi] by (cases "contents (pl_queue s)") auto
  with spsc.deq_Nil [OF qi] empty show ?case by (auto simp: pipeline_inv_def)
qed (auto simp: pipeline_inv_def)

lemma inv_run:
  assumes "(pipeline_step n bufs handle)\<^sup>*\<^sup>* (start_pipeline junk x st) s" "good 0 st"
  shows "pipeline_inv s"
  using assms(1) by (induction rule: rtranclp_induct) (use assms(2) inv_start inv_step in auto)

lemma at_same: "pl_at s = a \<Longrightarrow> s\<lparr>pl_at := a\<rparr> = (s :: 's Pipeline)" "pl_done s \<Longrightarrow> s\<lparr>pl_done := True\<rparr> = s"
  by (cases s; simp)+

text \<open>From every state of the invariant the threads can run to the end.\<close>

lemma to_body:
  assumes "pipeline_inv s" "pl_at s \<noteq> At_End" "pl_processed s < n"
  shows "(pipeline_step n bufs handle)\<^sup>*\<^sup>* s (s\<lparr>pl_at := At_Body\<rparr>)"
proof (cases "pl_at s")
  case At_Check
  with assms(3) show ?thesis by (intro r_into_rtranclp check) auto
next
  case At_Body
  then show ?thesis by (simp add: at_same)
qed (use assms in simp)

lemma to_check:
  assumes "pipeline_inv s" "pl_at s \<noteq> At_End" "contents (pl_queue s) = []"
  shows "(pipeline_step n bufs handle)\<^sup>*\<^sup>* s (s\<lparr>pl_at := At_Check\<rparr>)"
proof (cases "pl_at s")
  case At_Body
  have "queue_inv PIPELINE_CAPACITY (pl_queue s)" using assms(1) by (simp add: pipeline_inv_def)
  then have "pop PIPELINE_CAPACITY (pl_queue s) = Some (None, pl_queue s)" using assms(3) by (rule spsc.deq_Nil)
  from empty [OF At_Body this, of n bufs handle] show ?thesis by simp
qed (use assms in \<open>simp_all add: at_same\<close>)

definition work :: "'s Pipeline \<Rightarrow> nat" where
  "work s = pl_next s + pl_processed s"

lemma consume_possible:
  assumes "pipeline_inv s" "pl_at s \<noteq> At_End" "contents (pl_queue s) = m # ms"
  shows "\<exists>s'. (pipeline_step n bufs handle)\<^sup>*\<^sup>* s s' \<and> pipeline_inv s' \<and> work s < work s'"
proof -
  let ?b = "s\<lparr>pl_at := At_Body\<rparr>"
  have "pl_processed s < n" using assms(1,3) by (auto simp: pipeline_inv_def)
  note b = to_body [OF assms(1,2) this]
  have "pipeline_inv ?b" using assms(1) by (simp add: pipeline_inv_def)
  from inv_pop [OF this, of m ms] assms(3) obtain q st where
    c: "pop PIPELINE_CAPACITY (pl_queue ?b) = Some (Some m, q)" "handle (pl_state ?b) m = Some st"
    "pipeline_inv (?b\<lparr>pl_queue := q, pl_state := st, pl_processed := pl_processed ?b + 1, pl_at := At_Check\<rparr>)" by auto
  have "pipeline_step n bufs handle ?b (?b\<lparr>pl_queue := q, pl_state := st, pl_processed := pl_processed ?b + 1, pl_at := At_Check\<rparr>)"
    by (rule consume) (use c in simp_all)
  with b have "(pipeline_step n bufs handle)\<^sup>*\<^sup>* s (?b\<lparr>pl_queue := q, pl_state := st, pl_processed := pl_processed ?b + 1, pl_at := At_Check\<rparr>)"
    by (rule rtranclp.rtrancl_into_rtrancl)
  with c(3) show ?thesis by (intro exI conjI) (assumption, assumption, simp add: work_def)
qed

lemma produce_possible:
  assumes "pipeline_inv s" "contents (pl_queue s) = []" "pl_next s < n"
  shows "\<exists>s'. (pipeline_step n bufs handle)\<^sup>*\<^sup>* s s' \<and> pipeline_inv s' \<and> work s < work s'"
proof -
  from parses [OF assms(3), of "pl_parsed s"] obtain msg logs where
    m: "parse (bufs ! pl_next s) (length (bufs ! pl_next s)) (pl_parsed s) = Some (True, msg, logs)" "says (pl_next s) msg" by auto
  have "queue_inv PIPELINE_CAPACITY (pl_queue s)" using assms(1) by (simp add: pipeline_inv_def)
  from spsc.enq_room [OF this, of msg] assms(2) obtain q where q: "push PIPELINE_CAPACITY msg (pl_queue s) = Some (True, q)"
    by (auto simp: PIPELINE_CAPACITY_def)
  have "(pipeline_step n bufs handle)\<^sup>*\<^sup>* s (s\<lparr>pl_parsed := msg, pl_queue := q, pl_next := pl_next s + 1\<rparr>)"
    by (rule r_into_rtranclp) (rule produce [OF assms(3) buffer_at [OF assms(3)] m(1) q])
  with inv_push [OF assms(1,3) m(2) q] show ?thesis by (intro exI conjI) (assumption, assumption, simp add: work_def)
qed

lemma end_possible:
  assumes "pipeline_inv s" "pl_at s \<noteq> At_End" "contents (pl_queue s) = []" "pl_next s = n"
  shows "\<exists>s'. (pipeline_step n bufs handle)\<^sup>*\<^sup>* s s' \<and> pl_at s' = At_End"
proof -
  let ?c = "s\<lparr>pl_at := At_Check\<rparr>"
  let ?d = "?c\<lparr>pl_done := True\<rparr>"
  have p: "pl_processed s = n" using assms by (simp add: pipeline_inv_def)
  have "(pipeline_step n bufs handle)\<^sup>*\<^sup>* s ?c" by (rule to_check [OF assms(1-3)])
  moreover have "(pipeline_step n bufs handle)\<^sup>*\<^sup>* ?c ?d"
  proof (cases "pl_done ?c")
    case False
    then show ?thesis using finish [of ?c n bufs handle] assms(4) by auto
  next
    case True
    from at_same(2) [OF this] show ?thesis by simp
  qed
  moreover have "pipeline_step n bufs handle ?d (?d\<lparr>pl_at := At_End\<rparr>)" by (rule stop) (use p in simp_all)
  ultimately have "(pipeline_step n bufs handle)\<^sup>*\<^sup>* s (?d\<lparr>pl_at := At_End\<rparr>)"
    by (meson rtranclp.rtrancl_into_rtrancl rtranclp_trans)
  then show ?thesis by (intro exI conjI) (assumption, simp)
qed

lemma can_finish:
  assumes "pipeline_inv s"
  shows "\<exists>s'. (pipeline_step n bufs handle)\<^sup>*\<^sup>* s s' \<and> pl_at s' = At_End"
  using assms
proof (induction "2 * n - work s" arbitrary: s rule: less_induct)
  case less
  have shorter: ?case if s1: "\<exists>s1. (pipeline_step n bufs handle)\<^sup>*\<^sup>* s s1 \<and> pipeline_inv s1 \<and> work s < work s1"
  proof -
    from s1 obtain s1 where s1: "(pipeline_step n bufs handle)\<^sup>*\<^sup>* s s1" "pipeline_inv s1" "work s < work s1" by blast
    then have "work s1 \<le> 2 * n" by (auto simp: pipeline_inv_def work_def)
    with s1(3) have "2 * n - work s1 < 2 * n - work s" by simp
    from less.hyps [OF this s1(2)] s1(1) show ?thesis by (meson rtranclp_trans)
  qed
  have "pl_next s \<le> n" using less.prems by (simp add: pipeline_inv_def)
  then consider "pl_at s = At_End" | m ms where "pl_at s \<noteq> At_End" "contents (pl_queue s) = m # ms"
    | "contents (pl_queue s) = []" "pl_next s < n" | "pl_at s \<noteq> At_End" "contents (pl_queue s) = []" "pl_next s = n"
    by (cases "contents (pl_queue s)") fastforce+
  then show ?case
  proof cases
    case 1
    then show ?thesis by blast
  next
    case 2
    with less.prems show ?thesis by (intro shorter consume_possible)
  next
    case 3
    with less.prems show ?thesis by (intro shorter produce_possible)
  next
    case 4
    with less.prems show ?thesis by (intro end_possible)
  qed
qed

text \<open>What a reachable state shows.\<close>

lemma pipeline_run:
  assumes "(pipeline_step n bufs handle)\<^sup>*\<^sup>* (start_pipeline junk x st) s" "good 0 st"
  shows "\<exists>s'. (pipeline_step n bufs handle)\<^sup>*\<^sup>* s s' \<and> pl_at s' = At_End"
    and "pl_processed s \<le> n" "good (pl_processed s) (pl_state s)" "pl_at s = At_End \<Longrightarrow> pl_processed s = n"
  using can_finish [OF inv_run [OF assms]] inv_run [OF assms] by (auto simp: pipeline_inv_def)

end

end
