(* ===== verification/Bench_Feed.thy ===== *)
theory Bench_Feed
  imports Bench_Pipeline Order_Book_Props
begin

text \<open>
  The synthetic market data of the pipeline programs under \<open>benchmarks/\<close>: the messages their
  generators write, the list of active orders the generators keep to make later messages refer to
  earlier ones, and the effect of the messages on an order book. A generator is described by its
  events; the book of a consumer that handles the messages is, order by order, the list of active
  orders of the sender.
\<close>

section \<open>The messages\<close>

record ActiveOrder =
  act_id :: u64
  act_shares :: u32

text \<open>
  Members that are not assigned are indeterminate: \<open>junk i k\<close> is byte \<open>k\<close> of what the local struct of
  iteration \<open>i\<close> holds there.
\<close>

definition junk_timestamp :: "(nat \<Rightarrow> nat \<Rightarrow> u8) \<Rightarrow> nat \<Rightarrow> u8 list" where
  "junk_timestamp junk i = map (junk i) [0..<6]"

definition add_message :: "(nat \<Rightarrow> nat \<Rightarrow> u8) \<Rightarrow> nat \<Rightarrow> u64 \<Rightarrow> AddOrderMsg" where
  "add_message junk i nid =
     \<lparr>ao_msg_type = ch (CHR ''A''), ao_stock_locate = bswap16 1, ao_tracking_number = bswap16 (of_nat i),
      ao_timestamp = junk_timestamp junk i, ao_order_ref_number = bswap64 nid,
      ao_buy_sell_indicator = (if i mod 2 = 0 then ch (CHR ''B'') else ch (CHR ''S'')),
      ao_shares = bswap32 100, ao_stock = map (junk i) [6..<14],
      ao_price = bswap32 (of_nat (15000 + i mod 100))\<rparr>"

definition executed_message :: "(nat \<Rightarrow> nat \<Rightarrow> u8) \<Rightarrow> nat \<Rightarrow> u64 \<Rightarrow> u32 \<Rightarrow> OrderExecutedMsg" where
  "executed_message junk i oid qty =
     \<lparr>oe_msg_type = ch (CHR ''E''), oe_stock_locate = bswap16 1, oe_tracking_number = bswap16 (of_nat i),
      oe_timestamp = junk_timestamp junk i, oe_order_ref_number = bswap64 oid,
      oe_executed_shares = bswap32 qty, oe_match_number = bswap64 (of_nat i)\<rparr>"

definition cancel_message :: "(nat \<Rightarrow> nat \<Rightarrow> u8) \<Rightarrow> nat \<Rightarrow> u64 \<Rightarrow> u32 \<Rightarrow> OrderCancelMsg" where
  "cancel_message junk i oid qty =
     \<lparr>oc_msg_type = ch (CHR ''X''), oc_stock_locate = bswap16 1, oc_tracking_number = bswap16 (of_nat i),
      oc_timestamp = junk_timestamp junk i, oc_order_ref_number = bswap64 oid,
      oc_canceled_shares = bswap32 qty\<rparr>"

definition delete_message :: "(nat \<Rightarrow> nat \<Rightarrow> u8) \<Rightarrow> nat \<Rightarrow> u64 \<Rightarrow> OrderDeleteMsg" where
  "delete_message junk i oid =
     \<lparr>od_msg_type = ch (CHR ''D''), od_stock_locate = bswap16 1, od_tracking_number = bswap16 (of_nat i),
      od_timestamp = junk_timestamp junk i, od_order_ref_number = bswap64 oid\<rparr>"

text \<open>\<open>std::vector::erase\<close> at an index.\<close>

definition erase_at :: "'a list \<Rightarrow> nat \<Rightarrow> 'a list" where
  "erase_at xs k = take k xs @ drop (Suc k) xs"

section \<open>Parsing the messages\<close>

lemma message_wf:
  "AddOrderMsg_wf (add_message junk i nid)" "OrderExecutedMsg_wf (executed_message junk i oid qty)"
  "OrderCancelMsg_wf (cancel_message junk i oid qty)" "OrderDeleteMsg_wf (delete_message junk i oid)"
  by (simp_all add: AddOrderMsg_wf_def OrderExecutedMsg_wf_def OrderCancelMsg_wf_def OrderDeleteMsg_wf_def
      add_message_def executed_message_def cancel_message_def delete_message_def junk_timestamp_def)

lemma message_type:
  "AddOrderMsg_bytes m ! 0 = ao_msg_type m" "OrderExecutedMsg_bytes e ! 0 = oe_msg_type e"
  "OrderCancelMsg_bytes c ! 0 = oc_msg_type c" "OrderDeleteMsg_bytes d ! 0 = od_msg_type d"
  by (simp_all add: AddOrderMsg_bytes_def OrderExecutedMsg_bytes_def OrderCancelMsg_bytes_def OrderDeleteMsg_bytes_def)

text \<open>The price and the side of the order added in iteration \<open>i\<close>.\<close>

definition quote :: "nat \<Rightarrow> Side \<times> u64" where
  "quote i = (if even i then BUY else SELL, of_nat (15000 + i mod 100))"

lemma quote_price: "(ucast (15000 + of_nat (i mod 100) :: u32) :: u64) = 15000 + of_nat (i mod 100)"
proof -
  have "15000 + i mod 100 < 2 ^ 32" using mod_less_divisor [of 100 i] by simp
  then have "unat (of_nat (15000 + i mod 100) :: u32) = 15000 + i mod 100" by (simp only: unat_of_nat take_bit_eq_mod) simp
  then have "(of_nat (unat (of_nat (15000 + i mod 100) :: u32)) :: u64) = of_nat (15000 + i mod 100)" by (rule arg_cong)
  then show ?thesis by (simp add: of_nat_unat)
qed

lemma parse_add:
  "parse (AddOrderMsg_bytes (add_message junk i nid)) (length (AddOrderMsg_bytes (add_message junk i nid))) m =
     Some (True, m\<lparr>im_type := ch (CHR ''A''), im_id := nid, im_quantity := 100, im_price := snd (quote i),
       im_side := fst (quote i)\<rparr>, [])"
proof -
  let ?m = "add_message junk i nid"
  have v: "AddOrderMsg_view (AddOrderMsg_bytes ?m) = Some ?m" "length (AddOrderMsg_bytes ?m) = 36"
    using add_order_msg.view_bytes [OF message_wf(1), of _ _ _ "[]"] add_order_msg.length_bytes [OF message_wf(1)] by simp_all
  have "ch (CHR ''S'') \<noteq> ch (CHR ''B'')" by (simp add: ch_def)
  then show ?thesis using v
    by (simp add: parse_def aread_def message_type)
      (simp add: add_message_def quote_price quote_def even_iff_mod_2_eq_zero)
qed

lemma parse_executed:
  "parse (OrderExecutedMsg_bytes (executed_message junk i oid qty)) (length (OrderExecutedMsg_bytes (executed_message junk i oid qty))) m =
     Some (True, m\<lparr>im_type := ch (CHR ''E''), im_id := oid, im_quantity := ucast qty\<rparr>, [])"
  using order_executed_msg.view_bytes [OF message_wf(2), of junk i oid qty "[]"] order_executed_msg.length_bytes [OF message_wf(2), of junk i oid qty]
  by (simp add: parse_def aread_def message_type ch_def) (simp add: executed_message_def ch_def)

lemma parse_cancel:
  "parse (OrderCancelMsg_bytes (cancel_message junk i oid qty)) (length (OrderCancelMsg_bytes (cancel_message junk i oid qty))) m =
     Some (True, m\<lparr>im_type := ch (CHR ''X''), im_id := oid, im_quantity := ucast qty\<rparr>, [])"
  using order_cancel_msg.view_bytes [OF message_wf(3), of junk i oid qty "[]"] order_cancel_msg.length_bytes [OF message_wf(3), of junk i oid qty]
  by (simp add: parse_def aread_def message_type ch_def) (simp add: cancel_message_def ch_def)

lemma parse_delete:
  "parse (OrderDeleteMsg_bytes (delete_message junk i oid)) (length (OrderDeleteMsg_bytes (delete_message junk i oid))) m =
     Some (True, m\<lparr>im_type := ch (CHR ''D''), im_id := oid\<rparr>, [])"
  using order_delete_msg.view_bytes [OF message_wf(4), of junk i oid "[]"] order_delete_msg.length_bytes [OF message_wf(4), of junk i oid]
  by (simp add: parse_def aread_def message_type ch_def) (simp add: delete_message_def ch_def)

section \<open>What the sender does\<close>

text \<open>
  One iteration of a generator: it places an order, reduces the order at an index of the active
  orders by an execution (letter E) or a partial cancel (letter X), or deletes it.
\<close>

datatype event = Place | Reduce u8 nat u32 | Remove nat

definition valid_event :: "ActiveOrder list \<Rightarrow> event \<Rightarrow> bool" where
  "valid_event ao ev = (case ev of
     Place \<Rightarrow> True
   | Reduce t k q \<Rightarrow> t \<in> {ch (CHR ''E''), ch (CHR ''X'')} \<and> k < length ao \<and> q \<noteq> 0 \<and> q \<le> act_shares (ao ! k)
   | Remove k \<Rightarrow> k < length ao)"

text \<open>The shares of an active order go down; an order without shares leaves the list.\<close>

definition reduce_active :: "ActiveOrder list \<Rightarrow> nat \<Rightarrow> u32 \<Rightarrow> ActiveOrder list" where
  "reduce_active ao k q =
    (let left = act_shares (ao ! k) - q
     in if left = 0 then erase_at ao k else ao[k := (ao ! k)\<lparr>act_shares := left\<rparr>])"

text \<open>
  The active orders, the next id, and the side and price of every order placed so far.
\<close>

type_synonym sender = "ActiveOrder list \<times> u64 \<times> (u64 \<rightharpoonup> Side \<times> u64)"

fun sender_step :: "nat \<Rightarrow> event \<Rightarrow> sender \<Rightarrow> sender" where
  "sender_step i Place (ao, nid, pl) = (ao @ [\<lparr>act_id = nid, act_shares = 100\<rparr>], nid + 1, pl(nid \<mapsto> quote i))"
| "sender_step i (Reduce t k q) (ao, nid, pl) = (reduce_active ao k q, nid, pl)"
| "sender_step i (Remove k) (ao, nid, pl) = (erase_at ao k, nid, pl)"

fun sender_ok :: "nat \<Rightarrow> sender \<Rightarrow> bool" where
  "sender_ok i (ao, nid, pl) \<longleftrightarrow> distinct (map act_id ao) \<and> length ao \<le> i \<and> unat nid \<le> Suc i \<and>
     (\<forall>a \<in> set ao. pl (act_id a) \<noteq> None \<and> act_id a < nid \<and> act_shares a \<noteq> 0)"

text \<open>What the message of an event says to the receiver.\<close>

fun means :: "nat \<Rightarrow> event \<Rightarrow> sender \<Rightarrow> InternalMessage \<Rightarrow> bool" where
  "means i Place (ao, nid, pl) msg \<longleftrightarrow> im_type msg = ch (CHR ''A'') \<and> im_id msg = nid \<and> im_quantity msg = 100 \<and>
     (im_side msg, im_price msg) = quote i"
| "means i (Reduce t k q) (ao, nid, pl) msg \<longleftrightarrow> im_type msg = t \<and> im_id msg = act_id (ao ! k) \<and> im_quantity msg = ucast q"
| "means i (Remove k) (ao, nid, pl) msg \<longleftrightarrow> im_type msg = ch (CHR ''D'') \<and> im_id msg = act_id (ao ! k)"

lemma erase_at_Cons [simp]: "erase_at (x # xs) 0 = xs" "erase_at (x # xs) (Suc k) = x # erase_at xs k"
  by (simp_all add: erase_at_def)

lemma erase_at_key:
  "distinct (map key xs) \<Longrightarrow> k < length xs \<Longrightarrow> erase_at xs k = filter (\<lambda>x. key x \<noteq> key (xs ! k)) xs"
proof (induction xs arbitrary: k)
  case (Cons x xs)
  have "\<forall>y \<in> set xs. key y \<noteq> key x" using Cons.prems(1) by (simp add: image_iff) metis
  then have "filter (\<lambda>y. key y \<noteq> key x) xs = xs" by simp
  then show ?case using Cons by (cases k) auto
qed simp

lemma update_key:
  "distinct (map key xs) \<Longrightarrow> k < length xs \<Longrightarrow> xs[k := g (xs ! k)] = map (\<lambda>x. if key x = key (xs ! k) then g x else x) xs"
proof (induction xs arbitrary: k)
  case (Cons x xs)
  have "\<forall>y \<in> set xs. key y \<noteq> key x" using Cons.prems(1) by (simp add: image_iff) metis
  then have "map (\<lambda>y. if key y = key x then g y else y) xs = xs" by (intro map_idI) simp
  then show ?case using Cons by (cases k) (auto simp: image_iff)
qed simp

lemma sender_step_ok:
  assumes "sender_ok i s" "valid_event (fst s) ev" "i < 2 ^ 63"
  shows "sender_ok (Suc i) (sender_step i ev s)"
proof (cases s)
  case (fields ao nid pl)
  note ok = assms(1) [unfolded fields sender_ok.simps]
  have len: "length (erase_at ao k) \<le> length ao" for k by (simp add: erase_at_def)
  have sub: "set (erase_at ao k) \<subseteq> set ao" "distinct (map act_id (erase_at ao k))" if "k < length ao" for k
    using erase_at_key [of act_id ao k] ok that by (auto simp: distinct_map_filter)
  show ?thesis
  proof (cases ev)
    case Place
    have "unat nid \<le> Suc i" using ok by simp
    then have "unat (nid + 1) = Suc (unat nid)" using assms(3) by (simp add: unat_word_ariths)
    then have "nid < nid + 1" "unat (nid + 1) \<le> Suc (Suc i)" "\<And>x. x < nid \<Longrightarrow> x < nid + 1"
      using ok by (auto simp: word_less_nat_alt)
    then show ?thesis using ok by (auto simp: fields Place)
  next
    case (Reduce t k q)
    have k: "k < length ao" using assms(2) by (simp add: Reduce fields valid_event_def)
    let ?left = "act_shares (ao ! k) - q"
    let ?ao = "ao[k := (ao ! k)\<lparr>act_shares := ?left\<rparr>]"
    have "\<forall>a \<in> set ?ao. pl (act_id a) \<noteq> None \<and> act_id a < nid \<and> act_shares a \<noteq> 0" if "?left \<noteq> 0"
      using ok k that by (auto dest!: set_update_subset_insert [THEN subsetD])
    moreover have "map act_id ?ao = map act_id ao"
      using k list_update_id [of "map act_id ao" k] by (simp add: map_update)
    ultimately have "sender_ok (Suc i) (?ao, nid, pl)" if "?left \<noteq> 0" using ok that by simp
    moreover have "sender_ok (Suc i) (erase_at ao k, nid, pl)" using ok sub [OF k] len [of k] by auto
    ultimately show ?thesis by (simp add: fields Reduce reduce_active_def Let_def)
  next
    case (Remove k)
    then have "k < length ao" using assms(2) by (simp add: fields valid_event_def)
    from sub [OF this] len [of k] ok show ?thesis by (auto simp: fields Remove)
  qed
qed

section \<open>The book of the receiver\<close>

text \<open>The \<open>switch\<close> of the matching thread.\<close>

definition matching_msg :: "LimitOrderBook \<Rightarrow> InternalMessage \<Rightarrow> LimitOrderBook option" where
  "matching_msg l msg =
    (if im_type msg = ch (CHR ''A'') then do {
       (_, l, _) \<leftarrow> add l (im_id msg) (im_side msg) (im_price msg) (im_quantity msg); Some l }
     else if im_type msg = ch (CHR ''E'') \<or> im_type msg = ch (CHR ''C'') \<or> im_type msg = ch (CHR ''X'') then do {
       order \<leftarrow> get_order l (im_id msg);
       case order of
         None \<Rightarrow> Some l
       | Some k \<Rightarrow> do {
           ord \<leftarrow> aread (order_pool l) k;
           if ord_quantity ord \<le> im_quantity msg then do { (_, l, _) \<leftarrow> cancel l (im_id msg); Some l }
           else do { (_, l, _) \<leftarrow> modify l (im_id msg) (ord_quantity ord - im_quantity msg); Some l } } }
     else if im_type msg = ch (CHR ''D'') then do { (_, l, _) \<leftarrow> cancel l (im_id msg); Some l }
     else Some l)"

definition resting_of :: "(u64 \<rightharpoonup> Side \<times> u64) \<Rightarrow> ActiveOrder \<Rightarrow> resting" where
  "resting_of pl a = \<lparr>r_id = act_id a, r_side = fst (the (pl (act_id a))), r_price = snd (the (pl (act_id a))),
     r_quantity = ucast (act_shares a)\<rparr>"

text \<open>The resting orders, in price-time priority, are the active orders of the sender.\<close>

fun book_ok :: "nat \<Rightarrow> sender \<Rightarrow> LimitOrderBook \<Rightarrow> bool" where
  "book_ok i (ao, nid, pl) l \<longleftrightarrow> sized_refines 1000000 100000 l (map (resting_of pl) ao) \<and> 2000000 \<le> lob_room l + i"

lemma book_op:
  "map_option (\<lambda>(r, l', logs). (r, l')) x = Some (r, l') \<Longrightarrow> (do { (_, l, _) \<leftarrow> x; Some l }) = Some l'"
  by (cases x) auto

lemma unat_ucast_32_64: "unat (ucast (a :: u32) :: u64) = unat a"
  using unsigned_less [of a, where ?'a = nat] by (simp add: unsigned_ucast_eq take_bit_eq_mod)

lemma ucast_32_64_order:
  "(ucast (a :: u32) :: u64) \<le> ucast b \<longleftrightarrow> a \<le> b" "b \<le> a \<Longrightarrow> (ucast a :: u64) - ucast b = ucast (a - b)"
  "(ucast a :: u64) = 0 \<longleftrightarrow> a = 0" "(ucast a :: u64) < ucast b \<longleftrightarrow> a < b"
proof -
  show "(ucast a :: u64) \<le> ucast b \<longleftrightarrow> a \<le> b" "(ucast a :: u64) < ucast b \<longleftrightarrow> a < b"
    by (simp_all add: word_le_nat_alt word_less_nat_alt unat_ucast_32_64)
  show "(ucast a :: u64) = 0 \<longleftrightarrow> a = 0" by (simp add: word_unat_eq_iff unat_ucast_32_64)
  assume "b \<le> a"
  then have "(ucast b :: u64) \<le> ucast a" by (simp add: word_le_nat_alt unat_ucast_32_64)
  then show "(ucast a :: u64) - ucast b = ucast (a - b)"
    using \<open>b \<le> a\<close> by (simp add: word_unat_eq_iff unat_sub unat_ucast_32_64)
qed

lemma unat_quote: "unat (snd (quote i)) = 15000 + i mod 100"
proof -
  have "15000 + i mod 100 < 2 ^ 64" using mod_less_divisor [of 100 i] by simp
  then show ?thesis unfolding quote_def snd_conv by (simp only: unat_of_nat take_bit_eq_mod) simp
qed

lemma resting_of_simps [simp]:
  "r_id (resting_of pl a) = act_id a" "r_quantity (resting_of pl a) = ucast (act_shares a)"
  "map (\<lambda>a. r_id (resting_of pl a)) ao = map act_id ao"
  by (simp_all add: resting_of_def)

lemma find_active:
  assumes "distinct (map act_id ao)" "k < length ao"
  shows "spec_find (map (resting_of pl) ao) (act_id (ao ! k)) = Some (resting_of pl (ao ! k))"
  using assms by (intro spec_find_SomeI) (simp_all add: comp_def)

lemma remove_active:
  assumes "distinct (map act_id ao)" "k < length ao"
  shows "spec_cancel (map (resting_of pl) ao) (act_id (ao ! k)) = (True, map (resting_of pl) (erase_at ao k))"
  using find_active [OF assms, of pl] by (simp add: spec_cancel_def erase_at_key [OF assms] filter_map comp_def)

lemma lower_active:
  assumes "distinct (map act_id ao)" "k < length ao" "q < act_shares (ao ! k)" "q \<noteq> 0"
  shows "spec_modify (map (resting_of pl) ao) (act_id (ao ! k)) (ucast q) =
    (True, map (resting_of pl) (ao[k := (ao ! k)\<lparr>act_shares := q\<rparr>]))"
proof -
  have "map (\<lambda>r. if r_id r = act_id (ao ! k) then r\<lparr>r_quantity := ucast q\<rparr> else r) (map (resting_of pl) ao) =
      map (resting_of pl) (map (\<lambda>a. if act_id a = act_id (ao ! k) then a\<lparr>act_shares := q\<rparr> else a) ao)"
    by (auto simp: resting_of_def)
  also have "\<dots> = map (resting_of pl) (ao[k := (ao ! k)\<lparr>act_shares := q\<rparr>])"
    by (subst update_key [OF assms(1,2)]) (rule refl)
  finally show ?thesis using find_active [OF assms(1,2), of pl] assms(3,4)
    by (auto simp: spec_modify_def ucast_32_64_order)
qed

lemma place_active:
  assumes "sender_ok i (ao, nid, pl)" "i < 1000000"
  shows "spec_add 1000000 100000 (map (resting_of pl) ao) nid (fst (quote i)) (snd (quote i)) 100 =
    (True, map (resting_of (pl(nid \<mapsto> quote i))) (ao @ [\<lparr>act_id = nid, act_shares = 100\<rparr>]))"
proof -
  have ids: "act_id a \<noteq> nid" if "a \<in> set ao" for a using assms(1) that by auto
  have "spec_find (map (resting_of pl) ao) nid = None" using ids by (auto simp: spec_find_None_iff image_iff)
  moreover have "map (resting_of (pl(nid \<mapsto> quote i))) ao = map (resting_of pl) ao"
    using ids by (intro map_cong refl) (simp add: resting_of_def)
  moreover have "unat (snd (quote i)) < 100000" using mod_less_divisor [of 100 i] by (simp add: unat_quote)
  ultimately show ?thesis using assms by (simp add: spec_add_def) (simp add: resting_of_def)
qed

text \<open>The receiver's book follows the sender's orders through every event.\<close>

lemma book_command:
  assumes "book_ok i (ao, nid, pl) l" "i < 1000000"
    and "spec_step 1000000 100000 (map (resting_of pl) ao) c = (True, map (resting_of pl') ao')"
  shows "\<exists>l'. lob_step l c = Some (True, l') \<and> book_ok (Suc i) (ao', nid', pl') l'"
proof -
  have R: "sized_refines 1000000 100000 l (map (resting_of pl) ao)" and room: "2000000 \<le> lob_room l + i"
    using assms(1) by simp_all
  then have "0 < lob_room l" using assms(2) by simp
  moreover have "slots_used c \<le> 1" by (cases c) simp_all
  ultimately show ?thesis using lob.sim [OF R, of c] assms(3) room by fastforce
qed

lemma matching_place:
  assumes "sender_ok i (ao, nid, pl)" "i < 1000000" "book_ok i (ao, nid, pl) l" "means i Place (ao, nid, pl) msg"
  shows "\<exists>l'. matching_msg l msg = Some l' \<and> book_ok (Suc i) (sender_step i Place (ao, nid, pl)) l'"
proof -
  let ?c = "Add nid (fst (quote i)) (snd (quote i)) 100"
  have "spec_step 1000000 100000 (map (resting_of pl) ao) ?c =
      (True, map (resting_of (pl(nid \<mapsto> quote i))) (ao @ [\<lparr>act_id = nid, act_shares = 100\<rparr>]))"
    using place_active [OF assms(1,2)] by (simp only: spec_step.simps)
  from book_command [OF assms(3,2) this] obtain l' where
    "lob_step l ?c = Some (True, l')" "book_ok (Suc i) (sender_step i Place (ao, nid, pl)) l'" by (simp only: sender_step.simps) blast
  with assms(4) book_op [of "add l nid (fst (quote i)) (snd (quote i)) 100"] show ?thesis
    by (auto simp: matching_msg_def prod_eq_iff)
qed

lemma matching_remove:
  assumes "distinct (map act_id ao)" "k < length ao" "i < 1000000" "book_ok i (ao, nid, pl) l"
  shows "\<exists>l'. (do { (_, l, _) \<leftarrow> cancel l (act_id (ao ! k)); Some l }) = Some l' \<and> book_ok (Suc i) (erase_at ao k, nid, pl) l'"
proof -
  have "spec_step 1000000 100000 (map (resting_of pl) ao) (Cancel (act_id (ao ! k))) = (True, map (resting_of pl) (erase_at ao k))"
    using remove_active [OF assms(1,2)] by (simp only: spec_step.simps)
  from book_command [OF assms(4,3) this, of nid] obtain l' where
    l': "lob_step l (Cancel (act_id (ao ! k))) = Some (True, l')" "book_ok (Suc i) (erase_at ao k, nid, pl) l'" by blast
  from book_op [OF l'(1) [unfolded lob_step.simps]] l'(2) show ?thesis by blast
qed

lemma matching_lower:
  assumes "distinct (map act_id ao)" "k < length ao" "q < act_shares (ao ! k)" "q \<noteq> 0" "i < 1000000" "book_ok i (ao, nid, pl) l"
  shows "\<exists>l'. (do { (_, l, _) \<leftarrow> modify l (act_id (ao ! k)) (ucast q); Some l }) = Some l' \<and>
    book_ok (Suc i) (ao[k := (ao ! k)\<lparr>act_shares := q\<rparr>], nid, pl) l'"
proof -
  have "spec_step 1000000 100000 (map (resting_of pl) ao) (Modify (act_id (ao ! k)) (ucast q)) =
      (True, map (resting_of pl) (ao[k := (ao ! k)\<lparr>act_shares := q\<rparr>]))"
    using lower_active [OF assms(1-4)] by (simp only: spec_step.simps)
  from book_command [OF assms(6,5) this, of nid] obtain l' where
    l': "lob_step l (Modify (act_id (ao ! k)) (ucast q)) = Some (True, l')"
    "book_ok (Suc i) (ao[k := (ao ! k)\<lparr>act_shares := q\<rparr>], nid, pl) l'" by blast
  from book_op [OF l'(1) [unfolded lob_step.simps]] l'(2) show ?thesis by blast
qed

lemma matching_reduce:
  assumes "sender_ok i (ao, nid, pl)" "valid_event ao (Reduce t k q)" "i < 1000000"
    and "book_ok i (ao, nid, pl) l" "means i (Reduce t k q) (ao, nid, pl) msg"
  shows "\<exists>l'. matching_msg l msg = Some l' \<and> book_ok (Suc i) (reduce_active ao k q, nid, pl) l'"
proof -
  have d: "distinct (map act_id ao)" using assms(1) by simp
  have k: "k < length ao" and q: "q \<noteq> 0" "q \<le> act_shares (ao ! k)" and t: "t = ch (CHR ''E'') \<or> t = ch (CHR ''X'')"
    using assms(2) by (auto simp: valid_event_def)
  let ?o = "ao ! k"
  have R: "lob_refines l (map (resting_of pl) ao)" using assms(4) by (simp add: sized_refines_def)
  from lookup_present [OF R find_active [OF d k]] obtain j where
    j: "get_order l (act_id ?o) = Some (Some j)" "j < max_orders l" "ord_quantity (order_pool l ! j) = ucast (act_shares ?o)" by auto
  have "length (order_pool l) = max_orders l" using R by (auto simp: lob_refines_def book_rep_def pool_rep_def sizes_ok_def)
  with j(2) have a: "aread (order_pool l) j = Some (order_pool l ! j)" by (simp add: aread_def)
  have m: "matching_msg l msg = (if act_shares ?o \<le> q then do { (_, l, _) \<leftarrow> cancel l (act_id ?o); Some l }
      else do { (_, l, _) \<leftarrow> modify l (act_id ?o) (ucast (act_shares ?o - q)); Some l })"
    using assms(5) t j(1,3) a q(2) by (auto simp: matching_msg_def ch_def ucast_32_64_order)
  show ?thesis
  proof (cases "act_shares ?o \<le> q")
    case True
    with q matching_remove [OF d k assms(3,4)] show ?thesis by (simp add: m reduce_active_def)
  next
    case False
    then have lt: "act_shares ?o - q < act_shares ?o" "act_shares ?o - q \<noteq> 0"
      using q unat_gt_0 [of q] by (auto simp: word_less_nat_alt word_le_nat_alt unat_sub)
    from matching_lower [OF d k lt assms(3,4)] False lt(2) show ?thesis by (simp add: m reduce_active_def Let_def)
  qed
qed

lemma matching_step:
  assumes ok: "sender_ok i s" "valid_event (fst s) ev" "i < 1000000"
    and book: "book_ok i s l" and msg: "means i ev s msg"
  shows "\<exists>l'. matching_msg l msg = Some l' \<and> book_ok (Suc i) (sender_step i ev s) l'"
proof (cases s)
  case (fields ao nid pl)
  show ?thesis
  proof (cases ev)
    case Place
    with assms matching_place show ?thesis by (simp only: fields)
  next
    case (Reduce t k q)
    with assms matching_reduce [of i ao nid pl t k q l msg] show ?thesis by (simp add: fields)
  next
    case (Remove k)
    with ok have "distinct (map act_id ao)" "k < length ao" by (simp_all add: fields valid_event_def)
    from matching_remove [OF this ok(3)] book msg show ?thesis by (simp add: fields Remove matching_msg_def ch_def)
  qed
qed

text \<open>The book as it is seen from outside.\<close>

lemma book_queues:
  assumes "book_ok i (ao, nid, pl) l" "sender_ok i (ao, nid, pl)"
  shows "queue_at l sd p = map (\<lambda>a. (act_id a, ucast (act_shares a))) (filter (\<lambda>a. pl (act_id a) = Some (sd, p)) ao)"
proof -
  have "queue_at l sd p = level_queue (map (resting_of pl) ao) sd p"
    using assms(1) by (intro refines_queue) (simp add: sized_refines_def)
  also have "\<dots> = map (\<lambda>a. (act_id a, ucast (act_shares a)))
      (filter (\<lambda>a. fst (the (pl (act_id a))) = sd \<and> snd (the (pl (act_id a))) = p) ao)"
    by (simp add: level_queue_def filter_map comp_def resting_of_def)
  also have "filter (\<lambda>a. fst (the (pl (act_id a))) = sd \<and> snd (the (pl (act_id a))) = p) ao = filter (\<lambda>a. pl (act_id a) = Some (sd, p)) ao"
    using assms(2) by (intro filter_cong) auto
  finally show ?thesis .
qed

end
