(* ===== verification/Bench_Churn.thy ===== *)
theory Bench_Churn
  imports Bench_Feed
begin

text \<open>
  The program \<open>benchmarks/ITCH_to_LOB_pipeline.cpp\<close>: a generator writes a million messages that add,
  execute, partly cancel and delete orders; the network thread parses them, the matching thread
  keeps the order book. The random numbers are a parameter, since the distribution of the standard
  library is not specified. The property is that the book the matching thread keeps is the sender's.
\<close>

section \<open>The generator\<close>

definition NUM_MESSAGES :: nat where
  "NUM_MESSAGES = 1000000"

record Generator =
  gn_messages :: "u8 list list"
  gn_active :: "ActiveOrder list"
  gn_next_id :: u64

definition new_generator :: Generator where
  "new_generator = \<lparr>gn_messages = [], gn_active = [], gn_next_id = 1\<rparr>"

text \<open>Ten shares, or all that are left.\<close>

definition part_of :: "ActiveOrder \<Rightarrow> u32" where
  "part_of a = (if act_shares a > 10 then 10 else act_shares a)"

definition generate_step :: "(nat \<Rightarrow> int) \<Rightarrow> (nat \<Rightarrow> nat \<Rightarrow> u8) \<Rightarrow> nat \<Rightarrow> Generator \<Rightarrow> Generator" where
  "generate_step action junk i g =
    (if action i < 50 \<or> gn_active g = [] then
       g\<lparr>gn_messages := gn_messages g @ [AddOrderMsg_bytes (add_message junk i (gn_next_id g))],
         gn_active := gn_active g @ [\<lparr>act_id = gn_next_id g, act_shares = 100\<rparr>],
         gn_next_id := gn_next_id g + 1\<rparr>
     else
       let idx = i mod length (gn_active g); ao = gn_active g ! idx in
       if action i < 70 then
         g\<lparr>gn_messages := gn_messages g @ [OrderExecutedMsg_bytes (executed_message junk i (act_id ao) (part_of ao))],
           gn_active := reduce_active (gn_active g) idx (part_of ao)\<rparr>
       else if action i < 90 then
         g\<lparr>gn_messages := gn_messages g @ [OrderCancelMsg_bytes (cancel_message junk i (act_id ao) (part_of ao))],
           gn_active := reduce_active (gn_active g) idx (part_of ao)\<rparr>
       else
         g\<lparr>gn_messages := gn_messages g @ [OrderDeleteMsg_bytes (delete_message junk i (act_id ao))],
           gn_active := erase_at (gn_active g) idx\<rparr>)"

text \<open>The generator after \<open>n\<close> iterations.\<close>

primrec generate_mock_itch_data :: "(nat \<Rightarrow> int) \<Rightarrow> (nat \<Rightarrow> nat \<Rightarrow> u8) \<Rightarrow> nat \<Rightarrow> Generator" where
  "generate_mock_itch_data action junk 0 = new_generator"
| "generate_mock_itch_data action junk (Suc i) = generate_step action junk i (generate_mock_itch_data action junk i)"

section \<open>The generator as a sender\<close>

abbreviation gen :: "(nat \<Rightarrow> int) \<Rightarrow> (nat \<Rightarrow> nat \<Rightarrow> u8) \<Rightarrow> nat \<Rightarrow> Generator" where
  "gen \<equiv> generate_mock_itch_data"

text \<open>Side and price of the orders placed in the first \<open>n\<close> iterations.\<close>

primrec placed :: "(nat \<Rightarrow> int) \<Rightarrow> (nat \<Rightarrow> nat \<Rightarrow> u8) \<Rightarrow> nat \<Rightarrow> (u64 \<rightharpoonup> Side \<times> u64)" where
  "placed action junk 0 = Map.empty"
| "placed action junk (Suc i) =
    (if action i < 50 \<or> gn_active (gen action junk i) = []
     then (placed action junk i)(gn_next_id (gen action junk i) \<mapsto> quote i) else placed action junk i)"

definition event_at :: "(nat \<Rightarrow> int) \<Rightarrow> (nat \<Rightarrow> nat \<Rightarrow> u8) \<Rightarrow> nat \<Rightarrow> event" where
  "event_at action junk i =
    (let ao = gn_active (gen action junk i); idx = i mod length ao in
     if action i < 50 \<or> ao = [] then Place
     else if action i < 70 then Reduce (ch (CHR ''E'')) idx (part_of (ao ! idx))
     else if action i < 90 then Reduce (ch (CHR ''X'')) idx (part_of (ao ! idx))
     else Remove idx)"

definition sender_at :: "(nat \<Rightarrow> int) \<Rightarrow> (nat \<Rightarrow> nat \<Rightarrow> u8) \<Rightarrow> nat \<Rightarrow> sender" where
  "sender_at action junk i = (gn_active (gen action junk i), gn_next_id (gen action junk i), placed action junk i)"

lemma sender_at_Suc: "sender_at action junk (Suc i) = sender_step i (event_at action junk i) (sender_at action junk i)"
  by (simp add: sender_at_def event_at_def generate_step_def Let_def)

lemma part_of_bounds: "act_shares a \<noteq> 0 \<Longrightarrow> part_of a \<noteq> 0 \<and> part_of a \<le> act_shares a"
  by (auto simp: part_of_def)

lemma sender_at_ok: "i \<le> 2 ^ 62 \<Longrightarrow> sender_ok i (sender_at action junk i) \<and> valid_event (gn_active (gen action junk i)) (event_at action junk i)"
proof (induction i)
  case 0
  show ?case by (simp add: sender_at_def new_generator_def event_at_def valid_event_def)
next
  case (Suc i)
  then have "sender_ok (Suc i) (sender_at action junk (Suc i))"
    using sender_step_ok [of i "sender_at action junk i" "event_at action junk i"]
    by (simp add: sender_at_Suc) (simp add: sender_at_def)
  moreover from this have "\<forall>a \<in> set (gn_active (gen action junk (Suc i))). act_shares a \<noteq> 0" by (simp add: sender_at_def)
  then have "valid_event (gn_active (gen action junk (Suc i))) (event_at action junk (Suc i))"
    by (simp add: valid_event_def event_at_def Let_def part_of_bounds nth_mem del: generate_mock_itch_data.simps)
  ultimately show ?case by simp
qed

text \<open>Every message the generator writes parses to what it means.\<close>

definition generated :: "(nat \<Rightarrow> int) \<Rightarrow> (nat \<Rightarrow> nat \<Rightarrow> u8) \<Rightarrow> nat \<Rightarrow> u8 list" where
  "generated action junk i = last (gn_messages (gen action junk (Suc i)))"

lemma messages_eq: "gn_messages (gen action junk n) = map (generated action junk) [0..<n]"
proof (induction n)
  case (Suc n)
  have "gn_messages (gen action junk (Suc n)) = gn_messages (gen action junk n) @ [generated action junk n]"
    by (simp add: generated_def generate_step_def Let_def)
  with Suc show ?case by simp
qed (simp add: new_generator_def)

lemma generated_parses:
  "\<exists>msg logs. parse (generated action junk i) (length (generated action junk i)) m = Some (True, msg, logs) \<and>
     means i (event_at action junk i) (sender_at action junk i) msg"
  by (simp add: generated_def generate_step_def event_at_def sender_at_def Let_def
      parse_add parse_executed parse_cancel parse_delete)

interpretation churn: feed_pipeline NUM_MESSAGES "gn_messages (gen action junk NUM_MESSAGES)" matching_msg
  "\<lambda>i. means i (event_at action junk i) (sender_at action junk i)" "\<lambda>i. book_ok i (sender_at action junk i)" for action junk
proof
  show "NUM_MESSAGES \<le> length (gn_messages (gen action junk NUM_MESSAGES))" by (simp add: messages_eq)
next
  fix i m assume "i < NUM_MESSAGES"
  then show "\<exists>msg logs. parse (gn_messages (gen action junk NUM_MESSAGES) ! i) (length (gn_messages (gen action junk NUM_MESSAGES) ! i)) m =
      Some (True, msg, logs) \<and> means i (event_at action junk i) (sender_at action junk i) msg"
    using generated_parses by (simp add: messages_eq)
next
  fix i l msg
  assume "i < NUM_MESSAGES" "book_ok i (sender_at action junk i) l" "means i (event_at action junk i) (sender_at action junk i) msg"
  with sender_at_ok [of i action junk] matching_step [of i "sender_at action junk i" "event_at action junk i" l msg]
  show "\<exists>l'. matching_msg l msg = Some l' \<and> book_ok (Suc i) (sender_at action junk (Suc i)) l'"
    by (simp add: sender_at_Suc NUM_MESSAGES_def) (simp add: sender_at_def)
qed

section \<open>Properties\<close>

text \<open>
  C39. The book is the sender's. In every state the two threads of the pipeline can reach, for every
  sequence of random actions, the matching thread can still run to its end, the queue of the book at
  every side and price holds, oldest first, exactly the active orders the generator has at the
  number of messages processed, with the shares it has left them, and when the thread has ended this
  is the generator's final list: no message is lost, misread or applied out of order on its way
  through encoder, parser, ring buffer and order book.
\<close>

theorem pipeline_book_is_senders:
  assumes "init_memory_pool mmap_ok 1000000 100000 = Inr l0"
    and "(pipeline_step NUM_MESSAGES (gn_messages (generate_mock_itch_data action junk NUM_MESSAGES)) matching_msg)\<^sup>*\<^sup>*
      (start_pipeline m0 x l0) s"
  shows "(\<exists>s'. (pipeline_step NUM_MESSAGES (gn_messages (generate_mock_itch_data action junk NUM_MESSAGES)) matching_msg)\<^sup>*\<^sup>* s s' \<and>
      pl_at s' = At_End) \<and>
    (pl_at s = At_End \<longrightarrow> pl_processed s = NUM_MESSAGES) \<and>
    queue_at (pl_state s) sd p = map (\<lambda>a. (act_id a, ucast (act_shares a)))
      (filter (\<lambda>a. placed action junk (pl_processed s) (act_id a) = Some (sd, p))
        (gn_active (generate_mock_itch_data action junk (pl_processed s))))"
proof -
  have "book_ok 0 (sender_at action junk 0) l0"
    using init_memory_pool_refines [OF assms(1)] by (simp add: sender_at_def new_generator_def sized_refines_def)
  note R = churn.pipeline_run [OF assms(2) this]
  have "sender_ok (pl_processed s) (sender_at action junk (pl_processed s))"
    using sender_at_ok [of "pl_processed s" action junk] R(2) by (simp add: NUM_MESSAGES_def)
  from book_queues [OF R(3) [unfolded sender_at_def] this [unfolded sender_at_def]] R(1,4) show ?thesis by blast
qed

text \<open>Deleting every order right after it was added, up to the last two iterations.\<close>

definition demo_action :: "nat \<Rightarrow> int" where
  "demo_action i = (if i = 999999 then 0 else 95)"

lemma demo_even:
  "2 * k \<le> 999998 \<Longrightarrow> gn_active (gen demo_action junk (2 * k)) = [] \<and> gn_next_id (gen demo_action junk (2 * k)) = of_nat (Suc k)"
proof (induction k)
  case 0
  show ?case by (simp add: new_generator_def)
next
  case (Suc k)
  then show ?case
    by (simp add: generate_step_def demo_action_def Let_def)
qed

lemma demo_last:
  "gn_active (gen demo_action junk NUM_MESSAGES) =
     [\<lparr>act_id = 500000, act_shares = 100\<rparr>, \<lparr>act_id = 500001, act_shares = 100\<rparr>]"
  "placed demo_action junk NUM_MESSAGES 500000 = Some (BUY, 15098)"
  "placed demo_action junk NUM_MESSAGES 500001 = Some (SELL, 15099)"
proof -
  let ?g = "gen demo_action junk"
  have g: "gn_active (?g 999998) = []" "gn_next_id (?g 999998) = 500000"
    using demo_even [of 499999 junk] by simp_all
  have n: "NUM_MESSAGES = Suc 999999" "(999999 :: nat) = Suc 999998" by (simp_all add: NUM_MESSAGES_def)
  have s: "gn_active (?g 999999) = [\<lparr>act_id = 500000, act_shares = 100\<rparr>]" "gn_next_id (?g 999999) = 500001"
    "placed demo_action junk 999999 = (placed demo_action junk 999998)(500000 \<mapsto> quote 999998)"
    unfolding n(2) generate_mock_itch_data.simps placed.simps using g by (simp_all add: generate_step_def)
  have a: "demo_action 999999 = 0" by (simp add: demo_action_def)
  show "gn_active (?g NUM_MESSAGES) = [\<lparr>act_id = 500000, act_shares = 100\<rparr>, \<lparr>act_id = 500001, act_shares = 100\<rparr>]"
    unfolding n(1) generate_mock_itch_data.simps using s(1,2) a by (simp add: generate_step_def)
  show "placed demo_action junk NUM_MESSAGES 500000 = Some (BUY, 15098)" "placed demo_action junk NUM_MESSAGES 500001 = Some (SELL, 15099)"
    unfolding n(1) placed.simps using s a by (simp_all add: quote_def)
qed

theorem pipeline_book_is_senders_witness:
  "\<exists>l0 s. init_memory_pool (\<lambda>_. True) 1000000 100000 = Inr l0 \<and>
     (pipeline_step NUM_MESSAGES (gn_messages (generate_mock_itch_data demo_action (\<lambda>_ _. 0) NUM_MESSAGES)) matching_msg)\<^sup>*\<^sup>*
       (start_pipeline \<lparr>im_type = 0, im_id = 0, im_price = 0, im_quantity = 0, im_side = BUY\<rparr>
         \<lparr>im_type = 0, im_id = 0, im_price = 0, im_quantity = 0, im_side = BUY\<rparr> l0) s \<and>
     pl_at s = At_End \<and> queue_at (pl_state s) BUY 15098 = [(500000, 100)] \<and> queue_at (pl_state s) SELL 15099 = [(500001, 100)] \<and>
     queue_at (pl_state s) BUY 15000 = []"
proof -
  let ?m = "\<lparr>im_type = 0, im_id = 0, im_price = 0, im_quantity = 0, im_side = BUY\<rparr>" and ?junk = "\<lambda>_ _. 0 :: u8"
  let ?step = "pipeline_step NUM_MESSAGES (gn_messages (generate_mock_itch_data demo_action ?junk NUM_MESSAGES)) matching_msg"
  obtain l0 where l0: "init_memory_pool (\<lambda>_. True) 1000000 100000 = Inr l0"
    by (simp add: init_memory_pool_def layout_fits_def Let_def case_prod_beta)
  note B = pipeline_book_is_senders [OF l0, of demo_action ?junk ?m ?m]
  from B [OF rtranclp.rtrancl_refl] obtain s where s: "?step\<^sup>*\<^sup>* (start_pipeline ?m ?m l0) s" "pl_at s = At_End" by blast
  have p: "pl_processed s = NUM_MESSAGES" using B [OF s(1)] s(2) by blast
  have q: "queue_at (pl_state s) sd pr = map (\<lambda>a. (act_id a, ucast (act_shares a)))
      (filter (\<lambda>a. placed demo_action ?junk NUM_MESSAGES (act_id a) = Some (sd, pr)) (gn_active (gen demo_action ?junk NUM_MESSAGES)))" for sd pr
    using B [OF s(1), of sd pr] p by simp
  show ?thesis by (intro exI conjI, rule l0, rule s(1), rule s(2)) (simp_all add: q demo_last)
qed

end
