(* ===== verification/Bench_Trade.thy ===== *)
theory Bench_Trade
  imports Bench_Churn OUCH42 TSC_Utils
begin

text \<open>
  The program \<open>benchmarks/tick_to_trade_pipeline.cpp\<close>: the same two threads as in \<open>Bench_Churn\<close> over a
  feed of adds and deletes; for every add above a price the consumer checks a sell order with the
  risk engine, encodes it, tracks the position and records the time it took. The time stamp counter
  is the parameter of \<open>TSC_Utils\<close>; the statistics that are printed at the end are left out.
\<close>

section \<open>The generator\<close>

definition generate_tick :: "(nat \<Rightarrow> int) \<Rightarrow> (nat \<Rightarrow> nat \<Rightarrow> u8) \<Rightarrow> nat \<Rightarrow> Generator \<Rightarrow> Generator" where
  "generate_tick action junk i g =
    (if action i < 50 \<or> gn_active g = [] then
       g\<lparr>gn_messages := gn_messages g @ [AddOrderMsg_bytes (add_message junk i (gn_next_id g))],
         gn_active := gn_active g @ [\<lparr>act_id = gn_next_id g, act_shares = 100\<rparr>],
         gn_next_id := gn_next_id g + 1\<rparr>
     else if action i < 100 then
       let idx = i mod length (gn_active g); ao = gn_active g ! idx
       in g\<lparr>gn_messages := gn_messages g @ [OrderDeleteMsg_bytes (delete_message junk i (act_id ao))],
            gn_active := erase_at (gn_active g) idx\<rparr>
     else g)"

primrec generate_ticks :: "(nat \<Rightarrow> int) \<Rightarrow> (nat \<Rightarrow> nat \<Rightarrow> u8) \<Rightarrow> nat \<Rightarrow> Generator" where
  "generate_ticks action junk 0 = new_generator"
| "generate_ticks action junk (Suc i) = generate_tick action junk i (generate_ticks action junk i)"

text \<open>The range of \<open>uniform_int_distribution<int>(0, 99)\<close>.\<close>

definition uniform_0_99 :: "(nat \<Rightarrow> int) \<Rightarrow> bool" where
  "uniform_0_99 action \<longleftrightarrow> (\<forall>i. 0 \<le> action i \<and> action i \<le> 99)"

section \<open>The strategy thread\<close>

record 'w TickTrader =
  tt_lob :: LimitOrderBook
  tt_risk :: PreTradeRiskEngine
  tt_buffer :: "u8 list"
  tt_latencies :: "double list"
  tt_world :: 'w

definition tick_risk_config :: RiskConfig where
  "tick_risk_config = \<lparr>max_order_size = 500, max_position = 10000, max_price_deviation_pct = pct_5\<rparr>"

definition start_ticks :: "LimitOrderBook \<Rightarrow> u8 list \<Rightarrow> 'w \<Rightarrow> 'w TickTrader" where
  "start_ticks l junk w = \<lparr>tt_lob = l, tt_risk = new_risk_engine tick_risk_config, tt_buffer = junk, tt_latencies = [], tt_world = w\<rparr>"

definition tick_book :: "LimitOrderBook \<Rightarrow> InternalMessage \<Rightarrow> LimitOrderBook option" where
  "tick_book l msg =
    (if im_type msg = ch (CHR ''A'') then do {
       (_, l, _) \<leftarrow> add l (im_id msg) (im_side msg) (im_price msg) (im_quantity msg); Some l }
     else if im_type msg = ch (CHR ''D'') then do { (_, l, _) \<leftarrow> cancel l (im_id msg); Some l }
     else Some l)"

definition tick_to_trade :: "bool \<Rightarrow> 'w tsc_sys \<Rightarrow> double \<Rightarrow> 'w TickTrader \<Rightarrow> InternalMessage \<Rightarrow> 'w TickTrader option" where
  "tick_to_trade x86 sys tsc_freq st msg = do {
     lob \<leftarrow> tick_book (tt_lob st) msg;
     let st = st\<lparr>tt_lob := lob\<rparr>;
     if im_type msg = ch (CHR ''A'') \<and> im_price msg > 15050 then do {
       let (t0, w) = read_tsc x86 sys (tt_world st);
       let st = st\<lparr>tt_world := w\<rparr>;
       let order_shares = 100;
       let order_price = ucast (im_price msg);
       status \<leftarrow> check_order (tt_risk st) (ch (CHR ''S'')) order_shares order_price (ucast (im_price msg));
       if status = APPROVED then do {
         (encoded, buffer) \<leftarrow> build_enter_order_default (tt_buffer st) 64 (Some (map ch ''ORD12345'' @ [0]))
           (ch (CHR ''S'')) order_shares (Some (map ch ''AAPL'' @ [0])) order_price;
         let st = st\<lparr>tt_buffer := buffer\<rparr>;
         if encoded then
           let risk = update_position (tt_risk st) (- int (unat order_shares));
               (t1, w) = read_tsc x86 sys (tt_world st)
           in Some (st\<lparr>tt_risk := risk, tt_world := w,
                tt_latencies := tt_latencies st @ [cycles_to_nanoseconds (t1 - t0) tsc_freq]\<rparr>)
         else Some st }
       else Some st }
     else Some st }"

section \<open>The generator as a sender\<close>

abbreviation ticks :: "(nat \<Rightarrow> int) \<Rightarrow> (nat \<Rightarrow> nat \<Rightarrow> u8) \<Rightarrow> nat \<Rightarrow> Generator" where
  "ticks \<equiv> generate_ticks"

definition adds_at :: "(nat \<Rightarrow> int) \<Rightarrow> (nat \<Rightarrow> nat \<Rightarrow> u8) \<Rightarrow> nat \<Rightarrow> bool" where
  "adds_at action junk i \<longleftrightarrow> action i < 50 \<or> gn_active (ticks action junk i) = []"

primrec ticks_placed :: "(nat \<Rightarrow> int) \<Rightarrow> (nat \<Rightarrow> nat \<Rightarrow> u8) \<Rightarrow> nat \<Rightarrow> (u64 \<rightharpoonup> Side \<times> u64)" where
  "ticks_placed action junk 0 = Map.empty"
| "ticks_placed action junk (Suc i) =
    (if adds_at action junk i then (ticks_placed action junk i)(gn_next_id (ticks action junk i) \<mapsto> quote i)
     else ticks_placed action junk i)"

definition tick_event :: "(nat \<Rightarrow> int) \<Rightarrow> (nat \<Rightarrow> nat \<Rightarrow> u8) \<Rightarrow> nat \<Rightarrow> event" where
  "tick_event action junk i = (if adds_at action junk i then Place else Remove (i mod length (gn_active (ticks action junk i))))"

definition tick_sender :: "(nat \<Rightarrow> int) \<Rightarrow> (nat \<Rightarrow> nat \<Rightarrow> u8) \<Rightarrow> nat \<Rightarrow> sender" where
  "tick_sender action junk i = (gn_active (ticks action junk i), gn_next_id (ticks action junk i), ticks_placed action junk i)"

lemma tick_sender_Suc:
  assumes "uniform_0_99 action"
  shows "tick_sender action junk (Suc i) = sender_step i (tick_event action junk i) (tick_sender action junk i)"
proof -
  have "action i < 100" using assms by (auto simp: uniform_0_99_def intro: le_less_trans)
  then show ?thesis by (simp add: tick_sender_def tick_event_def adds_at_def generate_tick_def Let_def)
qed

lemma tick_event_valid: "valid_event (gn_active (ticks action junk i)) (tick_event action junk i)"
  by (auto simp: valid_event_def tick_event_def adds_at_def)

lemma tick_sender_ok: "uniform_0_99 action \<Longrightarrow> i \<le> 2 ^ 62 \<Longrightarrow> sender_ok i (tick_sender action junk i)"
proof (induction i)
  case 0
  show ?case by (simp add: tick_sender_def new_generator_def)
next
  case (Suc i)
  then show ?case using sender_step_ok [of i "tick_sender action junk i" "tick_event action junk i"] tick_event_valid [of action junk i]
    by (simp add: tick_sender_Suc) (simp add: tick_sender_def)
qed

definition tick_message :: "(nat \<Rightarrow> int) \<Rightarrow> (nat \<Rightarrow> nat \<Rightarrow> u8) \<Rightarrow> nat \<Rightarrow> u8 list" where
  "tick_message action junk i = last (gn_messages (ticks action junk (Suc i)))"

lemma tick_messages_eq: "uniform_0_99 action \<Longrightarrow> gn_messages (ticks action junk n) = map (tick_message action junk) [0..<n]"
proof (induction n)
  case (Suc n)
  have "action n < 100" using Suc.prems by (auto simp: uniform_0_99_def intro: le_less_trans)
  then have "gn_messages (ticks action junk (Suc n)) = gn_messages (ticks action junk n) @ [tick_message action junk n]"
    by (simp add: tick_message_def generate_tick_def Let_def)
  with Suc show ?case by simp
qed (simp add: new_generator_def)

lemma tick_message_parses:
  assumes "uniform_0_99 action"
  shows "\<exists>msg logs. parse (tick_message action junk i) (length (tick_message action junk i)) m = Some (True, msg, logs) \<and>
     means i (tick_event action junk i) (tick_sender action junk i) msg"
proof -
  have "action i < 100" using assms by (auto simp: uniform_0_99_def intro: le_less_trans)
  then show ?thesis
    by (simp add: tick_message_def generate_tick_def tick_event_def adds_at_def tick_sender_def Let_def parse_add parse_delete)
qed

section \<open>The position\<close>

text \<open>The adds among the first \<open>n\<close> messages to which the strategy reacts.\<close>

definition signals :: "(nat \<Rightarrow> int) \<Rightarrow> (nat \<Rightarrow> nat \<Rightarrow> u8) \<Rightarrow> nat \<Rightarrow> nat" where
  "signals action junk n = length (filter (\<lambda>i. adds_at action junk i \<and> 50 < i mod 100) [0..<n])"

definition position_ok :: "nat \<Rightarrow> 'w TickTrader \<Rightarrow> bool" where
  "position_ok k st \<longleftrightarrow> config (tt_risk st) = tick_risk_config \<and> current_position (tt_risk st) = - 100 * int (min 100 k) \<and>
     length (tt_latencies st) = min 100 k \<and> length (tt_buffer st) = 64"

lemma tick_check:
  assumes "position_ok k st"
  shows "check_order (tt_risk st) (ch (CHR ''S'')) 100 p p = Some (if k < 100 then APPROVED else REJECTED_MAX_POSITION)"
proof -
  have "\<bar>current_position (tt_risk st)\<bar> \<le> 2 ^ 62" using assms by (simp add: position_ok_def)
  from check_order_position [OF this] assms show ?thesis
    by (auto simp: position_ok_def tick_risk_config_def signed_qty_def ch_def double_div_def pct_5_def)
qed

lemma tick_encodes:
  assumes "length buf = 64"
  shows "\<exists>buf'. build_enter_order_default buf 64 (Some (map ch ''ORD12345'' @ [0])) (ch (CHR ''S'')) 100 (Some (map ch ''AAPL'' @ [0])) p =
    Some (True, buf') \<and> length buf' = 64"
proof -
  have c: "ctext (Some (map ch ''ORD12345'' @ [0])) = Some (map ch ''ORD12345'')" "ctext (Some (map ch ''AAPL'' @ [0])) = Some (map ch ''AAPL'')"
    "ctext (Some (map ch ''TEST'' @ [0])) = Some (map ch ''TEST'')" by (simp_all add: ctext_def ch_def)
  have "(49 :: nat) \<le> 64" "64 \<le> length buf" using assms by simp_all
  note B = build_enter_order_eq [OF this c]
  show ?thesis unfolding build_enter_order_default_def B
    using assms enter_order_msg.length_bytes [OF to_wire_wf] by simp
qed

lemma tick_to_trade_step:
  assumes "position_ok k st" "tick_book (tt_lob st) msg = Some lob"
  shows "\<exists>st'. tick_to_trade x86 sys freq st msg = Some st' \<and> tt_lob st' = lob \<and>
    position_ok (if im_type msg = ch (CHR ''A'') \<and> 15050 < im_price msg then Suc k else k) st'"
proof (cases "im_type msg = ch (CHR ''A'') \<and> 15050 < im_price msg")
  case False
  then have "tick_to_trade x86 sys freq st msg = Some (st\<lparr>tt_lob := lob\<rparr>)" using assms(2) by (auto simp: tick_to_trade_def)
  with assms(1) show ?thesis unfolding if_not_P [OF False] by (simp add: position_ok_def)
next
  case True
  obtain t0 w where t0: "read_tsc x86 sys (tt_world st) = (t0, w)" by fastforce
  obtain t1 w' where t1: "read_tsc x86 sys w = (t1, w')" by fastforce
  note C = tick_check [OF assms(1), of "ucast (im_price msg)"]
  show ?thesis
  proof (cases "k < 100")
    case False
    then have "tick_to_trade x86 sys freq st msg = Some (st\<lparr>tt_lob := lob, tt_world := w\<rparr>)"
      using True assms(2) C t0 by (simp add: tick_to_trade_def)
    with True False assms(1) show ?thesis by (simp add: position_ok_def)
  next
    case lt: True
    have "length (tt_buffer st) = 64" using assms(1) by (simp add: position_ok_def)
    from tick_encodes [OF this] obtain buf where
      buf: "build_enter_order_default (tt_buffer st) 64 (Some (map ch ''ORD12345'' @ [0])) (ch (CHR ''S'')) 100
        (Some (map ch ''AAPL'' @ [0])) (ucast (im_price msg)) = Some (True, buf)" "length buf = 64" by blast
    have p: "current_position (update_position (tt_risk st) (- 100)) = - 100 * int (min 100 (Suc k))"
      using assms(1) lt by (simp add: update_position_def wrap64_def position_ok_def)
    show ?thesis using True assms C lt t0 t1 buf p
      by (simp add: tick_to_trade_def position_ok_def del: list.map) (simp add: update_position_def)
  qed
qed

section \<open>The pipeline\<close>

definition ticks_ok :: "(nat \<Rightarrow> int) \<Rightarrow> (nat \<Rightarrow> nat \<Rightarrow> u8) \<Rightarrow> nat \<Rightarrow> 'w TickTrader \<Rightarrow> bool" where
  "ticks_ok action junk i st \<longleftrightarrow> book_ok i (tick_sender action junk i) (tt_lob st) \<and> position_ok (signals action junk i) st"

lemma tick_book_matching: "im_type msg \<in> {ch (CHR ''A''), ch (CHR ''D'')} \<Longrightarrow> tick_book l msg = matching_msg l msg"
  by (auto simp: tick_book_def matching_msg_def ch_def)

lemma means_signal:
  assumes "means i (tick_event action junk i) s msg"
  shows "im_type msg \<in> {ch (CHR ''A''), ch (CHR ''D'')}"
    and "im_type msg = ch (CHR ''A'') \<and> 15050 < im_price msg \<longleftrightarrow> adds_at action junk i \<and> 50 < i mod 100"
proof -
  have a: "ch (CHR ''A'') \<noteq> ch (CHR ''D'')" by (simp add: ch_def)
  have "15050 < snd (quote i) \<longleftrightarrow> 50 < i mod 100" by (simp add: word_less_nat_alt unat_quote)
  then show "im_type msg \<in> {ch (CHR ''A''), ch (CHR ''D'')}"
    "im_type msg = ch (CHR ''A'') \<and> 15050 < im_price msg \<longleftrightarrow> adds_at action junk i \<and> 50 < i mod 100"
    using assms a by (cases s; auto simp: tick_event_def prod_eq_iff split: if_splits)+
qed

lemma tick_feed:
  fixes sys :: "'w tsc_sys"
  assumes "uniform_0_99 action"
  shows "feed_pipeline NUM_MESSAGES (gn_messages (ticks action junk NUM_MESSAGES)) (tick_to_trade x86 sys freq)
    (\<lambda>i. means i (tick_event action junk i) (tick_sender action junk i)) (ticks_ok action junk)"
proof
  show "NUM_MESSAGES \<le> length (gn_messages (ticks action junk NUM_MESSAGES))" by (simp add: tick_messages_eq [OF assms])
next
  fix i m assume "i < NUM_MESSAGES"
  then show "\<exists>msg logs. parse (gn_messages (ticks action junk NUM_MESSAGES) ! i) (length (gn_messages (ticks action junk NUM_MESSAGES) ! i)) m =
      Some (True, msg, logs) \<and> means i (tick_event action junk i) (tick_sender action junk i) msg"
    using tick_message_parses [OF assms] by (simp add: tick_messages_eq [OF assms])
next
  fix i msg and st :: "'w TickTrader"
  assume i: "i < NUM_MESSAGES" and st: "ticks_ok action junk i st" and msg: "means i (tick_event action junk i) (tick_sender action junk i) msg"
  have "sender_ok i (tick_sender action junk i)" using tick_sender_ok [OF assms] i by (simp add: NUM_MESSAGES_def)
  from matching_step [OF this _ _ _ msg, of "tt_lob st"] tick_event_valid [of action junk i] i st obtain lob where
    l: "matching_msg (tt_lob st) msg = Some lob" "book_ok (Suc i) (tick_sender action junk (Suc i)) lob"
    by (auto simp: tick_sender_Suc [OF assms] ticks_ok_def NUM_MESSAGES_def) (auto simp: tick_sender_def)
  have p: "position_ok (signals action junk i) st" using st by (simp add: ticks_ok_def)
  have s: "signals action junk (Suc i) = (if adds_at action junk i \<and> 50 < i mod 100 then Suc (signals action junk i) else signals action junk i)"
    by (simp add: signals_def)
  from tick_to_trade_step [OF p, of msg lob x86 sys freq] l tick_book_matching [OF means_signal(1) [OF msg]]
  show "\<exists>st'. tick_to_trade x86 sys freq st msg = Some st' \<and> ticks_ok action junk (Suc i) st'"
    unfolding means_signal(2) [OF msg] by (auto simp: ticks_ok_def s)
qed

section \<open>Properties\<close>

text \<open>
  C40. The position limit in the tick-to-trade pipeline. In every state the two threads can reach, for
  every sequence of random actions, the consumer can still run to its end; it has sold 100 shares at
  each of the first hundred adds above the price 15050 and none later, since the risk engine
  rejects the order that would exceed the limit of 10000; it has recorded one latency for each sale;
  and its book is the list of active orders of the generator.
\<close>

theorem tick_to_trade_stops_at_limit:
  assumes "init_memory_pool mmap_ok 1000000 100000 = Inr l0" "uniform_0_99 action" "length buf = 64"
    and "(pipeline_step NUM_MESSAGES (gn_messages (generate_ticks action junk NUM_MESSAGES)) (tick_to_trade x86 sys freq))\<^sup>*\<^sup>*
      (start_pipeline m0 x (start_ticks l0 buf w)) s"
  shows "(\<exists>s'. (pipeline_step NUM_MESSAGES (gn_messages (generate_ticks action junk NUM_MESSAGES)) (tick_to_trade x86 sys freq))\<^sup>*\<^sup>* s s' \<and>
      pl_at s' = At_End) \<and>
    (pl_at s = At_End \<longrightarrow> pl_processed s = NUM_MESSAGES) \<and>
    get_current_position (tt_risk (pl_state s)) = - 100 * int (min 100 (signals action junk (pl_processed s))) \<and>
    length (tt_latencies (pl_state s)) = min 100 (signals action junk (pl_processed s)) \<and>
    queue_at (tt_lob (pl_state s)) sd p = map (\<lambda>a. (act_id a, ucast (act_shares a)))
      (filter (\<lambda>a. ticks_placed action junk (pl_processed s) (act_id a) = Some (sd, p))
        (gn_active (generate_ticks action junk (pl_processed s))))"
proof -
  have "ticks_ok action junk 0 (start_ticks l0 buf w)"
    using init_memory_pool_refines [OF assms(1)] assms(3)
    by (simp add: ticks_ok_def position_ok_def signals_def start_ticks_def new_risk_engine_def
        tick_sender_def new_generator_def sized_refines_def)
  note R = feed_pipeline.pipeline_run [OF tick_feed [OF assms(2)] assms(4) this]
  have "sender_ok (pl_processed s) (tick_sender action junk (pl_processed s))"
    using tick_sender_ok [OF assms(2), of "pl_processed s" junk] R(2) by (simp add: NUM_MESSAGES_def)
  moreover have "book_ok (pl_processed s) (tick_sender action junk (pl_processed s)) (tt_lob (pl_state s))"
    using R(3) by (simp add: ticks_ok_def)
  ultimately have "queue_at (tt_lob (pl_state s)) sd p = map (\<lambda>a. (act_id a, ucast (act_shares a)))
      (filter (\<lambda>a. ticks_placed action junk (pl_processed s) (act_id a) = Some (sd, p)) (gn_active (generate_ticks action junk (pl_processed s))))"
    unfolding tick_sender_def by (intro book_queues)
  with R show ?thesis by (simp add: ticks_ok_def position_ok_def get_current_position_def)
qed

text \<open>A feed of adds only, with the counter of \<open>ghz_3\<close>.\<close>

lemma demo_signals: "100 \<le> signals (\<lambda>_. 0) junk NUM_MESSAGES"
proof -
  let ?S = "(\<lambda>k. 100 * k + 60) ` {..<100 :: nat}"
  have "?S \<subseteq> set (filter (\<lambda>i. adds_at (\<lambda>_. 0) junk i \<and> 50 < i mod 100) [0..<NUM_MESSAGES])"
    by (auto simp: adds_at_def NUM_MESSAGES_def)
  then have "card ?S \<le> card (set (filter (\<lambda>i. adds_at (\<lambda>_. 0) junk i \<and> 50 < i mod 100) [0..<NUM_MESSAGES]))"
    by (intro card_mono) simp_all
  also have "\<dots> \<le> signals (\<lambda>_. 0) junk NUM_MESSAGES" unfolding signals_def by (rule card_length)
  finally show ?thesis by (simp add: card_image inj_on_def)
qed

theorem tick_to_trade_stops_at_limit_witness:
  "\<exists>l0 s. init_memory_pool (\<lambda>_. True) 1000000 100000 = Inr l0 \<and>
     (pipeline_step NUM_MESSAGES (gn_messages (generate_ticks (\<lambda>_. 0) (\<lambda>_ _. 0) NUM_MESSAGES)) (tick_to_trade True ghz_3 (Num 3000000000)))\<^sup>*\<^sup>*
       (start_pipeline \<lparr>im_type = 0, im_id = 0, im_price = 0, im_quantity = 0, im_side = BUY\<rparr>
         \<lparr>im_type = 0, im_id = 0, im_price = 0, im_quantity = 0, im_side = BUY\<rparr> (start_ticks l0 (replicate 64 0) 0)) s \<and>
     pl_at s = At_End \<and> get_current_position (tt_risk (pl_state s)) = - 10000 \<and> length (tt_latencies (pl_state s)) = 100"
proof -
  let ?m = "\<lparr>im_type = 0, im_id = 0, im_price = 0, im_quantity = 0, im_side = BUY\<rparr>" and ?junk = "\<lambda>_ _. 0 :: u8"
  let ?step = "pipeline_step NUM_MESSAGES (gn_messages (generate_ticks (\<lambda>_. 0) ?junk NUM_MESSAGES)) (tick_to_trade True ghz_3 (Num 3000000000))"
  obtain l0 where l0: "init_memory_pool (\<lambda>_. True) 1000000 100000 = Inr l0"
    by (simp add: init_memory_pool_def layout_fits_def Let_def case_prod_beta)
  have "uniform_0_99 (\<lambda>_. 0)" "length (replicate 64 (0 :: u8)) = 64" by (simp_all add: uniform_0_99_def)
  note T = tick_to_trade_stops_at_limit [OF l0 this, of ?junk True ghz_3 "Num 3000000000" ?m ?m 0]
  from T [OF rtranclp.rtrancl_refl] obtain s where s: "?step\<^sup>*\<^sup>* (start_pipeline ?m ?m (start_ticks l0 (replicate 64 0) 0)) s" "pl_at s = At_End" by blast
  have "get_current_position (tt_risk (pl_state s)) = - 10000" "length (tt_latencies (pl_state s)) = 100"
    using T [OF s(1)] s(2) demo_signals [of ?junk] by simp_all
  with l0 s show ?thesis by (intro exI conjI)
qed

end
