(* ===== verification/Spec2Isabelle.thy ===== *)
theory Spec2Isabelle
  imports Order_Book_Props SPSC_Concurrent ITCH5 OUCH42 EMS_Props Strategy_Engine Trading_System Logger_Props Exchange_Emulator Order_Book_WF Naive_Book TSC_Utils Main_Props Closed_Loop Bench_Trade
begin

text \<open>
  \<^bold>\<open>A verification of a high-frequency trading system.\<close> The program under \<open>src/\<close> receives market
  data as ITCH 5.0 datagrams, keeps a limit order book, lets a strategy react and sends OUCH 4.2
  orders over TCP after a risk check. A network thread parses datagrams and pushes messages into a
  lock-free ring buffer; a strategy thread pops them, updates the book and runs the strategies; a
  logger with a background thread writes what all threads report. An exchange emulator is the
  counterpart for tests.

  \<^bold>\<open>Conventions.\<close> Machine integers are words of their width; structs are records; functions are
  executable. \<open>None\<close> stands for an execution without a defined result: a loop that never returns
  (\<open>partial_function\<close>), an access outside an array, a null dereference, signed overflow, a missing
  string terminator. Operations return the calls they make to the logger. Exceptions are the left
  summand of a sum. Pointers into pools are indices.

  \<^bold>\<open>Theories and sources.\<close>
  \<^item> \<open>HFT_Prelude\<close>: integers, arrays with bounds, cyclic indices, log calls. \<open>Bounded_Sim\<close>: locale for
    a component that follows its specification as long as it has room.
  \<^item> \<open>Probe_Table\<close>, \<open>Order_Map\<close>: the linear-probing hash map with tombstones of \<open>OrderBook.cpp\<close>
    (\<open>map_insert\<close>, \<open>map_find\<close>, \<open>map_erase\<close>). \<open>Order_Book\<close>: the memory pool, the intrusive queues and
    the public operations of \<open>LimitOrderBook\<close>. \<open>Order_Queues\<close>, \<open>Order_Book_Rep\<close>, \<open>Book_Spec\<close>,
    \<open>Order_Book_Correct\<close>, \<open>Order_Book_Props\<close>: pointer structures related to lists, the abstract book
    in price-time priority, the refinement and its consequences. \<open>Order_Book_WF\<close>: an executable check
    of all pointers of the book. \<open>Naive_Book\<close>: the reference book \<open>benchmarks/NaiveOrderBook.hpp\<close>, which
    meets the same contract.
  \<^item> \<open>SPSC_Queue\<close>: \<open>SPSCQueue.hpp\<close> as a bounded queue (locale \<open>bounded_fifo\<close>) with the spinning push of
    the producers. \<open>SPSC_Concurrent\<close>: producer and consumer as threads of single memory accesses
    with release and acquire indices: order, bounds and absence of data races.
  \<^item> \<open>Wire_Bytes\<close>: bytes, byte order, C strings, packed structs (locale \<open>packed_struct\<close>). \<open>ITCH5\<close>:
    \<open>ITCH5Parser.hpp\<close>/\<open>.cpp\<close>, parser and builder. \<open>OUCH42\<close>: \<open>OUCH42.hpp\<close>/\<open>.cpp\<close>, builders and parser.
  \<^item> \<open>EMS\<close>, \<open>EMS_Props\<close>: \<open>EMS.hpp\<close>/\<open>.cpp\<close>, the order state machine over its hash table.
    \<open>Double_Arith\<close>: double precision arithmetic, rounded exactly, used by \<open>Pre_Trade_Risk\<close>
    (\<open>PreTradeRisk.hpp\<close>/\<open>.cpp\<close>) and \<open>TSC_Utils\<close> (\<open>TSCUtils.hpp\<close>/\<open>.cpp\<close>). \<open>TCP_Egress\<close>:
    \<open>TCPEgress.hpp\<close>/\<open>.cpp\<close>. \<open>Strategy_Engine\<close>: \<open>StrategyEngine\<close>, \<open>IStrategy.hpp\<close> and
    \<open>MarketMakerStrategy\<close>.
  \<^item> \<open>Printf\<close>: the part of formatted output the program uses. \<open>Async_Logger\<close>, \<open>Logger_Threads\<close>,
    \<open>Logger_Props\<close>: \<open>AsyncLogger.hpp\<close>/\<open>.cpp\<close>, its operations, its threads as a step relation, and
    what reaches the file.
  \<^item> \<open>Event_Loop\<close>, \<open>Event_Loop_Correct\<close>: \<open>NetworkEventLoop.hpp\<close>/\<open>.cpp\<close> with the contract \<open>fd_source\<close> of
    the operations that add a socket.
  \<^item> \<open>Exchange_Emulator\<close>: \<open>ExchangeEmulator.cpp\<close>. \<open>System_Support\<close>: \<open>ThreadAffinity\<close> and
    \<open>NumaAllocator\<close>.
  \<^item> \<open>Trading_System\<close>: the objects and the loop of the strategy thread of \<open>Main.cpp\<close>, the callback of
    the feed, and the interleaving of both threads over the ring buffer. \<open>Main_Network\<close>: the network
    thread with its event loop. \<open>Main_Program\<close>: the whole of \<open>main\<close>, from the start of the logger to its
    shutdown, as a step relation of the main, strategy and network threads and the background
    thread of the logger; a thread waits in a log call that finds its ring full. The log calls of a
    statement are made after its effect on the other objects, in their order. \<open>Main_Logging\<close>,
    \<open>Main_Trading\<close>: its invariants. \<open>Main_Props\<close>: log, stall without a log file, life of the ring
    buffer. \<open>Closed_Loop\<close>: the program and the emulator together. This theory: the book of the whole
    program, and progress of both threads.
  \<^item> \<open>Bench_Pipeline\<close>: the two threads of the pipeline programs under \<open>benchmarks/\<close>, with the contract
    \<open>feed_pipeline\<close> between the messages and the consumer; \<open>Bench_Feed\<close>: their synthetic messages and
    the book they make; \<open>Bench_Churn\<close>: \<open>ITCH_to_LOB_pipeline.cpp\<close>; \<open>Bench_Trade\<close>:
    \<open>tick_to_trade_pipeline.cpp\<close>.

  \<^bold>\<open>What is shown.\<close> The order book and the order management refine abstract maps and queues for
  every sequence of calls that leaves a hash slot unused, and hang when none is left; the pointers
  of the book stay well-formed, and it is equivalent to the reference book; the ring
  buffer is a first-in first-out queue under every interleaving; the wire formats round-trip and
  have the documented layout; the risk check decides as exact arithmetic and the calibration of the
  time stamp counter is accurate in spite of its rounded operations; every order of a strategy
  is accounted for in position, order management and on the socket; the book of the running program
  follows the feed under every interleaving, and
  the threads cannot get stuck with messages in the ring; log messages reach the file in the order
  of their thread unless the file cannot grow or shutdown overtakes them, for the logger alone and
  for the program; without a log file the program stops trading; the event loop leaks no
  descriptor and routes every event to its callback; an order that reaches the emulator comes back
  on the feed as the same add order, and the order of the strategy itself ends in the strategy's own
  book; the benchmark pipelines carry every message of their generators through encoder, parser,
  ring buffer and book without loss, and stop selling at the position limit. Several theorems describe defects of the code; they are marked
  as such in their texts.

  \<^bold>\<open>Parameters and hypotheses.\<close> System calls are arguments: \<open>mmap\<close> succeeds or fails by size
  (\<open>mmap_ok\<close>); \<open>send\<close> takes a prefix of the bytes it is given (\<open>posix_stream\<close>, with \<open>scripted\<close> as an
  instance); socket and epoll calls keep track of open and watched descriptors (\<open>posix_net\<close>, with
  \<open>table_kernel\<close> as an instance); edge-triggered readiness (\<open>edge_triggered\<close>); \<open>ftruncate\<close> and \<open>mremap\<close>
  succeed or fail arbitrarily. The program runs on a \<open>platform\<close> that collects these calls
  (\<open>plain_platform\<close> is an instance); the random numbers of the benchmarks are arbitrary within their
  range (\<open>uniform_0_99\<close>); counter, clock and sleep of \<open>TSC_Utils\<close> are a \<open>tsc_sys\<close> (\<open>ghz_3\<close> is
  an instance). Uninitialised memory is an arbitrary argument (\<open>junk\<close>). Loops over
  hash tables and rings are partial functions, and that they return is proved; the only fuel is
  that of \<open>walk\<close>, the size of the pool.

  \<^bold>\<open>Not modelled.\<close> Output on the console; destructors that only unmap memory; in the exchange
  emulator the calls that start and stop the logger, which are those of \<open>Main.cpp\<close>; the two signed
  zeros of double arithmetic, which no operation distinguishes; \<open>Payload.hpp\<close>, a struct without
  operations; the benchmarks that only time single calls, the times, command lines and statistics of
  the pipelines, and the tests. The strategy thread and the
  logger use the ring buffer through its atomic operations, justified by \<open>SPSC_Concurrent\<close>.
\<close>

section \<open>The threads together\<close>

text \<open>
  C24. The program follows the feed. In every state the whole program can reach, under every
  interleaving of its threads, from before the sockets are set up until after the ring buffer is
  released, with threads waiting in their log calls: the messages parsed from the datagrams are, in
  order, those the strategy thread has handled followed by those in the ring buffer, at most 65535 of
  them; and as long as fewer than two million adds were handled, the queues of the order book are
  those of the abstract book after the handled messages, and the one order of the market maker, at
  the first qualifying buy, is what position and order management hold.
\<close>

theorem program_follows_feed:
  assumes "(program_step P)\<^sup>*\<^sup>* (start_program L logs (new_queue QUEUE_CAPACITY junk) w) s"
    and "posix_stream (pf_send P) out"
  shows "(\<forall>q. pg_queue s = Some q \<longrightarrow> pg_fed s = pg_handled s @ contents q \<and> length (contents q) \<le> 65535) \<and>
    (\<forall>tr. pg_trader s = Some tr \<and> adds (pg_handled s) < 2000000 \<longrightarrow>
       (\<forall>sd p. queue_at (tr_lob tr) sd p = level_queue (spec_book 1000000 100000 (pg_handled s)) sd p) \<and>
       current_position (eng_risk (tr_engine tr)) = (if filter triggers (pg_handled s) = [] then 0 else - 100) \<and>
       (\<forall>oid. getOrderState (eng_ems (tr_engine tr)) oid =
          Some (if filter triggers (pg_handled s) \<noteq> [] \<and> oid = 1000 then PENDING_NEW else NONE)))"
proof (intro conjI allI impI; (elim conjE)?)
  have run: "trading_run P out s" by (rule trading_run_reach [OF assms])
  {
    fix q assume "pg_queue s = Some q"
    with run have "queue_inv QUEUE_CAPACITY q" "pg_fed s = pg_handled s @ contents q"
      by (simp_all add: trading_run_def ring_fed_def)
    with spsc.bounded [OF this(1)] show "pg_fed s = pg_handled s @ contents q" "length (contents q) \<le> 65535"
      by (simp_all add: QUEUE_CAPACITY_def)
  next
    fix tr assume "pg_trader s = Some tr" "adds (pg_handled s) < 2000000"
    with run obtain tr0 w0 where t: "start_trader (pf_mmap_ok P) (pg_tcp s) = Some tr0"
      "trading_inv out tr0 w0 (pg_handled s) (with_gateway (pg_tcp s) tr) (pg_world s)"
      by (auto simp: trading_run_def traded_def)
    note O = trading_inv_observed [OF t]
    have g: "tr_lob (with_gateway (pg_tcp s) tr) = tr_lob tr" "eng_risk (tr_engine (with_gateway (pg_tcp s) tr)) = eng_risk (tr_engine tr)"
      "eng_ems (tr_engine (with_gateway (pg_tcp s) tr)) = eng_ems (tr_engine tr)" by (simp_all add: with_gateway_def)
    show "queue_at (tr_lob tr) sd p = level_queue (spec_book 1000000 100000 (pg_handled s)) sd p" for sd p
      using O(1) g(1) by simp
    show "current_position (eng_risk (tr_engine tr)) = (if filter triggers (pg_handled s) = [] then 0 else - 100)"
      "getOrderState (eng_ems (tr_engine tr)) oid =
          Some (if filter triggers (pg_handled s) \<noteq> [] \<and> oid = 1000 then PENDING_NEW else NONE)" for oid
      using O(2) g(2,3) by (cases "filter triggers (pg_handled s)"; simp)+
  }
qed

theorem program_follows_feed_witness:
  "\<exists>s tr. (program_step plain_platform)\<^sup>*\<^sup>* (start_program (boot_logger 3 True True) [] (new_queue QUEUE_CAPACITY blank) (3, [], [])) s \<and>
     pg_trader s = Some tr \<and> queue_at (tr_lob tr) BUY 15000 = [(500000, 100)] \<and>
     current_position (eng_risk (tr_engine tr)) = - 100 \<and> getOrderState (eng_ems (tr_engine tr)) 1000 = Some PENDING_NEW"
proof -
  obtain s tr where s: "(program_step plain_platform)\<^sup>*\<^sup>* (start_program (boot_logger 3 True True) [] (new_queue QUEUE_CAPACITY blank) (3, [], [])) s"
    "pg_handled s = [demo_order]" "pg_trader s = Some tr" by (rule handled_reachable) auto
  have t: "filter triggers [demo_order] = [demo_order]" by (simp add: triggers_def)
  have b: "level_queue (spec_book 1000000 100000 [demo_order]) BUY 15000 = [(500000, 100)]"
    by (simp add: spec_book_def book_cmds_def map_filter_def book_cmd_of_def spec_add_def spec_find_def)
  have a: "adds [demo_order] < 2000000" by (simp add: adds_def)
  note F = program_follows_feed [OF s(1) plain_posix, unfolded s(2) t b, THEN conjunct2, rule_format, of tr]
  show ?thesis using F s(1,3) a b by auto
qed



end
